(* ===== verification/Prelude.thy ===== *)
theory Prelude
  imports Main "HOL-Library.Word"
begin

text \<open>
  Shared vocabulary of the development: the C integer types, memory as byte lists with
  bounds-checked reads and writes, the faults a C program can run into, the sequencing of
  computations that may fault, and the byte-order conversions of \<open>arpa/inet.h\<close>.

  The host is the one the repository is built for (x86-64 Linux): little-endian, 64-bit
  \<open>size_t\<close>.  A region of memory is the list of its bytes, and a pointer into it is an
  offset.  A read or write outside the region is a fault, never an unspecified value.
\<close>

unbundle bit_operations_syntax

section \<open>C integers and memory\<close>

type_synonym u8 = "8 word"
type_synonym u16 = "16 word"
type_synonym u32 = "32 word"
type_synonym u64 = "64 word"
type_synonym buf = "u8 list"

section \<open>Faults\<close>

text \<open>
  What ends a C computation without a defined result: an access outside an object or through a null pointer, a loop
  that never reaches its exit, a lock that is never released to the caller, the use of a
  variable that no path has written, and a non-void function that falls off its end.
\<close>

datatype fault = OutOfBounds | NullDeref | Diverges | Blocked | Uninitialised | NoReturnValue

type_synonym 'a res = "fault + 'a"

fun ebind :: "'a res \<Rightarrow> ('a \<Rightarrow> 'b res) \<Rightarrow> 'b res" where
  "ebind (Inl e) f = Inl e"
| "ebind (Inr x) f = f x"

named_theorems res_simps \<open>rules that evaluate computations in the fault type\<close>
named_theorems layout_simps \<open>rules about the position and size of fields in memory\<close>

lemma ebind_cong [fundef_cong]:
  "m = m' \<Longrightarrow> (\<And>x. m' = Inr x \<Longrightarrow> f x = g x) \<Longrightarrow> ebind m f = ebind m' g"
  by (cases m') auto

lemma ebind_Inr_iff [res_simps]:
  "ebind m f = Inr y \<longleftrightarrow> (\<exists>x. m = Inr x \<and> f x = Inr y)"
  by (cases m) auto

lemma ebind_Inl_iff:
  "ebind m f = Inl e \<longleftrightarrow> m = Inl e \<or> (\<exists>x. m = Inr x \<and> f x = Inl e)"
  by (cases m) auto

lemma ebind_assoc: "ebind (ebind m f) g = ebind m (\<lambda>x. ebind (f x) g)"
  by (cases m) auto

lemma ebind_InrE:
  assumes "ebind m f = Inr y"
  obtains x where "m = Inr x" and "f x = Inr y"
  using assms by (cases m) auto

section \<open>Bounds-checked memory access\<close>

definition rd8 :: "buf \<Rightarrow> nat \<Rightarrow> u8 res" where
  "rd8 b i = (if i < length b then Inr (b ! i) else Inl OutOfBounds)"

definition wr8 :: "buf \<Rightarrow> nat \<Rightarrow> u8 \<Rightarrow> buf res" where
  "wr8 b i v = (if i < length b then Inr (b[i := v]) else Inl OutOfBounds)"

text \<open>\<open>memcpy\<close> from and to a region.\<close>

definition rd_bytes :: "buf \<Rightarrow> nat \<Rightarrow> nat \<Rightarrow> buf res" where
  "rd_bytes b i n = (if i + n \<le> length b then Inr (take n (drop i b)) else Inl OutOfBounds)"

definition splice :: "nat \<Rightarrow> 'a list \<Rightarrow> 'a list \<Rightarrow> 'a list" where
  "splice i bs b = take i b @ bs @ drop (i + length bs) b"

definition wr_bytes :: "buf \<Rightarrow> nat \<Rightarrow> buf \<Rightarrow> buf res" where
  "wr_bytes b i bs =
     (if i + length bs \<le> length b
      then Inr (splice i bs b) else Inl OutOfBounds)"

lemma rd8_ok [res_simps]: "i < length b \<Longrightarrow> rd8 b i = Inr (b ! i)"
  by (simp add: rd8_def)

lemma rd8_Inr_iff [res_simps]: "rd8 b i = Inr v \<longleftrightarrow> i < length b \<and> v = b ! i"
  by (auto simp: rd8_def)

lemma wr8_ok [res_simps]: "i < length b \<Longrightarrow> wr8 b i v = Inr (b[i := v])"
  by (simp add: wr8_def)

lemma wr8_Inr_iff [res_simps]: "wr8 b i v = Inr b' \<longleftrightarrow> i < length b \<and> b' = b[i := v]"
  by (auto simp: wr8_def)

lemma rd_bytes_ok [res_simps]: "i + n \<le> length b \<Longrightarrow> rd_bytes b i n = Inr (take n (drop i b))"
  by (simp add: rd_bytes_def)

lemma rd_bytes_Inr_iff [res_simps]:
  "rd_bytes b i n = Inr bs \<longleftrightarrow> i + n \<le> length b \<and> bs = take n (drop i b)"
  by (auto simp: rd_bytes_def)

lemma wr_bytes_ok [res_simps]:
  "i + length bs \<le> length b \<Longrightarrow> wr_bytes b i bs = Inr (splice i bs b)"
  by (simp add: wr_bytes_def)

lemma wr_bytes_Inr_iff [res_simps]:
  "wr_bytes b i bs = Inr b' \<longleftrightarrow> i + length bs \<le> length b \<and> b' = splice i bs b"
  by (auto simp: wr_bytes_def)

text \<open>A splice keeps the length of the region and everything outside the written range.\<close>

lemma length_splice [layout_simps]:
  "i + length bs \<le> length b \<Longrightarrow> length (splice i bs b) = length b"
  by (simp add: splice_def)

lemma nth_splice [layout_simps]:
  "i + length bs \<le> length b \<Longrightarrow> j < length b \<Longrightarrow>
   splice i bs b ! j = (if i \<le> j \<and> j < i + length bs then bs ! (j - i) else b ! j)"
  by (auto simp: splice_def nth_append)

lemma take_drop_splice_same [layout_simps]:
  "i + length bs \<le> length b \<Longrightarrow> n = length bs \<Longrightarrow> take n (drop i (splice i bs b)) = bs"
  by (simp add: splice_def)

lemma take_drop_splice_other [layout_simps]:
  assumes "i + length bs \<le> length b" and "j + n \<le> i \<or> i + length bs \<le> j"
  shows "take n (drop j (splice i bs b)) = take n (drop j b)"
proof (rule nth_equalityI)
  show "length (take n (drop j (splice i bs b))) = length (take n (drop j b))"
    using assms(1) by (simp add: length_splice)
next
  fix k
  assume "k < length (take n (drop j (splice i bs b)))"
  then have "k < n" "j + k < length b" using assms(1) by (auto simp: length_splice)
  then show "take n (drop j (splice i bs b)) ! k = take n (drop j b) ! k"
    using assms by (auto simp: nth_splice length_splice)
qed

section \<open>Multi-byte integers in memory\<close>

text \<open>A \<open>uint16_t\<close> and a \<open>uint32_t\<close> in memory, low byte first.\<close>

definition le16 :: "u8 \<Rightarrow> u8 \<Rightarrow> u16" where
  "le16 lo hi = ucast lo OR push_bit 8 (ucast hi)"

definition lo8 :: "u16 \<Rightarrow> u8" where
  "lo8 w = ucast w"

definition hi8 :: "u16 \<Rightarrow> u8" where
  "hi8 w = ucast (drop_bit 8 w)"

definition le32 :: "u8 \<Rightarrow> u8 \<Rightarrow> u8 \<Rightarrow> u8 \<Rightarrow> u32" where
  "le32 a b c d =
     ((ucast a OR push_bit 8 (ucast b)) OR push_bit 16 (ucast c)) OR push_bit 24 (ucast d)"

definition byte32 :: "nat \<Rightarrow> u32 \<Rightarrow> u8" where
  "byte32 k w = ucast (drop_bit (8 * k) w)"

definition rd16 :: "buf \<Rightarrow> nat \<Rightarrow> u16 res" where
  "rd16 b i = ebind (rd8 b i) (\<lambda>lo. ebind (rd8 b (Suc i)) (\<lambda>hi. Inr (le16 lo hi)))"

definition wr16 :: "buf \<Rightarrow> nat \<Rightarrow> u16 \<Rightarrow> buf res" where
  "wr16 b i w = ebind (wr8 b i (lo8 w)) (\<lambda>b1. wr8 b1 (Suc i) (hi8 w))"

lemma lo8_le16 [simp]: "lo8 (le16 lo hi) = lo"
  by (rule bit_word_eqI) (auto simp: lo8_def le16_def bit_simps dest: bit_imp_le_length)

lemma hi8_le16 [simp]: "hi8 (le16 lo hi) = hi"
  by (rule bit_word_eqI) (auto simp: hi8_def le16_def bit_simps dest: bit_imp_le_length)

lemma le16_lo8_hi8 [simp]: "le16 (lo8 w) (hi8 w) = w"
  by (rule bit_word_eqI) (auto simp: hi8_def lo8_def le16_def bit_simps not_less le_add_diff_inverse)

lemma le16_eq_iff [simp]: "le16 a b = le16 c d \<longleftrightarrow> a = c \<and> b = d"
  by (metis lo8_le16 hi8_le16)

lemma unat_u8_less: "unat (a :: u8) < 256"
  using unsigned_less [of a] by simp

lemma unat_u16_less: "unat (a :: u16) < 65536"
  using unsigned_less [of a] by simp

lemma unat_le16: "unat (le16 lo hi) = unat lo + 256 * unat hi"
proof -
  have "le16 lo hi = ucast lo + push_bit 8 (ucast hi)"
    unfolding le16_def
    by (rule disjunctive_add [symmetric]) (auto simp: bit_simps dest: bit_imp_le_length)
  moreover have "unat lo < 256" "unat hi < 256" by (rule unat_u8_less)+
  ultimately show ?thesis
    by (simp add: unat_word_ariths push_bit_eq_mult unsigned_ucast_eq take_bit_nat_eq_self)
qed

lemma bit_le32:
  "bit (le32 a b c d) n \<longleftrightarrow>
     (if n < 8 then bit a n else if n < 16 then bit b (n - 8)
      else if n < 24 then bit c (n - 16) else bit d (n - 24))"
  by (auto simp: le32_def bit_simps not_less dest: bit_imp_le_length)

lemma byte32_le32 [simp]:
  "byte32 0 (le32 a b c d) = a" "byte32 (Suc 0) (le32 a b c d) = b"
  "byte32 2 (le32 a b c d) = c" "byte32 3 (le32 a b c d) = d"
  by (rule bit_word_eqI; auto simp: byte32_def le32_def bit_simps dest: bit_imp_le_length)+

lemma le32_byte32 [simp]: "le32 (byte32 0 w) (byte32 (Suc 0) w) (byte32 2 w) (byte32 3 w) = w"
proof (rule bit_word_eqI)
  fix n
  assume "n < LENGTH(32)"
  then have n: "n < 32" by simp
  consider "n < 8" | "8 \<le> n" "n < 16" | "16 \<le> n" "n < 24" | "24 \<le> n" by linarith
  then show "bit (le32 (byte32 0 w) (byte32 (Suc 0) w) (byte32 2 w) (byte32 3 w)) n = bit w n"
    using n by cases (auto simp: byte32_def le32_def bit_simps)
qed

lemma le32_eq_iff [simp]:
  "le32 a b c d = le32 a' b' c' d' \<longleftrightarrow> a = a' \<and> b = b' \<and> c = c' \<and> d = d'"
  by (metis byte32_le32)

lemma le32_sum:
  "le32 a b c d =
     ucast a + push_bit 8 (ucast b) + push_bit 16 (ucast c) + push_bit 24 (ucast d)"
proof -
  have 1: "ucast a OR push_bit 8 (ucast b) = (ucast a + push_bit 8 (ucast b) :: u32)"
    by (rule disjunctive_add [symmetric]) (auto simp: bit_simps dest: bit_imp_le_length)
  have 2: "(ucast a OR push_bit 8 (ucast b)) OR push_bit 16 (ucast c) =
      ((ucast a OR push_bit 8 (ucast b)) + push_bit 16 (ucast c) :: u32)"
    by (rule disjunctive_add [symmetric]) (auto simp: bit_simps dest: bit_imp_le_length)
  have 3: "((ucast a OR push_bit 8 (ucast b)) OR push_bit 16 (ucast c)) OR push_bit 24 (ucast d) =
      (((ucast a OR push_bit 8 (ucast b)) OR push_bit 16 (ucast c)) + push_bit 24 (ucast d) :: u32)"
    by (rule disjunctive_add [symmetric]) (auto simp: bit_simps dest: bit_imp_le_length)
  show ?thesis unfolding le32_def 3 unfolding 2 unfolding 1 ..
qed

lemma unat_le32:
  "unat (le32 a b c d) = unat a + 256 * unat b + 65536 * unat c + 16777216 * unat d"
proof -
  have "unat a < 256" "unat b < 256" "unat c < 256" "unat d < 256" by (rule unat_u8_less)+
  then show ?thesis
    unfolding le32_sum
    by (simp add: unat_word_ariths push_bit_eq_mult unsigned_ucast_eq take_bit_nat_eq_self)
qed

lemma rd16_ok [res_simps]: "Suc i < length b \<Longrightarrow> rd16 b i = Inr (le16 (b ! i) (b ! Suc i))"
  by (simp add: rd16_def rd8_def)

lemma rd16_Inr_iff [res_simps]:
  "rd16 b i = Inr w \<longleftrightarrow> Suc i < length b \<and> w = le16 (b ! i) (b ! Suc i)"
  by (auto simp: rd16_def ebind_Inr_iff rd8_Inr_iff)

lemma wr16_ok [res_simps]:
  "Suc i < length b \<Longrightarrow> wr16 b i w = Inr (b[i := lo8 w, Suc i := hi8 w])"
  by (simp add: wr16_def wr8_def)

lemma wr16_Inr_iff [res_simps]:
  "wr16 b i w = Inr b' \<longleftrightarrow> Suc i < length b \<and> b' = b[i := lo8 w, Suc i := hi8 w]"
  by (auto simp: wr16_def ebind_Inr_iff wr8_Inr_iff)

section \<open>Byte order\<close>

text \<open>
  \<open>ntohs\<close>, \<open>htons\<close>, \<open>ntohl\<close> and \<open>htonl\<close> of \<open>arpa/inet.h\<close>
  on a little-endian host: the bytes in reverse.
\<close>

definition ntohs :: "u16 \<Rightarrow> u16" where
  "ntohs w = le16 (hi8 w) (lo8 w)"

definition htons :: "u16 \<Rightarrow> u16" where
  "htons w = le16 (hi8 w) (lo8 w)"

definition ntohl :: "u32 \<Rightarrow> u32" where
  "ntohl w = le32 (byte32 3 w) (byte32 2 w) (byte32 1 w) (byte32 0 w)"

definition htonl :: "u32 \<Rightarrow> u32" where
  "htonl w = le32 (byte32 3 w) (byte32 2 w) (byte32 1 w) (byte32 0 w)"

lemma ntohs_htons [simp]: "ntohs (htons w) = w"
  by (simp add: ntohs_def htons_def)

lemma htons_ntohs [simp]: "htons (ntohs w) = w"
  by (simp add: ntohs_def htons_def)

lemma ntohs_eq_iff: "ntohs a = b \<longleftrightarrow> a = htons b"
  by (metis htons_ntohs ntohs_htons)

lemma ntohs_le16 [simp]: "ntohs (le16 a b) = le16 b a"
  by (simp add: ntohs_def)

lemma ntohl_le32 [simp]: "ntohl (le32 a b c d) = le32 d c b a"
  by (simp add: ntohl_def)

lemma ntohl_ntohl [simp]: "ntohl (ntohl w) = w"
  by (simp add: ntohl_def)

lemma htonl_eq_ntohl: "htonl = ntohl"
  by (simp add: htonl_def ntohl_def fun_eq_iff)

section \<open>Association lists\<close>

lemma map_of_list_update:
  "distinct (map fst ps) \<Longrightarrow> k < length ps \<Longrightarrow>
     map_of (ps[k := (fst (ps ! k), v)]) = (map_of ps)(fst (ps ! k) \<mapsto> v)"
proof (induction ps arbitrary: k)
  case Nil
  then show ?case by simp
next
  case (Cons p ps)
  show ?case
  proof (cases k)
    case 0
    then show ?thesis by (cases p) (simp add: fun_eq_iff)
  next
    case (Suc j)
    with Cons.prems have j: "j < length ps" by simp
    then have "fst (ps ! j) \<in> set (map fst ps)" by (metis length_map nth_map nth_mem)
    moreover have "fst p \<notin> set (map fst ps)" using Cons.prems(1) by simp
    ultimately have neq: "fst (ps ! j) \<noteq> fst p" by metis
    have "map_of (ps[j := (fst (ps ! j), v)]) = (map_of ps)(fst (ps ! j) \<mapsto> v)"
      by (rule Cons.IH) (use Cons.prems(1) j in simp_all)
    with neq Suc show ?thesis by (cases p) (auto simp: fun_eq_iff)
  qed
qed

lemma map_fst_list_update: "k < length ps \<Longrightarrow> map fst (ps[k := (fst (ps ! k), v)]) = map fst ps"
  by (rule nth_equalityI) (auto simp: nth_list_update)

lemma map_of_snoc: "map_of ps k = None \<Longrightarrow> map_of (ps @ [(k, v)]) = (map_of ps)(k \<mapsto> v)"
  by (induction ps) (auto simp: fun_eq_iff map_add_def split: option.splits)

end
