(* ===== verification/Addresses.thy ===== *)
theory Addresses
  imports Prelude
begin

text \<open>
  The address types of \<open>include/structs.h\<close> and the address functions of
  \<open>src/utils.c\<close>, with \<open>mac_addr_to_string\<close> of \<open>src/main.c\<close>.

  An \<open>ip_addr_t\<close> is its four bytes in network order.  The numeric reading
  \<open>ip_num\<close> (most significant byte first) is the specification side: masks are compared
  with the mask of a CIDR prefix as a 32-bit number, and addresses are ordered by it.
\<close>

section \<open>Address types\<close>

datatype ip_addr = IpAddr (oct0: u8) (oct1: u8) (oct2: u8) (oct3: u8)

datatype mac_addr = MacAddr u8 u8 u8 u8 u8 u8

type_synonym port = u16

text \<open>\<open>ip.bytes[i]\<close> and the assignment \<open>ip.bytes[i] = v\<close>, for \<open>i\<close> in 0..3.\<close>

fun ip_byte :: "ip_addr \<Rightarrow> nat \<Rightarrow> u8" where
  "ip_byte (IpAddr a b c d) i = (if i = 0 then a else if i = 1 then b else if i = 2 then c else d)"

fun ip_set :: "ip_addr \<Rightarrow> nat \<Rightarrow> u8 \<Rightarrow> ip_addr" where
  "ip_set (IpAddr a b c d) i v =
     (if i = 0 then IpAddr v b c d else if i = 1 then IpAddr a v c d
      else if i = 2 then IpAddr a b v d else IpAddr a b c v)"

text \<open>The bytes of an address as they lie in memory, and reading them back.\<close>

fun ip_bytes :: "ip_addr \<Rightarrow> buf" where
  "ip_bytes (IpAddr a b c d) = [a, b, c, d]"

fun mac_bytes :: "mac_addr \<Rightarrow> buf" where
  "mac_bytes (MacAddr a b c d e f) = [a, b, c, d, e, f]"

definition ip_at :: "buf \<Rightarrow> nat \<Rightarrow> ip_addr" where
  "ip_at b i = IpAddr (b ! i) (b ! (i + 1)) (b ! (i + 2)) (b ! (i + 3))"

definition mac_at :: "buf \<Rightarrow> nat \<Rightarrow> mac_addr" where
  "mac_at b i = MacAddr (b ! i) (b ! (i + 1)) (b ! (i + 2)) (b ! (i + 3)) (b ! (i + 4)) (b ! (i + 5))"

definition rd_ip :: "buf \<Rightarrow> nat \<Rightarrow> ip_addr res" where
  "rd_ip b i = (if i + 4 \<le> length b then Inr (ip_at b i) else Inl OutOfBounds)"

definition rd_mac :: "buf \<Rightarrow> nat \<Rightarrow> mac_addr res" where
  "rd_mac b i = (if i + 6 \<le> length b then Inr (mac_at b i) else Inl OutOfBounds)"

definition wr_ip :: "buf \<Rightarrow> nat \<Rightarrow> ip_addr \<Rightarrow> buf res" where
  "wr_ip b i ip = wr_bytes b i (ip_bytes ip)"

lemma length_ip_bytes [simp]: "length (ip_bytes ip) = 4"
  by (cases ip) simp

lemma length_mac_bytes [simp]: "length (mac_bytes m) = 6"
  by (cases m) simp

lemma ip_bytes_inj [simp]: "ip_bytes a = ip_bytes b \<longleftrightarrow> a = b"
  by (cases a; cases b) auto

lemma mac_bytes_inj [simp]: "mac_bytes a = mac_bytes b \<longleftrightarrow> a = b"
  by (cases a; cases b) auto

lemma ip_at_append [layout_simps]: "ip_at (ip_bytes ip @ xs) 0 = ip"
  by (cases ip) (simp add: ip_at_def numeral_eq_Suc)

lemma ip_bytes_ip_at [layout_simps]:
  "i + 4 \<le> length b \<Longrightarrow> ip_bytes (ip_at b i) = take 4 (drop i b)"
  by (rule nth_equalityI) (auto simp: ip_at_def nth_Cons less_Suc_eq numeral_eq_Suc split: nat.split)

lemma rd_ip_ok [res_simps]: "i + 4 \<le> length b \<Longrightarrow> rd_ip b i = Inr (ip_at b i)"
  by (simp add: rd_ip_def)

lemma rd_ip_Inr_iff [res_simps]: "rd_ip b i = Inr ip \<longleftrightarrow> i + 4 \<le> length b \<and> ip = ip_at b i"
  by (auto simp: rd_ip_def)

lemma rd_mac_ok [res_simps]: "i + 6 \<le> length b \<Longrightarrow> rd_mac b i = Inr (mac_at b i)"
  by (simp add: rd_mac_def)

lemma rd_mac_Inr_iff [res_simps]: "rd_mac b i = Inr m \<longleftrightarrow> i + 6 \<le> length b \<and> m = mac_at b i"
  by (auto simp: rd_mac_def)

lemma wr_ip_ok [res_simps]:
  "i + 4 \<le> length b \<Longrightarrow> wr_ip b i ip = Inr (splice i (ip_bytes ip) b)"
  by (simp add: wr_ip_def wr_bytes_def)

lemma wr_ip_Inr_iff [res_simps]:
  "wr_ip b i ip = Inr b' \<longleftrightarrow> i + 4 \<le> length b \<and> b' = splice i (ip_bytes ip) b"
  by (auto simp: wr_ip_def wr_bytes_Inr_iff)

section \<open>Addresses as numbers\<close>

definition ip_word :: "ip_addr \<Rightarrow> u32" where
  "ip_word ip = le32 (oct3 ip) (oct2 ip) (oct1 ip) (oct0 ip)"

definition ip_num :: "ip_addr \<Rightarrow> nat" where
  "ip_num ip = unat (ip_word ip)"

lemma ip_word_inj [simp]: "ip_word a = ip_word b \<longleftrightarrow> a = b"
  by (cases a; cases b) (auto simp: ip_word_def)

lemma ip_num_inj [simp]: "ip_num a = ip_num b \<longleftrightarrow> a = b"
  by (simp add: ip_num_def flip: word_unat_eq_iff)

text \<open>Addresses in numeric order.\<close>

instantiation ip_addr :: linorder
begin

definition less_eq_ip_addr :: "ip_addr \<Rightarrow> ip_addr \<Rightarrow> bool" where
  "less_eq_ip_addr a b \<longleftrightarrow> ip_num a \<le> ip_num b"

definition less_ip_addr :: "ip_addr \<Rightarrow> ip_addr \<Rightarrow> bool" where
  "less_ip_addr a b \<longleftrightarrow> ip_num a < ip_num b"

instance
  by standard (auto simp: less_eq_ip_addr_def less_ip_addr_def)

end

lemma ip_num_mono: "a \<le> b \<longleftrightarrow> ip_num a \<le> ip_num b"
  by (simp add: less_eq_ip_addr_def)

section \<open>Masks\<close>

text \<open>
  \<open>create_subnet_mask\<close>: the loop over \<open>i = 0..2\<close>, its early exit at the byte the
  prefix ends in, and the \<open>int\<close> shift truncated to a byte.
\<close>

function subnet_mask_loop :: "nat \<Rightarrow> u8 \<Rightarrow> ip_addr \<Rightarrow> ip_addr" where
  "subnet_mask_loop i cidr_prefix_len msk =
     (if i < 3 then
        if cidr_prefix_len \<le> 8
        then ip_set msk i (ucast (push_bit (8 - unat cidr_prefix_len) (- 1 :: u32)))
        else subnet_mask_loop (Suc i) (cidr_prefix_len - 8) (ip_set msk i 0xff)
      else msk)"
  by pat_completeness auto
termination
  by (relation "measure (\<lambda>(i, _, _). 3 - i)") auto

declare subnet_mask_loop.simps [simp del]

definition create_subnet_mask :: "u8 \<Rightarrow> ip_addr" where
  "create_subnet_mask cidr_prefix_len = subnet_mask_loop 0 cidr_prefix_len (IpAddr 0 0 0 0)"

definition apply_mask :: "ip_addr \<Rightarrow> ip_addr \<Rightarrow> ip_addr" where
  "apply_mask msk ip =
     IpAddr (oct0 msk AND oct0 ip) (oct1 msk AND oct1 ip)
            (oct2 msk AND oct2 ip) (oct3 msk AND oct3 ip)"

definition ip_addr_equals :: "ip_addr \<Rightarrow> ip_addr \<Rightarrow> bool" where
  "ip_addr_equals ip1 ip2 \<longleftrightarrow>
     oct0 ip1 = oct0 ip2 \<and> oct1 ip1 = oct1 ip2 \<and> oct2 ip1 = oct2 ip2 \<and> oct3 ip1 = oct3 ip2"

lemma ip_addr_equals_iff [simp]: "ip_addr_equals a b \<longleftrightarrow> a = b"
  by (cases a; cases b) (simp add: ip_addr_equals_def)

text \<open>
  \<open>prefix_len_get\<close>: per byte, the length less its trailing zero bits; the first byte that
  is not full ends the scan.  A mask of four full bytes runs off the end of the function,
  which has no return statement there.
\<close>

fun byte_len_loop :: "u16 \<Rightarrow> nat \<Rightarrow> nat" where
  "byte_len_loop val 0 = 0"
| "byte_len_loop val (Suc n) =
     (if val AND 1 = 0 then byte_len_loop (drop_bit 1 val) n else Suc n)"

function prefix_len_loop :: "ip_addr \<Rightarrow> nat \<Rightarrow> nat \<Rightarrow> nat res" where
  "prefix_len_loop msk j prefix_len =
     (if j < 4 then
        let byte_len = byte_len_loop (ucast (ip_byte msk j)) 8;
            prefix_len' = prefix_len + byte_len
        in if byte_len \<noteq> 8 then Inr prefix_len' else prefix_len_loop msk (Suc j) prefix_len'
      else Inl NoReturnValue)"
  by pat_completeness auto
termination
  by (relation "measure (\<lambda>(_, j, _). 4 - j)") auto

declare prefix_len_loop.simps [simp del]

definition prefix_len_get :: "ip_addr \<Rightarrow> nat res" where
  "prefix_len_get msk = prefix_len_loop msk 0 0"

section \<open>Specification of a CIDR mask\<close>

text \<open>The mask of an \<open>n\<close>-bit prefix: the \<open>n\<close> most significant bits set.\<close>

definition word_ip :: "u32 \<Rightarrow> ip_addr" where
  "word_ip w = IpAddr (byte32 3 w) (byte32 2 w) (byte32 1 w) (byte32 0 w)"

definition cidr_mask :: "nat \<Rightarrow> ip_addr" where
  "cidr_mask n = word_ip (push_bit (32 - n) (mask n))"

text \<open>
  An address is in the network \<open>net/n\<close> when the two agree on their \<open>n\<close> most
  significant bits.
\<close>

definition in_network :: "ip_addr \<Rightarrow> nat \<Rightarrow> ip_addr \<Rightarrow> bool" where
  "in_network net n ip \<longleftrightarrow> ip_num ip div 2 ^ (32 - n) = ip_num net div 2 ^ (32 - n)"

lemma ip_word_word_ip [simp]: "ip_word (word_ip w) = w"
  using le32_byte32 [of w] by (simp add: ip_word_def word_ip_def)

lemma ip_word_apply_mask: "ip_word (apply_mask m ip) = ip_word m AND ip_word ip"
  by (rule bit_word_eqI) (simp add: ip_word_def apply_mask_def bit_le32 bit_and_iff)

lemma masked_eq_iff:
  assumes "n \<le> 32"
  shows "push_bit (32 - n) (mask n) AND v = push_bit (32 - n) (mask n) AND (w :: u32) \<longleftrightarrow>
         drop_bit (32 - n) v = drop_bit (32 - n) w" (is "?l \<longleftrightarrow> ?r")
proof
  assume l: ?l
  show ?r
  proof (rule bit_word_eqI)
    fix k
    assume "k < LENGTH(32)"
    from l have "bit (push_bit (32 - n) (mask n) AND v) (32 - n + k) =
        bit (push_bit (32 - n) (mask n) AND w) (32 - n + k)" by simp
    with assms show "bit (drop_bit (32 - n) v) k = bit (drop_bit (32 - n) w) k"
      by (auto simp: bit_simps dest: bit_imp_le_length)
  qed
next
  assume r: ?r
  show ?l
  proof (rule bit_word_eqI)
    fix k
    assume "k < LENGTH(32)"
    from r have "bit (drop_bit (32 - n) v) (k - (32 - n)) = bit (drop_bit (32 - n) w) (k - (32 - n))"
      by simp
    then show "bit (push_bit (32 - n) (mask n) AND v) k = bit (push_bit (32 - n) (mask n) AND w) k"
      by (auto simp: bit_simps)
  qed
qed

lemma apply_cidr_mask_eq_iff:
  assumes "n \<le> 32"
  shows "apply_mask (cidr_mask n) a = apply_mask (cidr_mask n) b \<longleftrightarrow> in_network b n a"
proof -
  have "apply_mask (cidr_mask n) a = apply_mask (cidr_mask n) b \<longleftrightarrow>
      ip_word (apply_mask (cidr_mask n) a) = ip_word (apply_mask (cidr_mask n) b)" by simp
  also have "\<dots> \<longleftrightarrow> drop_bit (32 - n) (ip_word a) = drop_bit (32 - n) (ip_word b)"
    unfolding ip_word_apply_mask cidr_mask_def ip_word_word_ip by (rule masked_eq_iff [OF assms])
  also have "\<dots> \<longleftrightarrow> in_network b n a"
    unfolding in_network_def ip_num_def word_unat_eq_iff
    by (simp only: unat_drop_bit_eq) (simp only: drop_bit_eq_div)
  finally show ?thesis .
qed

text \<open>The code's mask against the specification, prefix length by prefix length.\<close>

lemma create_subnet_mask_table:
  "\<forall>n \<in> set [0..<25]. create_subnet_mask (of_nat n) = cidr_mask n"
  by code_simp

lemma prefix_len_get_table: "\<forall>n \<in> set [0..<32]. prefix_len_get (cidr_mask n) = Inr n"
  by code_simp

text \<open>A full byte is written and eight bits of the prefix are used up.\<close>

lemma subnet_mask_loop_full:
  "i < 3 \<Longrightarrow> 8 < unat n \<Longrightarrow>
     subnet_mask_loop i n m = subnet_mask_loop (Suc i) (n - 8) (ip_set m i 255)"
  by (subst subnet_mask_loop.simps) (simp add: word_le_nat_alt)

lemma create_subnet_mask_beyond_24:
  assumes "24 \<le> unat n"
  shows "create_subnet_mask n = IpAddr 255 255 255 0"
proof (cases "unat n = 24")
  case True
  then have "n = 24" by (simp add: word_unat_eq_iff)
  show ?thesis unfolding \<open>n = 24\<close> by code_simp
next
  case False
  with assms have n: "24 < unat n" by simp
  have n8: "unat (n - 8) = unat n - 8" and n16: "unat (n - 8 - 8) = unat n - 16"
    using n by (simp_all add: unat_sub_if')
  have "create_subnet_mask n = subnet_mask_loop 3 (n - 8 - 8 - 8) (IpAddr 255 255 255 0)"
    unfolding create_subnet_mask_def using n n8 n16
    by (simp add: subnet_mask_loop_full numeral_eq_Suc)
  then show ?thesis by (simp add: subnet_mask_loop.simps)
qed

section \<open>Properties\<close>

lemma create_subnet_mask_short: "unat n \<le> 24 \<Longrightarrow> create_subnet_mask n = cidr_mask (unat n)"
proof -
  assume "unat n \<le> 24"
  then have "unat n \<in> set [0..<25]" by simp
  with create_subnet_mask_table have "create_subnet_mask (of_nat (unat n)) = cidr_mask (unat n)" by blast
  then show ?thesis by simp
qed

lemma prefix_len_get_cidr: "n < 32 \<Longrightarrow> prefix_len_get (cidr_mask n) = Inr n"
  using prefix_len_get_table by simp

text \<open>
  C40: for a prefix length of at most 24 the code's test, masking an address with
  \<open>create_subnet_mask\<close> and comparing it with the network address, decides exactly whether
  the address agrees with the network on that many leading bits.
\<close>

theorem mask_decides_network:
  assumes "unat n \<le> 24" and "apply_mask (create_subnet_mask n) net = net"
  shows "ip_addr_equals (apply_mask (create_subnet_mask n) ip) net \<longleftrightarrow> in_network net (unat n) ip"
  using assms apply_cidr_mask_eq_iff [of "unat n" ip net]
  by (simp add: create_subnet_mask_short)

theorem mask_decides_network_witness:
  "ip_addr_equals (apply_mask (create_subnet_mask 24) (IpAddr 192 168 1 77)) (IpAddr 192 168 1 0) =
     in_network (IpAddr 192 168 1 0) 24 (IpAddr 192 168 1 77)"
proof -
  have "unat (24 :: u8) \<le> 24"
    and "apply_mask (create_subnet_mask 24) (IpAddr 192 168 1 0) = IpAddr 192 168 1 0"
    by (simp, code_simp)
  from mask_decides_network [OF this, of "IpAddr 192 168 1 77"] show ?thesis by simp
qed

text \<open>
  A prefix length of 25 to 32 never gets its mask: the loop writes three bytes only, so
  the result is the mask of a 24-bit prefix, and it is not the mask asked for.
\<close>

theorem mask_of_long_prefix:
  assumes "24 < unat n" and "unat n \<le> 32"
  shows "create_subnet_mask n = cidr_mask 24 \<and> create_subnet_mask n \<noteq> cidr_mask (unat n)"
proof -
  have "create_subnet_mask n = IpAddr 255 255 255 0"
    using assms(1) by (intro create_subnet_mask_beyond_24) simp
  moreover have "cidr_mask 24 = IpAddr 255 255 255 0" by code_simp
  moreover have "\<forall>k \<in> set [25..<33]. cidr_mask k \<noteq> IpAddr 255 255 255 0" by code_simp
  moreover have "unat n \<in> set [25..<33]" using assms by auto
  ultimately show ?thesis by metis
qed

theorem mask_of_long_prefix_witness:
  "create_subnet_mask 30 = cidr_mask 24 \<and> create_subnet_mask 30 \<noteq> cidr_mask 30"
proof -
  have u: "unat (30 :: u8) = 30" by simp
  show ?thesis by (rule mask_of_long_prefix [of 30, unfolded u]) simp_all
qed

text \<open>
  \<open>prefix_len_get\<close> inverts \<open>create_subnet_mask\<close> on every prefix length up to 24 and
  reads the length of every contiguous mask but the full one, for which it returns no value.
\<close>

theorem prefix_len_roundtrip:
  assumes "unat n \<le> 24" and "k < 32"
  shows "prefix_len_get (create_subnet_mask n) = Inr (unat n) \<and>
    prefix_len_get (cidr_mask k) = Inr k \<and>
    prefix_len_get (IpAddr 255 255 255 255) = Inl NoReturnValue"
proof -
  have "prefix_len_get (IpAddr 255 255 255 255) = Inl NoReturnValue" by code_simp
  with assms show ?thesis by (simp add: create_subnet_mask_short prefix_len_get_cidr)
qed

theorem prefix_len_roundtrip_witness:
  "prefix_len_get (create_subnet_mask 20) = Inr 20 \<and> prefix_len_get (cidr_mask 31) = Inr 31 \<and>
    prefix_len_get (IpAddr 255 255 255 255) = Inl NoReturnValue"
  using prefix_len_roundtrip [of 20 31] by simp

end
