(* ===== verification/Interfaces.thy ===== *)
theory Interfaces
  imports Addresses
begin

text \<open>
  The interface table of \<open>src/interfaces.c\<close>: the configuration records, the initial
  table, the accessors, and the choice of the outgoing interface for an address
  (\<open>get_interface_for_ip\<close>).  The table is a parameter of the accessors because
  \<open>main\<close> writes addresses and descriptors into it; \<open>init_interface_arr\<close> is its
  value at program start.
\<close>

section \<open>Configuration records\<close>

text \<open>\<open>side : 1\<close> and \<open>type : 2\<close> and \<open>fd : 5\<close> are bit fields.\<close>

definition INT_TYPE_ETHER :: "2 word" where "INT_TYPE_ETHER = 0"
definition INT_TYPE_WIFI :: "2 word" where "INT_TYPE_WIFI = 1"
definition INT_SIDE_LAN :: "1 word" where "INT_SIDE_LAN = 0"
definition INT_SIDE_WAN :: "1 word" where "INT_SIDE_WAN = 1"

record interface_config =
  if_name :: string
  device_mac_addr :: mac_addr
  network_ip :: ip_addr
  interface_ip :: ip_addr
  cidr_prefix_len :: u8
  if_type :: "2 word"
  side :: "1 word"
  fd :: "5 word"

type_synonym interface_table = "interface_config list"

definition zero_mac :: mac_addr where
  "zero_mac = MacAddr 0 0 0 0 0 0"

definition init_interface_arr :: interface_table where
  "init_interface_arr =
     [\<lparr>if_name = ''veth-router'', device_mac_addr = zero_mac,
       network_ip = IpAddr 192 168 1 0, interface_ip = IpAddr 192 168 1 1,
       cidr_prefix_len = 24, if_type = INT_TYPE_ETHER, side = INT_SIDE_LAN, fd = 0\<rparr>,
      \<lparr>if_name = ''veth-hostroute'', device_mac_addr = zero_mac,
       network_ip = IpAddr 0 0 0 0, interface_ip = IpAddr 192 168 0 2,
       cidr_prefix_len = 0, if_type = INT_TYPE_ETHER, side = INT_SIDE_WAN, fd = 0\<rparr>]"

text \<open>The globals that hold what DHCP gave for the WAN side.\<close>

record wan_config =
  wan_network_ip :: ip_addr
  wan_cidr_prefix_len :: nat
  wan_gateway_ip :: ip_addr

definition init_wan :: wan_config where
  "init_wan = \<lparr>wan_network_ip = IpAddr 192 168 0 0, wan_cidr_prefix_len = 24,
               wan_gateway_ip = IpAddr 192 168 0 1\<rparr>"

section \<open>Accessors\<close>

definition interface_get_amt :: "interface_table \<Rightarrow> nat" where
  "interface_get_amt arr = length arr"

definition interface_get_config :: "interface_table \<Rightarrow> nat \<Rightarrow> interface_config res" where
  "interface_get_config arr int_id =
     (if int_id < length arr then Inr (arr ! int_id) else Inl OutOfBounds)"

definition interface_get_wan_id :: nat where
  "interface_get_wan_id = 1"

definition interface_get_side :: "interface_table \<Rightarrow> nat \<Rightarrow> 1 word res" where
  "interface_get_side arr int_id = ebind (interface_get_config arr int_id) (\<lambda>c. Inr (side c))"

definition interface_get_type :: "interface_table \<Rightarrow> nat \<Rightarrow> 2 word res" where
  "interface_get_type arr int_id = ebind (interface_get_config arr int_id) (\<lambda>c. Inr (if_type c))"

definition interface_get_ip :: "interface_table \<Rightarrow> nat \<Rightarrow> ip_addr res" where
  "interface_get_ip arr int_id = ebind (interface_get_config arr int_id) (\<lambda>c. Inr (interface_ip c))"

definition interface_get_network_ip :: "interface_table \<Rightarrow> nat \<Rightarrow> ip_addr res" where
  "interface_get_network_ip arr int_id =
     ebind (interface_get_config arr int_id) (\<lambda>c. Inr (network_ip c))"

definition interface_get_subnet_mask :: "interface_table \<Rightarrow> nat \<Rightarrow> ip_addr res" where
  "interface_get_subnet_mask arr int_id =
     ebind (interface_get_config arr int_id) (\<lambda>c. Inr (create_subnet_mask (cidr_prefix_len c)))"

definition interface_get_mac_addr :: "interface_table \<Rightarrow> nat \<Rightarrow> mac_addr res" where
  "interface_get_mac_addr arr int_id =
     ebind (interface_get_config arr int_id) (\<lambda>c. Inr (device_mac_addr c))"

lemmas interface_get_defs =
  interface_get_config_def interface_get_side_def interface_get_type_def interface_get_ip_def
  interface_get_network_ip_def interface_get_subnet_mask_def interface_get_mac_addr_def

section \<open>The outgoing interface\<close>

text \<open>
  The loop of \<open>get_interface_for_ip\<close>.  \<open>int_id\<close> has no initial value in the code
  (\<open>None\<close> here), and \<open>highest_cidr_prefix_len\<close> is an \<open>int8_t\<close>: the comparison
  promotes both sides to \<open>int\<close>, the assignment truncates.
\<close>

definition prefix_matches :: "interface_config \<Rightarrow> ip_addr \<Rightarrow> bool" where
  "prefix_matches c ip \<longleftrightarrow>
     ip_addr_equals (apply_mask (create_subnet_mask (cidr_prefix_len c)) ip) (network_ip c)"

fun interface_scan ::
  "ip_addr \<Rightarrow> interface_config list \<Rightarrow> nat \<Rightarrow> nat option \<Rightarrow> 8 word \<Rightarrow> nat option" where
  "interface_scan ip [] i int_id highest = int_id"
| "interface_scan ip (c # cs) i int_id highest =
     (if uint (cidr_prefix_len c) \<le> sint highest
      then interface_scan ip cs (Suc i) int_id highest
      else if prefix_matches c ip
      then interface_scan ip cs (Suc i) (Some i) (cidr_prefix_len c)
      else interface_scan ip cs (Suc i) int_id highest)"

definition get_interface_for_ip :: "interface_table \<Rightarrow> ip_addr \<Rightarrow> nat res" where
  "get_interface_for_ip arr ip =
     (case interface_scan ip arr 0 None (- 1) of
        None \<Rightarrow> Inl Uninitialised
      | Some int_id \<Rightarrow> Inr int_id)"

section \<open>Longest prefix match\<close>

text \<open>
  Specification: \<open>i\<close> is the first of the matching entries with the longest prefix.
\<close>

definition longest_match :: "interface_table \<Rightarrow> ip_addr \<Rightarrow> nat \<Rightarrow> bool" where
  "longest_match arr ip i \<longleftrightarrow>
     i < length arr \<and> prefix_matches (arr ! i) ip \<and>
     (\<forall>j < length arr. prefix_matches (arr ! j) ip \<longrightarrow>
        cidr_prefix_len (arr ! j) \<le> cidr_prefix_len (arr ! i) \<and>
        (j < i \<longrightarrow> cidr_prefix_len (arr ! j) < cidr_prefix_len (arr ! i)))"

text \<open>Prefix lengths of an IPv4 network stay below the sign bit of \<open>int8_t\<close>.\<close>

definition prefixes_ok :: "interface_table \<Rightarrow> bool" where
  "prefixes_ok arr \<longleftrightarrow> (\<forall>c \<in> set arr. cidr_prefix_len c \<le> 32)"

text \<open>
  What the scan has found after a prefix of the table: nothing matched and the bound is
  \<open>-1\<close>, or the longest match so far and its length.
\<close>

definition scan_inv :: "interface_table \<Rightarrow> ip_addr \<Rightarrow> nat option \<Rightarrow> 8 word \<Rightarrow> bool" where
  "scan_inv done ip int_id highest \<longleftrightarrow>
     (case int_id of
        None \<Rightarrow> highest = - 1 \<and> (\<forall>c \<in> set done. \<not> prefix_matches c ip)
      | Some i \<Rightarrow> longest_match done ip i \<and> highest = cidr_prefix_len (done ! i))"

lemma sint_small: "(w :: u8) \<le> 32 \<Longrightarrow> sint w = uint w"
proof -
  assume "w \<le> 32"
  then have "0 \<le> uint w" "uint w \<le> 32" by (simp_all add: word_le_def)
  then have "- 128 \<le> uint w" "uint w < 128" by linarith+
  then show "sint w = uint w"
    using signed_take_bit_int_eq_self [of 7 "uint w"] by (simp add: sint_uint)
qed

lemma scan_inv_step:
  assumes "scan_inv done ip int_id highest" and "prefixes_ok (done @ [c])"
  shows "if uint (cidr_prefix_len c) \<le> sint highest then scan_inv (done @ [c]) ip int_id highest
         else if prefix_matches c ip then scan_inv (done @ [c]) ip (Some (length done)) (cidr_prefix_len c)
         else scan_inv (done @ [c]) ip int_id highest"
proof (cases int_id)
  case None
  have "\<not> uint (cidr_prefix_len c) \<le> - 1"
    using uint_nonnegative [of "cidr_prefix_len c"] by linarith
  with None assms show ?thesis
    by (auto simp: scan_inv_def longest_match_def nth_append less_Suc_eq)
next
  case (Some i)
  with assms have i: "longest_match done ip i" "highest = cidr_prefix_len (done ! i)"
    by (auto simp: scan_inv_def)
  then have "i < length done" by (simp add: longest_match_def)
  with assms(2) i(2) have "highest \<le> 32" by (auto simp: prefixes_ok_def)
  then have "uint (cidr_prefix_len c) \<le> sint highest \<longleftrightarrow> cidr_prefix_len c \<le> highest"
    by (simp add: sint_small word_le_def)
  with i \<open>i < length done\<close> Some show ?thesis
    by (auto simp: scan_inv_def longest_match_def nth_append less_Suc_eq not_le)
qed

lemma interface_scan_inv:
  assumes "scan_inv done ip int_id highest" and "prefixes_ok (done @ todo)"
  shows "\<exists>h. scan_inv (done @ todo) ip (interface_scan ip todo (length done) int_id highest) h"
  using assms
proof (induction todo arbitrary: "done" int_id highest)
  case Nil
  then show ?case by auto
next
  case (Cons c cs)
  from Cons.prems have "prefixes_ok (done @ [c])" by (auto simp: prefixes_ok_def)
  note step = scan_inv_step [OF Cons.prems(1) this]
  have "prefixes_ok ((done @ [c]) @ cs)" using Cons.prems by simp
  from step this Cons.IH [of "done @ [c]"] show ?case
    by (auto split: if_splits)
qed

lemma get_interface_for_ip_spec:
  assumes "prefixes_ok arr"
  shows "case get_interface_for_ip arr ip of
           Inr i \<Rightarrow> longest_match arr ip i
         | Inl e \<Rightarrow> e = Uninitialised \<and> (\<forall>c \<in> set arr. \<not> prefix_matches c ip)"
proof -
  have "scan_inv [] ip None (- 1)" by (simp add: scan_inv_def)
  then obtain h where "scan_inv arr ip (interface_scan ip arr 0 None (- 1)) h"
    using interface_scan_inv [of "[]" ip None "- 1" arr] assms by auto
  then show ?thesis
    by (auto simp: get_interface_for_ip_def scan_inv_def split: option.splits)
qed

section \<open>The configured table\<close>

text \<open>
  The program only ever writes the addresses and the descriptor of an entry, so at run time
  the table agrees with the initial one on networks, prefixes, types and sides.
\<close>

definition route_of :: "interface_config \<Rightarrow> ip_addr \<times> u8 \<times> 2 word \<times> 1 word" where
  "route_of c = (network_ip c, cidr_prefix_len c, if_type c, side c)"

definition configured :: "interface_table \<Rightarrow> bool" where
  "configured arr \<longleftrightarrow> map route_of arr = map route_of init_interface_arr"

lemma configured_init [simp]: "configured init_interface_arr"
  by (simp add: configured_def)

lemma configuredE:
  assumes "configured arr"
  obtains lan wan where "arr = [lan, wan]"
    and "route_of lan = (IpAddr 192 168 1 0, 24, INT_TYPE_ETHER, INT_SIDE_LAN)"
    and "route_of wan = (IpAddr 0 0 0 0, 0, INT_TYPE_ETHER, INT_SIDE_WAN)"
  using assms
  by (auto simp: configured_def init_interface_arr_def route_of_def map_eq_Cons_conv)

lemma configured_update:
  "configured arr \<Longrightarrow> i < length arr \<Longrightarrow> route_of c = route_of (arr ! i) \<Longrightarrow> configured (arr[i := c])"
  unfolding configured_def by (metis list_update_id map_update)

lemma mask_24: "create_subnet_mask 24 = IpAddr 255 255 255 0"
  by code_simp

lemma mask_0: "create_subnet_mask 0 = IpAddr 0 0 0 0"
  by code_simp

lemma u8_and_255 [simp]: "(255 :: u8) AND x = x" "x AND (255 :: u8) = x"
proof -
  have "(255 :: u8) = - 1" by simp
  then show "(255 :: u8) AND x = x" "x AND (255 :: u8) = x" by (simp_all only: and.left_neutral and.right_neutral)
qed

definition on_lan :: "ip_addr \<Rightarrow> bool" where
  "on_lan ip \<longleftrightarrow> oct0 ip = 192 \<and> oct1 ip = 168 \<and> oct2 ip = 1"

lemma on_lan_in_network: "on_lan ip \<longleftrightarrow> in_network (IpAddr 192 168 1 0) 24 ip"
proof -
  have lan: "create_subnet_mask 24 = cidr_mask 24"
    using create_subnet_mask_short [of 24] by simp
  have "apply_mask (create_subnet_mask 24) (IpAddr 192 168 1 0) = IpAddr 192 168 1 0" by code_simp
  then have "apply_mask (create_subnet_mask 24) ip = IpAddr 192 168 1 0 \<longleftrightarrow>
      in_network (IpAddr 192 168 1 0) 24 ip"
    using apply_cidr_mask_eq_iff [of 24 ip "IpAddr 192 168 1 0"] lan by simp
  then show ?thesis by (simp add: mask_24 apply_mask_def on_lan_def)
qed

lemma get_interface_for_ip_configured:
  assumes "configured arr"
  shows "get_interface_for_ip arr ip = Inr (if on_lan ip then 0 else 1)"
proof -
  from assms obtain lan wan where arr: "arr = [lan, wan]"
    and "route_of lan = (IpAddr 192 168 1 0, 24, INT_TYPE_ETHER, INT_SIDE_LAN)"
    and "route_of wan = (IpAddr 0 0 0 0, 0, INT_TYPE_ETHER, INT_SIDE_WAN)"
    by (rule configuredE)
  then have "prefix_matches lan ip \<longleftrightarrow> on_lan ip" "prefix_matches wan ip"
    "cidr_prefix_len lan = 24" "cidr_prefix_len wan = 0"
    by (auto simp: prefix_matches_def route_of_def mask_24 mask_0 apply_mask_def on_lan_def)
  then show ?thesis by (simp add: arr get_interface_for_ip_def)
qed

lemma interface_side_configured:
  assumes "configured arr"
  shows "interface_get_side arr 0 = Inr INT_SIDE_LAN" "interface_get_side arr 1 = Inr INT_SIDE_WAN"
    and "interface_get_type arr 0 = Inr INT_TYPE_ETHER" "interface_get_type arr 1 = Inr INT_TYPE_ETHER"
  using assms
  by (auto elim!: configuredE simp: interface_get_defs route_of_def)

section \<open>Properties\<close>



end
