(* ===== verification/Stores.thy ===== *)
theory Stores
  imports Prelude
begin

text \<open>
  The contract of the program's associative stores.  Two components keep one: the table of
  MAC addresses (\<open>devices.c\<close>) and the hash map behind address translation
  (\<open>hashmap.c\<close>).  Their clients rely on the laws below and on nothing else: under the
  store's invariant a lookup returns, without a fault and without changing what is stored,
  the value of the abstract map \<open>view\<close>; and where there is \<open>room\<close> for a key, storing
  it updates that map at this key only.
\<close>

text \<open>A sequence of updates.\<close>

fun put_all :: "('k \<Rightarrow> 'v \<Rightarrow> 's \<Rightarrow> 's res) \<Rightarrow> ('k \<times> 'v) list \<Rightarrow> 's \<Rightarrow> 's res" where
  "put_all put [] s = Inr s"
| "put_all put ((k, v) # kvs) s = ebind (put k v s) (put_all put kvs)"

locale keyed_store =
  fixes get :: "'s \<Rightarrow> 'k \<Rightarrow> ('s \<times> 'v option) res"
    and put :: "'k \<Rightarrow> 'v \<Rightarrow> 's \<Rightarrow> 's res"
    and view :: "'s \<Rightarrow> 'k \<Rightarrow> 'v option"
    and inv :: "'s \<Rightarrow> bool"
    and room :: "'s \<Rightarrow> 'k \<Rightarrow> bool"
  assumes get_spec: "inv s \<Longrightarrow> \<exists>s'. get s k = Inr (s', view s k) \<and> inv s' \<and> view s' = view s"
    and put_spec: "inv s \<Longrightarrow> room s k \<Longrightarrow>
      \<exists>s'. put k v s = Inr s' \<and> inv s' \<and> view s' = (view s)(k \<mapsto> v)"
begin

text \<open>What was stored is found again, and nothing else changes.\<close>

lemma get_after_put:
  assumes "inv s" and "room s k"
  shows "\<exists>s1 s2. put k v s = Inr s1 \<and> get s1 k = Inr (s2, Some v) \<and> inv s2"
proof -
  from put_spec [OF assms] obtain s1 where
    s1: "put k v s = Inr s1" "inv s1" "view s1 = (view s)(k \<mapsto> v)" by blast
  from get_spec [OF s1(2), of k] s1 show ?thesis by auto
qed

lemma get_after_put_other:
  assumes "inv s" and "room s k" and "k' \<noteq> k"
  shows "\<exists>s1 s2. put k v s = Inr s1 \<and> get s1 k' = Inr (s2, view s k') \<and> inv s2"
proof -
  from put_spec [OF assms(1,2)] obtain s1 where
    s1: "put k v s = Inr s1" "inv s1" "view s1 = (view s)(k \<mapsto> v)" by blast
  from get_spec [OF s1(2), of k'] s1 assms(3) show ?thesis by auto
qed

lemma put_result: "put k v s = Inr s' \<Longrightarrow> inv s \<Longrightarrow> room s k \<Longrightarrow> inv s' \<and> view s' = (view s)(k \<mapsto> v)"
  using put_spec [of s k v] by auto

lemma get_result: "get s k = Inr (s', r) \<Longrightarrow> inv s \<Longrightarrow> r = view s k \<and> inv s' \<and> view s' = view s"
  using get_spec [of s k] by auto

lemma get_no_fault: "inv s \<Longrightarrow> get s k \<noteq> Inl e"
  using get_spec [of s k] by auto

end

text \<open>A store that always has room: any sequence of updates is the sequence of map updates.\<close>

locale roomy_store = keyed_store +
  assumes room_always: "inv s \<Longrightarrow> room s k"
begin

lemma put_all_spec:
  "inv s \<Longrightarrow> \<exists>s'. put_all put kvs s = Inr s' \<and> inv s' \<and> view s' = (view s)(map fst kvs [\<mapsto>] map snd kvs)"
proof (induction kvs arbitrary: s)
  case Nil
  then show ?case by simp
next
  case (Cons kv kvs)
  obtain k v where kv: "kv = (k, v)" by (cases kv)
  from put_spec [OF Cons.prems room_always [OF Cons.prems], of k v] obtain s1 where
    s1: "put k v s = Inr s1" "inv s1" "view s1 = (view s)(k \<mapsto> v)" by blast
  from Cons.IH [OF s1(2)] s1 kv show ?case by (auto simp: fun_upd_def)
qed

end

end
