(* ===== verification/Sync.thy ===== *)
theory Sync
  imports Prelude
begin

text \<open>
  The \<open>pthread_mutex_t\<close> operations the program uses (default, non-recursive mutexes).
  A handler is modelled as it runs by itself, so a lock that is already held is one nobody
  is about to release: \<open>pthread_mutex_lock\<close> then is the fault \<open>Blocked\<close>.

  Unlocking a mutex that is not locked is undefined in POSIX for this kind of mutex; with
  the GNU C library it leaves the mutex unlocked.  The model does the same and counts such
  calls in the ghost field \<open>stray_unlocks\<close>, which no operation reads.
\<close>

record mutex =
  held :: bool
  stray_unlocks :: nat

definition mutex_init :: mutex where
  "mutex_init = \<lparr>held = False, stray_unlocks = 0\<rparr>"

definition mutex_lock :: "mutex \<Rightarrow> mutex res" where
  "mutex_lock m = (if held m then Inl Blocked else Inr (m\<lparr>held := True\<rparr>))"

definition mutex_unlock :: "mutex \<Rightarrow> mutex" where
  "mutex_unlock m =
     (if held m then m\<lparr>held := False\<rparr> else m\<lparr>stray_unlocks := Suc (stray_unlocks m)\<rparr>)"

lemma mutex_lock_free [res_simps]: "\<not> held m \<Longrightarrow> mutex_lock m = Inr (m\<lparr>held := True\<rparr>)"
  by (simp add: mutex_lock_def)

lemma mutex_lock_Inr_iff [res_simps]:
  "mutex_lock m = Inr m' \<longleftrightarrow> \<not> held m \<and> m' = m\<lparr>held := True\<rparr>"
  by (auto simp: mutex_lock_def)

lemma mutex_lock_held [res_simps]: "held m \<Longrightarrow> mutex_lock m = Inl Blocked"
  by (simp add: mutex_lock_def)

lemma held_mutex_init [simp]: "\<not> held mutex_init"
  by (simp add: mutex_init_def)

lemma mutex_unlock_not_held [simp]: "\<not> held (mutex_unlock m)"
  by (simp add: mutex_unlock_def)

text \<open>A balanced pair of calls leaves a free mutex as it was.\<close>

lemma mutex_lock_unlock [simp]: "\<not> held m \<Longrightarrow> mutex_unlock (m\<lparr>held := True\<rparr>) = m"
  by (cases m) (simp add: mutex_unlock_def)

end
