(* ===== verification/Devices.thy ===== *)
theory Devices
  imports Stores Sync Addresses
begin

text \<open>
  The table of MAC addresses by IP address (\<open>src/devices.c\<close>, \<open>include/devices.h\<close>):
  a heap array that doubles when it is full, under one mutex.  A slot of the array that
  nobody has written yet is \<open>None\<close>; reading it is a fault.
\<close>

section \<open>State and operations\<close>

type_synonym ip_mac_pair = "ip_addr \<times> mac_addr"

record devices =
  ip_mac_map_arr :: "ip_mac_pair option list"
  ip_mac_map_alloc_amt :: nat
  ip_mac_map_amt :: nat
  ip_mac_map_mutex :: mutex

definition devices_init :: devices where
  "devices_init = \<lparr>ip_mac_map_arr = [], ip_mac_map_alloc_amt = 0, ip_mac_map_amt = 0,
                   ip_mac_map_mutex = mutex_init\<rparr>"

definition rd_pair :: "ip_mac_pair option list \<Rightarrow> nat \<Rightarrow> ip_mac_pair res" where
  "rd_pair arr i =
     (if i < length arr
      then (case arr ! i of None \<Rightarrow> Inl Uninitialised | Some p \<Rightarrow> Inr p)
      else Inl OutOfBounds)"

text \<open>
  The loop the three functions share: the first index below \<open>amt\<close> whose address is
  \<open>ip\<close>.
\<close>

function scan_pairs :: "ip_mac_pair option list \<Rightarrow> nat \<Rightarrow> ip_addr \<Rightarrow> nat \<Rightarrow> nat option res" where
  "scan_pairs arr amt ip i =
     (if i < amt then
        ebind (rd_pair arr i) (\<lambda>p.
          if ip_addr_equals ip (fst p) then Inr (Some i) else scan_pairs arr amt ip (Suc i))
      else Inr None)"
  by pat_completeness auto
termination
  by (relation "measure (\<lambda>(_, amt, _, i). amt - i)") auto

declare scan_pairs.simps [simp del]

definition unlock_devices :: "devices \<Rightarrow> devices" where
  "unlock_devices d = d\<lparr>ip_mac_map_mutex := mutex_unlock (ip_mac_map_mutex d)\<rparr>"

definition lock_devices :: "devices \<Rightarrow> devices res" where
  "lock_devices d = ebind (mutex_lock (ip_mac_map_mutex d)) (\<lambda>m. Inr (d\<lparr>ip_mac_map_mutex := m\<rparr>))"

text \<open>The reallocation step: from nothing to ten slots, then twice as many each time.\<close>

definition grow_devices :: "devices \<Rightarrow> devices" where
  "grow_devices d =
     (if ip_mac_map_amt d \<ge> ip_mac_map_alloc_amt d then
        let alloc = (if ip_mac_map_alloc_amt d = 0 then 5 else ip_mac_map_alloc_amt d) * 2
        in d\<lparr>ip_mac_map_arr := take alloc (ip_mac_map_arr d) @
                 replicate (alloc - length (ip_mac_map_arr d)) None,
             ip_mac_map_alloc_amt := alloc\<rparr>
      else d)"

definition append_pair :: "ip_mac_pair \<Rightarrow> devices \<Rightarrow> devices res" where
  "append_pair p d =
     (if ip_mac_map_amt d < length (ip_mac_map_arr d)
      then Inr (d\<lparr>ip_mac_map_arr := (ip_mac_map_arr d)[ip_mac_map_amt d := Some p],
                  ip_mac_map_amt := ip_mac_map_amt d + 1\<rparr>)
      else Inl OutOfBounds)"

definition update_ip_mac_pair :: "ip_mac_pair \<Rightarrow> devices \<Rightarrow> devices res" where
  "update_ip_mac_pair p d0 =
     ebind (lock_devices d0) (\<lambda>d.
     ebind (scan_pairs (ip_mac_map_arr d) (ip_mac_map_amt d) (fst p) 0) (\<lambda>r.
       case r of
         Some i \<Rightarrow>
           ebind (rd_pair (ip_mac_map_arr d) i) (\<lambda>old.
             Inr (unlock_devices
               (d\<lparr>ip_mac_map_arr := (ip_mac_map_arr d)[i := Some (fst old, snd p)]\<rparr>)))
       | None \<Rightarrow>
           ebind (append_pair p (grow_devices d)) (\<lambda>d'. Inr (unlock_devices d'))))"

definition has_mac_for_ip :: "devices \<Rightarrow> ip_addr \<Rightarrow> (devices \<times> bool) res" where
  "has_mac_for_ip d0 ip =
     ebind (lock_devices d0) (\<lambda>d.
     ebind (scan_pairs (ip_mac_map_arr d) (ip_mac_map_amt d) ip 0) (\<lambda>r.
       Inr (unlock_devices d, r \<noteq> None)))"

definition get_mac_from_ip :: "devices \<Rightarrow> ip_addr \<Rightarrow> (devices \<times> mac_addr) res" where
  "get_mac_from_ip d0 ip =
     ebind (lock_devices d0) (\<lambda>d.
     ebind (scan_pairs (ip_mac_map_arr d) (ip_mac_map_amt d) ip 0) (\<lambda>r.
       case r of
         None \<Rightarrow> Inr (unlock_devices d, MacAddr 0 0 0 0 0 0)
       | Some i \<Rightarrow>
           ebind (rd_pair (ip_mac_map_arr d) i) (\<lambda>p. Inr (unlock_devices d, snd p))))"

section \<open>Abstraction and invariant\<close>

definition device_pairs :: "devices \<Rightarrow> ip_mac_pair list" where
  "device_pairs d = map the (take (ip_mac_map_amt d) (ip_mac_map_arr d))"

definition device_map :: "devices \<Rightarrow> ip_addr \<Rightarrow> mac_addr option" where
  "device_map d = map_of (device_pairs d)"

text \<open>
  The counters describe the array, every used slot is written, no address occurs twice, and
  the mutex is free between calls.
\<close>

definition devices_inv :: "devices \<Rightarrow> bool" where
  "devices_inv d \<longleftrightarrow>
     length (ip_mac_map_arr d) = ip_mac_map_alloc_amt d \<and>
     ip_mac_map_amt d \<le> ip_mac_map_alloc_amt d \<and>
     (\<forall>i < ip_mac_map_amt d. ip_mac_map_arr d ! i \<noteq> None) \<and>
     distinct (map fst (device_pairs d)) \<and>
     \<not> held (ip_mac_map_mutex d)"

lemma devices_inv_init [simp]: "devices_inv devices_init"
  by (simp add: devices_inv_def devices_init_def device_pairs_def)

lemma device_map_init [simp]: "device_map devices_init = Map.empty"
  by (simp add: device_map_def devices_init_def device_pairs_def)

lemma length_device_pairs: "devices_inv d \<Longrightarrow> length (device_pairs d) = ip_mac_map_amt d"
  by (simp add: devices_inv_def device_pairs_def)

lemma rd_pair_used:
  "devices_inv d \<Longrightarrow> i < ip_mac_map_amt d \<Longrightarrow> rd_pair (ip_mac_map_arr d) i = Inr (device_pairs d ! i)"
  by (auto simp: devices_inv_def rd_pair_def device_pairs_def)

lemma scan_pairs_spec:
  assumes "\<forall>j < amt. rd_pair arr j = Inr (ps ! j)" and "length ps = amt" and "distinct (map fst ps)"
    and "\<forall>j < i. j < amt \<longrightarrow> fst (ps ! j) \<noteq> ip"
  shows "\<exists>r. scan_pairs arr amt ip i = Inr r \<and>
    (case r of None \<Rightarrow> map_of ps ip = None
     | Some k \<Rightarrow> k < amt \<and> fst (ps ! k) = ip \<and> map_of ps ip = Some (snd (ps ! k)))"
  using assms
proof (induction arr amt ip i rule: scan_pairs.induct)
  case (1 arr amt ip i)
  show ?case
  proof (cases "i < amt")
    case False
    with "1.prems"(2,4) have "\<forall>j < length ps. fst (ps ! j) \<noteq> ip" by auto
    then have "map_of ps ip = None"
      by (force simp: map_of_eq_None_iff in_set_conv_nth)
    with False show ?thesis by (subst scan_pairs.simps) simp
  next
    case True
    with "1.prems" have rd: "rd_pair arr i = Inr (ps ! i)" by simp
    show ?thesis
    proof (cases "fst (ps ! i) = ip")
      case hit: True
      from True "1.prems"(2) have "ps ! i \<in> set ps" by simp
      with hit "1.prems"(3) have "map_of ps ip = Some (snd (ps ! i))"
        by (metis map_of_is_SomeI prod.collapse)
      with True hit rd show ?thesis by (subst scan_pairs.simps) simp
    next
      case False
      with "1.prems" have "\<forall>j < Suc i. j < amt \<longrightarrow> fst (ps ! j) \<noteq> ip"
        by (auto simp: less_Suc_eq)
      with "1.IH" [OF True rd] False "1.prems" True rd show ?thesis
        by (subst scan_pairs.simps) (auto simp: eq_commute)
    qed
  qed
qed

lemma scan_devices:
  assumes "devices_inv d"
  shows "\<exists>r. scan_pairs (ip_mac_map_arr d) (ip_mac_map_amt d) ip 0 = Inr r \<and>
    (case r of None \<Rightarrow> device_map d ip = None
     | Some k \<Rightarrow> k < ip_mac_map_amt d \<and> fst (device_pairs d ! k) = ip \<and>
         device_map d ip = Some (snd (device_pairs d ! k)))"
  unfolding device_map_def
  by (rule scan_pairs_spec)
    (use assms in \<open>auto simp: rd_pair_used length_device_pairs\<close>, simp add: devices_inv_def)

section \<open>Locking\<close>

lemma lock_devices_free [res_simps]:
  "\<not> held (ip_mac_map_mutex d) \<Longrightarrow>
     lock_devices d = Inr (d\<lparr>ip_mac_map_mutex := (ip_mac_map_mutex d)\<lparr>held := True\<rparr>\<rparr>)"
  by (simp add: lock_devices_def mutex_lock_def)

lemma unlock_locked [simp]:
  "\<not> held (ip_mac_map_mutex d) \<Longrightarrow>
     unlock_devices (d\<lparr>ip_mac_map_mutex := (ip_mac_map_mutex d)\<lparr>held := True\<rparr>\<rparr>) = d"
  by (simp add: unlock_devices_def)

section \<open>The operations refine a map\<close>

lemma has_mac_for_ip_spec:
  assumes "devices_inv d"
  shows "has_mac_for_ip d ip = Inr (d, device_map d ip \<noteq> None)"
proof -
  have free: "\<not> held (ip_mac_map_mutex d)" using assms by (simp add: devices_inv_def)
  from scan_devices [OF assms, of ip] free show ?thesis
    by (auto simp: has_mac_for_ip_def lock_devices_free split: option.splits)
qed

lemma get_mac_from_ip_spec:
  assumes "devices_inv d"
  shows "get_mac_from_ip d ip =
    Inr (d, case device_map d ip of None \<Rightarrow> MacAddr 0 0 0 0 0 0 | Some m \<Rightarrow> m)"
proof -
  have free: "\<not> held (ip_mac_map_mutex d)" using assms by (simp add: devices_inv_def)
  from scan_devices [OF assms, of ip] free rd_pair_used [OF assms] show ?thesis
    by (auto simp: get_mac_from_ip_def lock_devices_free split: option.splits)
qed

text \<open>Growing keeps what is stored and leaves room for one more entry.\<close>

lemma grow_devices_spec:
  assumes "devices_inv d"
  shows "devices_inv (grow_devices d)" and "device_pairs (grow_devices d) = device_pairs d"
    and "ip_mac_map_amt (grow_devices d) = ip_mac_map_amt d"
    and "ip_mac_map_amt d < length (ip_mac_map_arr (grow_devices d))"
proof -
  show pairs: "device_pairs (grow_devices d) = device_pairs d"
    using assms by (auto simp: grow_devices_def device_pairs_def devices_inv_def Let_def min_def)
  show "ip_mac_map_amt (grow_devices d) = ip_mac_map_amt d"
    by (simp add: grow_devices_def Let_def)
  show "ip_mac_map_amt d < length (ip_mac_map_arr (grow_devices d))"
    using assms by (auto simp: grow_devices_def devices_inv_def Let_def)
  from assms pairs show "devices_inv (grow_devices d)"
    by (auto simp: grow_devices_def devices_inv_def Let_def nth_append min_def)
qed

lemma update_existing:
  fixes mac :: mac_addr
  assumes "devices_inv d" and "k < ip_mac_map_amt d" and "fst (device_pairs d ! k) = ip"
    and d': "d' = d\<lparr>ip_mac_map_arr := (ip_mac_map_arr d)[k := Some (ip, mac)]\<rparr>"
  shows "devices_inv d'" and "device_map d' = (device_map d)(ip \<mapsto> mac)"
proof -
  have pairs: "device_pairs d' = (device_pairs d)[k := (fst (device_pairs d ! k), mac)]"
    using assms by (simp add: device_pairs_def take_update_swap map_update devices_inv_def)
  have k: "k < length (device_pairs d)" using assms by (simp add: length_device_pairs)
  have dist: "distinct (map fst (device_pairs d))" using assms(1) by (simp add: devices_inv_def)
  show "device_map d' = (device_map d)(ip \<mapsto> mac)"
    using map_of_list_update [OF dist k, of mac] assms(3) by (simp add: device_map_def pairs)
  have "distinct (map fst (device_pairs d'))"
    using dist k by (simp add: pairs map_fst_list_update)
  then show "devices_inv d'"
    using assms by (auto simp: devices_inv_def nth_list_update)
qed

lemma append_pair_spec:
  assumes "devices_inv d" and "device_map d ip = None"
    and "ip_mac_map_amt d < length (ip_mac_map_arr d)"
  shows "\<exists>d'. append_pair (ip, mac) d = Inr d' \<and> devices_inv d' \<and>
           device_map d' = (device_map d)(ip \<mapsto> mac)"
proof -
  let ?d = "d\<lparr>ip_mac_map_arr := (ip_mac_map_arr d)[ip_mac_map_amt d := Some (ip, mac)],
              ip_mac_map_amt := ip_mac_map_amt d + 1\<rparr>"
  have pairs: "device_pairs ?d = device_pairs d @ [(ip, mac)]"
    using assms(3) by (simp add: device_pairs_def take_Suc_conv_app_nth)
  have "ip \<notin> fst ` set (device_pairs d)"
    using assms(2) by (simp add: device_map_def map_of_eq_None_iff)
  then have "devices_inv ?d"
    using assms(1,3) pairs by (auto simp: devices_inv_def nth_list_update less_Suc_eq)
  moreover have "device_map ?d = (device_map d)(ip \<mapsto> mac)"
    using assms(2) unfolding device_map_def pairs by (rule map_of_snoc)
  ultimately show ?thesis using assms(3) by (simp add: append_pair_def)
qed

lemma update_ip_mac_pair_spec:
  assumes "devices_inv d"
  shows "\<exists>d'. update_ip_mac_pair (ip, mac) d = Inr d' \<and> devices_inv d' \<and>
           device_map d' = (device_map d)(ip \<mapsto> mac)"
proof -
  have free: "\<not> held (ip_mac_map_mutex d)" using assms by (simp add: devices_inv_def)
  let ?dl = "d\<lparr>ip_mac_map_mutex := (ip_mac_map_mutex d)\<lparr>held := True\<rparr>\<rparr>"
  from scan_devices [OF assms, of ip] obtain r where
    r: "scan_pairs (ip_mac_map_arr d) (ip_mac_map_amt d) ip 0 = Inr r"
      "case r of None \<Rightarrow> device_map d ip = None
       | Some k \<Rightarrow> k < ip_mac_map_amt d \<and> fst (device_pairs d ! k) = ip" 
    by (auto split: option.splits)
  show ?thesis
  proof (cases r)
    case (Some k)
    with r(2) have k: "k < ip_mac_map_amt d" "fst (device_pairs d ! k) = ip" by auto
    have "update_ip_mac_pair (ip, mac) d =
        Inr (d\<lparr>ip_mac_map_arr := (ip_mac_map_arr d)[k := Some (ip, mac)]\<rparr>)"
      using free r(1) Some k rd_pair_used [OF assms k(1)]
      by (simp add: update_ip_mac_pair_def lock_devices_free unlock_devices_def)
    with update_existing [OF assms k refl, of mac] show ?thesis by simp
  next
    case None
    have g: "devices_inv (grow_devices d)" "device_map (grow_devices d) ip = None"
      "ip_mac_map_amt (grow_devices d) < length (ip_mac_map_arr (grow_devices d))"
      using grow_devices_spec [OF assms] r(2) None by (simp_all add: device_map_def)
    from append_pair_spec [OF g, of mac] obtain d' where
      d': "append_pair (ip, mac) (grow_devices d) = Inr d'" "devices_inv d'"
        "device_map d' = (device_map (grow_devices d))(ip \<mapsto> mac)" by blast
    have "append_pair (ip, mac) (grow_devices ?dl) =
        Inr (d'\<lparr>ip_mac_map_mutex := (ip_mac_map_mutex d')\<lparr>held := True\<rparr>\<rparr>)"
      using d'(1) g(3) by (auto simp: append_pair_def grow_devices_def Let_def split: if_splits)
    then have "update_ip_mac_pair (ip, mac) d = Inr d'"
      using free r(1) None d'(2)
      by (simp add: update_ip_mac_pair_def lock_devices_free devices_inv_def)
    with d' grow_devices_spec(2) [OF assms] show ?thesis by (simp add: device_map_def)
  qed
qed

section \<open>The table as a keyed store\<close>

text \<open>
  \<open>send_ipv4\<close> reads the table in two calls: whether the address is known, then its MAC.
\<close>

definition resolve_mac :: "devices \<Rightarrow> ip_addr \<Rightarrow> (devices \<times> mac_addr option) res" where
  "resolve_mac d ip =
     ebind (has_mac_for_ip d ip) (\<lambda>(d1, known).
       if known then ebind (get_mac_from_ip d1 ip) (\<lambda>(d2, m). Inr (d2, Some m))
       else Inr (d1, None))"

lemma resolve_mac_spec: "devices_inv d \<Longrightarrow> resolve_mac d ip = Inr (d, device_map d ip)"
  by (auto simp: resolve_mac_def has_mac_for_ip_spec get_mac_from_ip_spec split: option.splits)

interpretation mac_table: roomy_store resolve_mac "\<lambda>ip mac. update_ip_mac_pair (ip, mac)"
    device_map devices_inv "\<lambda>_ _. True"
  by unfold_locales (simp_all add: resolve_mac_spec update_ip_mac_pair_spec)

section \<open>Properties\<close>

text \<open>
  C16: the table of MAC addresses is a map. Every update succeeds (the array has room by the
  time it is written), keeps the invariant, releases the lock and changes the entry of its
  address only; and from the empty table any sequence of updates gives the map that has the
  last MAC address seen for each IP address, which is what \<open>has_mac_for_ip\<close> and
  \<open>get_mac_from_ip\<close> then answer.
\<close>

theorem mac_table_is_map:
  "\<exists>d. put_all (\<lambda>ip mac. update_ip_mac_pair (ip, mac)) seen devices_init = Inr d \<and>
     devices_inv d \<and>
     has_mac_for_ip d ip = Inr (d, map_of (rev seen) ip \<noteq> None) \<and>
     get_mac_from_ip d ip =
       Inr (d, case map_of (rev seen) ip of None \<Rightarrow> MacAddr 0 0 0 0 0 0 | Some mac \<Rightarrow> mac)"
proof -
  from mac_table.put_all_spec [OF devices_inv_init, of seen] obtain d where
    d: "put_all (\<lambda>ip mac. update_ip_mac_pair (ip, mac)) seen devices_init = Inr d" "devices_inv d"
      "device_map d = Map.empty(map fst seen [\<mapsto>] map snd seen)" by auto
  have "device_map d = map_of (rev seen)"
    by (simp add: d(3) map_upds_def zip_map_fst_snd flip: rev_map)
  with d show ?thesis by (simp add: has_mac_for_ip_spec get_mac_from_ip_spec)
qed

end
