(* ===== verification/Hashmap.thy ===== *)
theory Hashmap
  imports Sync
begin

text \<open>
  The open-addressing hash map of \<open>src/hashmap.c\<close> and \<open>include/hashmap.h\<close>, at the
  level of its bytes: \<open>data\<close> holds two tag bits per slot, rounded up to bytes, and then
  one key and one value per slot.  Keys and values are the bytes the caller's pointers point
  at.  The loops that probe for a slot (\<open>do ... while(1)\<close>) take a number of probes to
  try; \<open>size_allocated\<close> of them visit every slot, so a search that has not stopped by
  then never stops (\<open>Diverges\<close>).
\<close>

section \<open>State\<close>

record hashmap =
  hash_func :: "buf \<Rightarrow> u64"
  hm_size :: nat
  size_allocated :: nat
  size_value :: nat
  size_key :: nat
  data :: buf
  hm_lock :: mutex

definition HASHMAP_SIZE_INIT :: nat where "HASHMAP_SIZE_INIT = 11"

definition HASHMAP_TAG_EMPTY :: u8 where "HASHMAP_TAG_EMPTY = 0"
definition HASHMAP_TAG_TAKEN :: u8 where "HASHMAP_TAG_TAKEN = 1"
definition HASHMAP_TAG_GRAVE :: u8 where "HASHMAP_TAG_GRAVE = 2"

lemmas tag_defs = HASHMAP_TAG_EMPTY_def HASHMAP_TAG_TAKEN_def HASHMAP_TAG_GRAVE_def

definition hashmap_init :: "(buf \<Rightarrow> u64) \<Rightarrow> nat \<Rightarrow> nat \<Rightarrow> hashmap" where
  "hashmap_init hash_fn key_bytes value_bytes =
     (let size_tag_map = (HASHMAP_SIZE_INIT * 2 + 7) div 8;
          size_data_map = (value_bytes + key_bytes) * HASHMAP_SIZE_INIT
      in \<lparr>hash_func = hash_fn, hm_size = 0, size_allocated = HASHMAP_SIZE_INIT,
          size_value = value_bytes, size_key = key_bytes,
          data = replicate (size_tag_map + size_data_map) 0, hm_lock = mutex_init\<rparr>)"

section \<open>Hash function\<close>

text \<open>\<open>(size_t) (pow(2, 31) - 1)\<close>\<close>

definition ring_size :: u64 where "ring_size = 2147483647"

fun cyclic_hash_loop :: "buf \<Rightarrow> u64 \<Rightarrow> u64" where
  "cyclic_hash_loop [] hash = hash"
| "cyclic_hash_loop (val # vals) hash =
     cyclic_hash_loop vals (((hash * 47) XOR ucast val) mod ring_size)"

definition hashmap_cyclic_hash :: "buf \<Rightarrow> u64" where
  "hashmap_cyclic_hash key = cyclic_hash_loop key 0"

section \<open>Tags\<close>

definition tag_get :: "hashmap \<Rightarrow> nat \<Rightarrow> u8 res" where
  "tag_get h index =
     (let byte_index = index div 4; bit_index = (index mod 4) * 2
      in ebind (rd8 (data h) byte_index) (\<lambda>b. Inr (drop_bit bit_index b AND 0x03)))"

definition tag_set :: "hashmap \<Rightarrow> nat \<Rightarrow> u8 \<Rightarrow> hashmap res" where
  "tag_set h index tag =
     (let byte_index = index div 4; bit_index = (index mod 4) * 2
      in ebind (rd8 (data h) byte_index) (\<lambda>b.
         ebind (wr8 (data h) byte_index
                 ((b AND NOT (push_bit bit_index 0x03)) OR push_bit bit_index tag)) (\<lambda>d.
         Inr (h\<lparr>data := d\<rparr>))))"

section \<open>Insertion and growth\<close>

definition key_off :: "hashmap \<Rightarrow> nat \<Rightarrow> nat" where
  "key_off h index = (size_allocated h + 3) div 4 + (size_value h + size_key h) * index"

fun insert_probe :: "nat \<Rightarrow> hashmap \<Rightarrow> nat \<Rightarrow> nat res" where
  "insert_probe 0 h index = Inl Diverges"
| "insert_probe (Suc n) h index =
     ebind (tag_get h index) (\<lambda>tag.
       if tag = HASHMAP_TAG_EMPTY \<or> tag = HASHMAP_TAG_GRAVE then Inr index
       else insert_probe n h ((index + 1) mod size_allocated h))"

text \<open>The body of the branch that has found a slot.\<close>

definition write_slot :: "hashmap \<Rightarrow> nat \<Rightarrow> buf \<Rightarrow> buf \<Rightarrow> hashmap res" where
  "write_slot h index key value =
     (let key_ptr = key_off h index; value_ptr = key_ptr + size_key h
      in ebind (wr_bytes (data h) key_ptr key) (\<lambda>d1.
         ebind (wr_bytes d1 value_ptr value) (\<lambda>d2.
         ebind (tag_set (h\<lparr>data := d2\<rparr>) index HASHMAP_TAG_TAKEN) (\<lambda>h1.
         Inr (h1\<lparr>hm_size := hm_size h1 + 1\<rparr>)))))"

definition insert_at :: "hashmap \<Rightarrow> u64 \<Rightarrow> buf \<Rightarrow> buf \<Rightarrow> hashmap res" where
  "insert_at h hash key value =
     ebind (insert_probe (size_allocated h) h (unat hash mod size_allocated h)) (\<lambda>index.
       write_slot h index key value)"

text \<open>
  The loops of \<open>hashmap_grow\<close> over the tag bytes \<open>i\<close> and the tags \<open>j\<close> in each.
  The pointers they pass on point into the \<^emph>\<open>new\<close> data block, behind the tags, at the
  distance \<open>(size_value + size_key) + i * 4 + j\<close>.  The copies are modelled as reading
  the source first: source and destination may overlap, but hold only zero bytes then.
\<close>

fun grow_loop ::
  "(hashmap \<Rightarrow> buf \<Rightarrow> buf \<Rightarrow> hashmap res) \<Rightarrow> buf \<Rightarrow> nat \<Rightarrow> (nat \<times> nat) list \<Rightarrow> hashmap \<Rightarrow> hashmap res"
where
  "grow_loop ins old_tags size_tag_map [] h = Inr h"
| "grow_loop ins old_tags size_tag_map ((i, j) # ijs) h =
     ebind (rd8 old_tags i) (\<lambda>tag_byte.
       if drop_bit (j * 2) tag_byte AND 0x03 = HASHMAP_TAG_TAKEN then
         let key_ptr = size_tag_map + ((size_value h + size_key h) + i * 4 + j);
             value_ptr = key_ptr + size_key h
         in ebind (rd_bytes (data h) key_ptr (size_key h)) (\<lambda>key.
            ebind (rd_bytes (data h) value_ptr (size_value h)) (\<lambda>value.
            ebind (ins h key value) (\<lambda>h1.
            grow_loop ins old_tags size_tag_map ijs h1)))
       else grow_loop ins old_tags size_tag_map ijs h)"

definition tag_positions :: "nat \<Rightarrow> (nat \<times> nat) list" where
  "tag_positions n = concat (map (\<lambda>i. map (Pair i) [0..<4]) [0..<n])"

definition grow_with :: "(hashmap \<Rightarrow> buf \<Rightarrow> buf \<Rightarrow> hashmap res) \<Rightarrow> hashmap \<Rightarrow> hashmap res" where
  "grow_with ins h =
     (let old_size_allocated = size_allocated h;
          old_tags = data h;
          size_tag_map = ((size_allocated h * 2 + 1) * 2 + 7) div 8;
          size_data_map = (size_value h + size_key h) * (size_allocated h * 2 + 1);
          h1 = h\<lparr>size_allocated := size_allocated h * 2 + 1,
                 data := replicate (size_tag_map + size_data_map) 0, hm_size := 0\<rparr>
      in grow_loop ins old_tags size_tag_map (tag_positions (old_size_allocated div 4)) h1)"

text \<open>
  \<open>hashmap_insert\<close> and \<open>hashmap_grow\<close> call each other; the first argument bounds the
  depth of the calls.  Inside a growth no further growth starts, so depth 2 is all there is.
\<close>

fun hashmap_insert_depth :: "nat \<Rightarrow> hashmap \<Rightarrow> buf \<Rightarrow> buf \<Rightarrow> hashmap res" where
  "hashmap_insert_depth 0 h key value = Inl Diverges"
| "hashmap_insert_depth (Suc n) h key value =
     (let hash = hash_func h key
      in ebind (if hm_size h \<ge> size_allocated h div 2
                then grow_with (hashmap_insert_depth n) h else Inr h) (\<lambda>h1.
         insert_at h1 hash key value))"

definition hashmap_insert :: "hashmap \<Rightarrow> buf \<Rightarrow> buf \<Rightarrow> hashmap res" where
  "hashmap_insert = hashmap_insert_depth 2"

definition hashmap_grow :: "hashmap \<Rightarrow> hashmap res" where
  "hashmap_grow = grow_with (hashmap_insert_depth 1)"

section \<open>Lookup\<close>

fun get_probe :: "nat \<Rightarrow> hashmap \<Rightarrow> buf \<Rightarrow> nat \<Rightarrow> nat option res" where
  "get_probe 0 h key index = Inl Diverges"
| "get_probe (Suc n) h key index =
     ebind (tag_get h index) (\<lambda>tag.
       if tag = HASHMAP_TAG_EMPTY then Inr None
       else if tag = HASHMAP_TAG_TAKEN then
         ebind (rd_bytes (data h) (key_off h index) (size_key h)) (\<lambda>k.
           if k = key then Inr (Some index)
           else get_probe n h key ((index + 1) mod size_allocated h))
       else get_probe n h key ((index + 1) mod size_allocated h))"

definition hashmap_lock :: "hashmap \<Rightarrow> hashmap res" where
  "hashmap_lock h = ebind (mutex_lock (hm_lock h)) (\<lambda>m. Inr (h\<lparr>hm_lock := m\<rparr>))"

definition hashmap_unlock :: "hashmap \<Rightarrow> hashmap" where
  "hashmap_unlock h = h\<lparr>hm_lock := mutex_unlock (hm_lock h)\<rparr>"

text \<open>
  \<open>hashmap_get\<close> returns the position of the value in \<open>data\<close>.  On a hit it unlocks the
  map's mutex before it returns.
\<close>

definition hashmap_get :: "hashmap \<Rightarrow> buf \<Rightarrow> (hashmap \<times> nat option) res" where
  "hashmap_get h key =
     ebind (get_probe (size_allocated h) h key (unat (hash_func h key) mod size_allocated h)) (\<lambda>r.
       case r of
         None \<Rightarrow> Inr (h, None)
       | Some index \<Rightarrow> Inr (hashmap_unlock h, Some (key_off h index + size_key h)))"

definition hashmap_contains :: "hashmap \<Rightarrow> buf \<Rightarrow> (hashmap \<times> bool) res" where
  "hashmap_contains h key = ebind (hashmap_get h key) (\<lambda>(h1, r). Inr (h1, r \<noteq> None))"

section \<open>Removal\<close>

text \<open>
  The key of a slot is compared at \<open>(size_value + size_key) + index\<close> here.  The clean-up
  loop counts an unsigned index down.
\<close>

fun remove_probe :: "nat \<Rightarrow> hashmap \<Rightarrow> buf \<Rightarrow> nat \<Rightarrow> nat option res" where
  "remove_probe 0 h key index = Inl Diverges"
| "remove_probe (Suc n) h key index =
     ebind (tag_get h index) (\<lambda>tag.
       if tag = HASHMAP_TAG_EMPTY then Inr None
       else if tag = HASHMAP_TAG_TAKEN then
         ebind (rd_bytes (data h) ((size_value h + size_key h) + index) (size_key h)) (\<lambda>k.
           if k = key then Inr (Some index)
           else remove_probe n h key ((index + 1) mod size_allocated h))
       else remove_probe n h key ((index + 1) mod size_allocated h))"

fun clear_graves :: "hashmap \<Rightarrow> nat \<Rightarrow> nat \<Rightarrow> hashmap res" where
  "clear_graves h 0 index = Inl Diverges"
| "clear_graves h (Suc n) index =
     ebind (tag_get h index) (\<lambda>tag.
       if tag = HASHMAP_TAG_GRAVE then
         ebind (tag_set h index HASHMAP_TAG_EMPTY) (\<lambda>h1.
           clear_graves h1 n ((index + (2 ^ 64 - 1)) mod 2 ^ 64))
       else Inr h)"

definition hashmap_remove :: "hashmap \<Rightarrow> buf \<Rightarrow> hashmap res" where
  "hashmap_remove h key =
     ebind (remove_probe (size_allocated h) h key (unat (hash_func h key) mod size_allocated h)) (\<lambda>r.
       case r of
         None \<Rightarrow> Inr h
       | Some index \<Rightarrow>
           ebind (tag_set h index HASHMAP_TAG_GRAVE) (\<lambda>h1.
           let h2 = h1\<lparr>hm_size := (hm_size h1 + (2 ^ 64 - 1)) mod 2 ^ 64\<rparr> in
           ebind (tag_get h2 (index + 1)) (\<lambda>tag.
             if tag = HASHMAP_TAG_EMPTY then clear_graves h2 (index + 2) index else Inr h2)))"

end
