(* ===== verification/Router_State.thy ===== *)
theory Router_State
  imports Interfaces Devices Hashmap
begin

text \<open>
  The global state of the router process: the static tables of \<open>interfaces.c\<close>, the MAC table
  of \<open>devices.c\<close>, the list of unresolved destinations of \<open>timer.c\<close> with its timer, the two
  translation tables of \<open>ipv4.c\<close>, and what the program exchanges with its environment: the
  numbers \<open>rand()\<close> returns and the frames it has written.
\<close>

section \<open>Packets and pending destinations\<close>

text \<open>
  A packet in memory is the region from its first byte to the end of the object it lies in.
  A node of the delta list (\<open>struct delta_node\<close>): one unresolved next hop, the packets that
  wait for it (each in a heap block of its own) and its delay after the node before it.
\<close>

record delta_node =
  msec :: u32
  dn_ip_addr :: ip_addr
  pkt_list :: "buf list"
  retry_amt :: u8

section \<open>The router\<close>

text \<open>
  \<open>timer_left\<close> is the time (seconds, nanoseconds) the POSIX timer still has to run, as
  \<open>timer_settime\<close> sets and \<open>timer_gettime\<close> reads it; (0, 0) is the disarmed timer.
  \<open>rand_seq\<close> is the sequence of results of \<open>rand()\<close>, of which \<open>rand_pos\<close> have been used.
  \<open>sent\<close> lists the frames passed to \<open>write\<close> with the interface they went to, oldest first.
\<close>

record router =
  interface_arr :: interface_table
  wan :: wan_config
  macs :: devices
  delta_list :: "delta_node list"
  timer_mutex :: mutex
  timer_left :: "nat \<times> nat"
  napt_extern_hashmap :: hashmap
  napt_intern_hashmap :: hashmap
  rand_seq :: "nat \<Rightarrow> nat"
  rand_pos :: nat
  sent :: "(nat \<times> buf) list"

text \<open>
  The globals as they are initialised, with the translation tables \<open>napt_init\<close> creates.
\<close>

definition router_at_start :: "hashmap \<Rightarrow> hashmap \<Rightarrow> (nat \<Rightarrow> nat) \<Rightarrow> router" where
  "router_at_start extern intern rands =
     \<lparr>interface_arr = init_interface_arr, wan = init_wan, macs = devices_init,
      delta_list = [], timer_mutex = mutex_init, timer_left = (0, 0),
      napt_extern_hashmap = extern, napt_intern_hashmap = intern,
      rand_seq = rands, rand_pos = 0, sent = []\<rparr>"

section \<open>Fields of a packet\<close>

text \<open>
  Field positions of \<open>ipv4_hdr_t\<close> (packed): \<open>ver_ihl\<close> 0, \<open>total_length\<close> 2, \<open>protocol\<close> 9,
  \<open>checksum\<close> 10, \<open>ip_src\<close> 12, \<open>ip_dst\<close> 16; of \<open>udp_hdr_t\<close> and \<open>tcp_hdr_t\<close>: source
  port 0, destination port 2; UDP \<open>length\<close> 4 and \<open>checksum\<close> 6; TCP \<open>checksum\<close> 16.
\<close>

definition header_len :: "buf \<Rightarrow> nat res" where
  "header_len pkt = ebind (rd8 pkt 0) (\<lambda>ver_ihl. Inr (unat (ver_ihl AND 0x0F) * 4))"

text \<open>
  A well-formed packet: an IPv4 header of at least 20 bytes, and a total length that covers
  the header and lies within the object.
\<close>

definition hlen :: "buf \<Rightarrow> nat" where
  "hlen pkt = unat (pkt ! 0 AND 0x0F) * 4"

definition total_len :: "buf \<Rightarrow> nat" where
  "total_len pkt = unat (ntohs (le16 (pkt ! 2) (pkt ! 3)))"

definition wf_pkt :: "buf \<Rightarrow> bool" where
  "wf_pkt pkt \<longleftrightarrow> 20 \<le> hlen pkt \<and> hlen pkt \<le> total_len pkt \<and> total_len pkt \<le> length pkt"

definition ip_src :: "buf \<Rightarrow> ip_addr" where "ip_src pkt = ip_at pkt 12"
definition ip_dst :: "buf \<Rightarrow> ip_addr" where "ip_dst pkt = ip_at pkt 16"
definition ip_proto :: "buf \<Rightarrow> u8" where "ip_proto pkt = pkt ! 9"

lemma wf_pkt_length: "wf_pkt pkt \<Longrightarrow> 20 \<le> length pkt"
  unfolding wf_pkt_def by linarith

lemma header_len_wf [res_simps]:
  assumes "wf_pkt pkt"
  shows "header_len pkt = Inr (hlen pkt)"
proof -
  have "0 < length pkt" using wf_pkt_length [OF assms] by linarith
  then show ?thesis by (simp add: header_len_def hlen_def rd8_def)
qed

lemma hlen_bounds: "hlen pkt \<le> 60" "hlen pkt mod 2 = 0"
proof -
  have "(0x0F :: u8) = mask 4" by (simp add: mask_eq_exp_minus_1)
  then have "pkt ! 0 AND 0x0F = take_bit 4 (pkt ! 0)" by (simp only: take_bit_eq_mask)
  then have "unat (pkt ! 0 AND 0x0F) = take_bit 4 (unat (pkt ! 0))"
    by (simp only: unsigned_take_bit_eq)
  then have "unat (pkt ! 0 AND 0x0F) < 16"
    using take_bit_nat_less_exp [of 4 "unat (pkt ! 0)"] by simp
  then show "hlen pkt \<le> 60" "hlen pkt mod 2 = 0" by (simp_all add: hlen_def)
qed

lemma total_len_bound: "total_len pkt < 65536"
  using unsigned_less [of "ntohs (le16 (pkt ! 2) (pkt ! 3))"] by (simp add: total_len_def)

section \<open>ARP packets\<close>

text \<open>\<open>arp_hdr_t\<close>, the 16-bit fields as stored, and its 28 bytes.\<close>

record arp_hdr =
  hardware_type :: u16
  protocol_type :: u16
  hardware_length :: u8
  protocol_length :: u8
  operation :: u16
  sender_mac :: mac_addr
  sender_ip :: ip_addr
  target_mac :: mac_addr
  target_ip :: ip_addr

definition arp_bytes :: "arp_hdr \<Rightarrow> buf" where
  "arp_bytes a =
     [lo8 (hardware_type a), hi8 (hardware_type a), lo8 (protocol_type a), hi8 (protocol_type a),
      hardware_length a, protocol_length a, lo8 (operation a), hi8 (operation a)]
     @ mac_bytes (sender_mac a) @ ip_bytes (sender_ip a)
     @ mac_bytes (target_mac a) @ ip_bytes (target_ip a)"

definition arp_of_bytes :: "buf \<Rightarrow> nat \<Rightarrow> arp_hdr" where
  "arp_of_bytes b i =
     \<lparr>hardware_type = le16 (b ! i) (b ! (i + 1)), protocol_type = le16 (b ! (i + 2)) (b ! (i + 3)),
      hardware_length = b ! (i + 4), protocol_length = b ! (i + 5),
      operation = le16 (b ! (i + 6)) (b ! (i + 7)), sender_mac = mac_at b (i + 8),
      sender_ip = ip_at b (i + 14), target_mac = mac_at b (i + 18), target_ip = ip_at b (i + 24)\<rparr>"

definition rd_arp :: "buf \<Rightarrow> nat \<Rightarrow> arp_hdr res" where
  "rd_arp b i = (if i + 28 \<le> length b then Inr (arp_of_bytes b i) else Inl OutOfBounds)"

lemma length_arp_bytes [simp]: "length (arp_bytes a) = 28"
  by (simp add: arp_bytes_def)

lemma arp_roundtrip: "arp_of_bytes (arp_bytes a @ rest) 0 = a"
  by (cases a; cases "sender_mac a"; cases "target_mac a"; cases "sender_ip a"; cases "target_ip a")
    (simp add: arp_of_bytes_def arp_bytes_def mac_at_def ip_at_def numeral_eq_Suc)

section \<open>Frames\<close>

text \<open>
  The frame both senders build in a fresh block: \<open>ethernet_hdr_t\<close> (destination, source,
  EtherType in network order) and the payload.
\<close>

definition ether_frame :: "mac_addr \<Rightarrow> mac_addr \<Rightarrow> u16 \<Rightarrow> buf \<Rightarrow> buf" where
  "ether_frame mac_dst mac_src ethertype payload =
     mac_bytes mac_dst @ mac_bytes mac_src @ [lo8 (htons ethertype), hi8 (htons ethertype)] @ payload"

definition broadcast_mac :: mac_addr where
  "broadcast_mac = MacAddr 0xFF 0xFF 0xFF 0xFF 0xFF 0xFF"

definition write_frame :: "router \<Rightarrow> nat \<Rightarrow> buf \<Rightarrow> router" where
  "write_frame r int_id frame = r\<lparr>sent := sent r @ [(int_id, frame)]\<rparr>"

text \<open>\<open>send_arp\<close>: only Ethernet interfaces send anything.\<close>

definition send_arp :: "router \<Rightarrow> arp_hdr \<Rightarrow> nat \<Rightarrow> router res" where
  "send_arp r pkt int_id =
     ebind (interface_get_type (interface_arr r) int_id) (\<lambda>t.
       if t = INT_TYPE_ETHER then
         Inr (write_frame r int_id (ether_frame broadcast_mac (sender_mac pkt) 0x0806 (arp_bytes pkt)))
       else Inr r)"

text \<open>The ARP request both \<open>timer_add_packet\<close> and \<open>timer_handler\<close> build for an address.\<close>

definition arp_request :: "router \<Rightarrow> nat \<Rightarrow> ip_addr \<Rightarrow> arp_hdr res" where
  "arp_request r int_id target =
     ebind (interface_get_ip (interface_arr r) int_id) (\<lambda>ip.
     ebind (interface_get_mac_addr (interface_arr r) int_id) (\<lambda>mac.
       Inr \<lparr>hardware_type = htons 0x0001, protocol_type = htons 0x0800,
            hardware_length = 6, protocol_length = 4, operation = htons 0x01,
            sender_mac = mac, sender_ip = ip, target_mac = broadcast_mac, target_ip = target\<rparr>))"

end
