(* ===== verification/Timer.thy ===== *)
theory Timer
  imports Router_State
begin

text \<open>
  The delta list of \<open>src/timer.c\<close>: queueing a packet for an unresolved next hop
  (\<open>timer_add_packet\<close>) and the expiry of the timer (\<open>timer_handler\<close>).  The third entry
  point, \<open>timer_update_packets\<close>, sends packets and is in theory \<open>Arp\<close>.
\<close>

section \<open>Queueing a packet\<close>

text \<open>
  The search loop of \<open>timer_add_packet\<close> with the appending of the packet to the node it
  finds, and the delays added up on the way.  Appending walks the node's packet list without
  testing its head.
\<close>

fun enqueue_existing ::
  "delta_node list \<Rightarrow> ip_addr \<Rightarrow> buf \<Rightarrow> u32 \<Rightarrow> (delta_node list option \<times> u32) res" where
  "enqueue_existing [] dst pkt total_time = Inr (None, total_time)"
| "enqueue_existing (n # ns) dst pkt total_time =
     (let total_time' = total_time + msec n in
      if ip_addr_equals (dn_ip_addr n) dst then
        (if pkt_list n = [] then Inl NullDeref
         else Inr (Some (n\<lparr>pkt_list := pkt_list n @ [pkt]\<rparr> # ns), total_time'))
      else ebind (enqueue_existing ns dst pkt total_time') (\<lambda>(r, t).
             Inr (map_option (\<lambda>ns'. n # ns') r, t)))"

text \<open>\<open>total_time\<close> is an \<open>int\<close>: the cap compares it as a signed number.\<close>

definition remaining_delay :: "u32 \<Rightarrow> u32" where
  "remaining_delay total_time = 1000 - (if sint total_time > 1000 then 1000 else total_time)"

definition lock_timer :: "router \<Rightarrow> router res" where
  "lock_timer r = ebind (mutex_lock (timer_mutex r)) (\<lambda>m. Inr (r\<lparr>timer_mutex := m\<rparr>))"

definition unlock_timer :: "router \<Rightarrow> router" where
  "unlock_timer r = r\<lparr>timer_mutex := mutex_unlock (timer_mutex r)\<rparr>"

definition timer_add_packet :: "router \<Rightarrow> buf \<Rightarrow> nat \<Rightarrow> ip_addr \<Rightarrow> router res" where
  "timer_add_packet r0 pkt int_id dst =
     ebind (lock_timer r0) (\<lambda>r.
     ebind (enqueue_existing (delta_list r) dst pkt 0) (\<lambda>(found, total_time).
       case found of
         Some ns \<Rightarrow> Inr (unlock_timer (r\<lparr>delta_list := ns\<rparr>))
       | None \<Rightarrow>
           ebind (arp_request r int_id dst) (\<lambda>arp_pkt.
           ebind (send_arp r arp_pkt int_id) (\<lambda>r1.
           let new_node = \<lparr>msec = remaining_delay total_time, dn_ip_addr = dst,
                           pkt_list = [pkt], retry_amt = 0\<rparr>
           in Inr (unlock_timer
                (if delta_list r1 = [] then r1\<lparr>delta_list := [new_node], timer_left := (1, 0)\<rparr>
                 else r1\<lparr>delta_list := delta_list r1 @ [new_node]\<rparr>))))))"

section \<open>Expiry\<close>

fun total_delay :: "delta_node list \<Rightarrow> u32 \<Rightarrow> u32" where
  "total_delay [] total_time = total_time"
| "total_delay (n # ns) total_time = total_delay ns (total_time + msec n)"

text \<open>
  One round of the loop in \<open>timer_handler\<close>: take the first node off the list; discard it
  and its packets if it has been retried, otherwise repeat its ARP request and put it back at
  the end.
\<close>

definition handler_step :: "router \<Rightarrow> router res" where
  "handler_step r =
     (case delta_list r of
        [] \<Rightarrow> Inr r
      | n # ns \<Rightarrow>
          let r1 = r\<lparr>delta_list := ns\<rparr> in
          if retry_amt n \<ge> 1 then Inr r1
          else
            ebind (get_interface_for_ip (interface_arr r1) (dn_ip_addr n)) (\<lambda>int_id.
            ebind (arp_request r1 int_id (dn_ip_addr n)) (\<lambda>arp_pkt.
            ebind (send_arp r1 arp_pkt int_id) (\<lambda>r2.
            Inr (r2\<lparr>delta_list := delta_list r2 @
                   [n\<lparr>retry_amt := retry_amt n + 1,
                      msec := remaining_delay (total_delay (delta_list r2) 0)\<rparr>]\<rparr>)))))"

text \<open>Each round discards a node or uses up its one retry, so the loop ends.\<close>

definition retries_left :: "delta_node list \<Rightarrow> nat" where
  "retries_left ns = sum_list (map (\<lambda>n. if retry_amt n \<ge> 1 then 1 else 2) ns)"

lemma send_arp_delta: "send_arp r a i = Inr r' \<Longrightarrow> delta_list r' = delta_list r"
  by (auto simp: send_arp_def write_frame_def ebind_Inr_iff split: if_splits)

lemma handler_step_retries:
  assumes "handler_step r = Inr r'" and "delta_list r \<noteq> []"
  shows "retries_left (delta_list r') < retries_left (delta_list r)"
proof -
  obtain n ns where n: "delta_list r = n # ns" using assms(2) by (cases "delta_list r") auto
  show ?thesis
  proof (cases "retry_amt n \<ge> 1")
    case True
    with assms(1) n show ?thesis by (auto simp: handler_step_def retries_left_def)
  next
    case False
    then have "retry_amt n = 0" by (simp add: word_le_nat_alt word_unat_eq_iff)
    with assms(1) n False show ?thesis
      by (auto simp: handler_step_def retries_left_def Let_def ebind_Inr_iff dest!: send_arp_delta)
  qed
qed

function handler_loop :: "router \<Rightarrow> router res" where
  "handler_loop r =
     (if delta_list r \<noteq> [] \<and> msec (hd (delta_list r)) = 0
      then ebind (handler_step r) (\<lambda>r'. handler_loop r') else Inr r)"
  by pat_completeness auto
termination
  by (relation "measure (\<lambda>r. retries_left (delta_list r))") (auto simp: handler_step_retries)

declare handler_loop.simps [simp del]

text \<open>
  \<open>timer_handler\<close>: the head's time is over; run the loop; then disarm the timer or set it
  to the delay of the new head (\<open>msec * 1000000\<close> nanoseconds as seconds and rest).
\<close>

definition itimer_value :: "u32 \<Rightarrow> nat \<times> nat" where
  "itimer_value ms =
     (let total = unat ms * 1000000 in (total div 1000000000, total mod 1000000000))"

definition arm_timer :: "router \<Rightarrow> router" where
  "arm_timer r =
     r\<lparr>timer_left := (case delta_list r of [] \<Rightarrow> (0, 0) | n # _ \<Rightarrow> itimer_value (msec n))\<rparr>"

definition timer_handler :: "router \<Rightarrow> router res" where
  "timer_handler r0 =
     ebind (lock_timer r0) (\<lambda>r.
       case delta_list r of
         [] \<Rightarrow> Inr (unlock_timer r)
       | n # ns \<Rightarrow>
           ebind (handler_loop (r\<lparr>delta_list := n\<lparr>msec := 0\<rparr> # ns\<rparr>)) (\<lambda>r1.
           Inr (unlock_timer (arm_timer r1))))"

section \<open>Sending requests never fails on the configured interfaces\<close>

lemma configured_length: "configured arr \<Longrightarrow> length arr = 2"
  by (auto elim: configuredE)

definition request_for :: "router \<Rightarrow> nat \<Rightarrow> ip_addr \<Rightarrow> arp_hdr" where
  "request_for r int_id target =
     \<lparr>hardware_type = htons 0x0001, protocol_type = htons 0x0800,
      hardware_length = 6, protocol_length = 4, operation = htons 0x01,
      sender_mac = device_mac_addr (interface_arr r ! int_id),
      sender_ip = interface_ip (interface_arr r ! int_id),
      target_mac = broadcast_mac, target_ip = target\<rparr>"

definition request_frame :: "router \<Rightarrow> nat \<Rightarrow> ip_addr \<Rightarrow> buf" where
  "request_frame r int_id target =
     ether_frame broadcast_mac (device_mac_addr (interface_arr r ! int_id)) 0x0806
       (arp_bytes (request_for r int_id target))"

lemma arp_request_configured [res_simps]:
  "int_id < length (interface_arr r) \<Longrightarrow> arp_request r int_id target = Inr (request_for r int_id target)"
  by (simp add: arp_request_def interface_get_defs request_for_def)

lemma configured_ether:
  "configured arr \<Longrightarrow> int_id < 2 \<Longrightarrow> if_type (arr ! int_id) = INT_TYPE_ETHER"
  by (auto elim!: configuredE simp: route_of_def less_2_cases_iff)

lemma send_arp_configured [res_simps]:
  assumes "configured (interface_arr r)" and "int_id < 2"
  shows "send_arp r (request_for r' int_id target) int_id =
    Inr (write_frame r int_id (ether_frame broadcast_mac (sender_mac (request_for r' int_id target)) 0x0806
      (arp_bytes (request_for r' int_id target))))"
  using assms configured_length [OF assms(1)]
  by (simp add: send_arp_def interface_get_defs configured_ether)

section \<open>Delays\<close>

definition delays :: "delta_node list \<Rightarrow> nat" where
  "delays ns = sum_list (map (\<lambda>n. unat (msec n)) ns)"

lemma delays_simps [simp]:
  "delays [] = 0" "delays (n # ns) = unat (msec n) + delays ns"
  "delays (ns @ ms) = delays ns + delays ms"
  by (simp_all add: delays_def)

lemma unat_u32_add: "unat (a :: u32) + unat b < 4294967296 \<Longrightarrow> unat (a + b) = unat a + unat b"
  by (simp add: unat_word_ariths)

lemma total_delay_eq:
  "unat t + delays ns \<le> 1000 \<Longrightarrow> unat (total_delay ns t) = unat t + delays ns"
proof (induction ns arbitrary: t)
  case Nil
  then show ?case by simp
next
  case (Cons n ns)
  then have "unat (t + msec n) = unat t + unat (msec n)" by (intro unat_u32_add) simp
  with Cons show ?case by simp
qed

lemma remaining_delay_eq:
  assumes "unat t \<le> 1000"
  shows "unat (remaining_delay t) = 1000 - unat t"
proof -
  have "uint t \<le> 1000" using assms uint_nat [of t] by linarith
  then have "- 2147483648 \<le> uint t" "uint t < 2147483648"
    using uint_ge_0 [of t] by linarith+
  then have "sint t = uint t"
    using signed_take_bit_int_eq_self [of 31 "uint t"] by (simp add: sint_uint)
  with \<open>uint t \<le> 1000\<close> have "remaining_delay t = 1000 - t" by (simp add: remaining_delay_def)
  moreover have "t \<le> 1000" using assms by (simp add: word_le_nat_alt)
  ultimately show ?thesis by (simp add: unat_sub)
qed

section \<open>Invariant of the delta list\<close>

text \<open>
  No next hop has two nodes, every node has a packet and at most one retry, and the delays
  add up to at most a second (so no addition of delays wraps).
\<close>

definition delta_ok :: "delta_node list \<Rightarrow> bool" where
  "delta_ok ns \<longleftrightarrow> distinct (map dn_ip_addr ns) \<and>
     (\<forall>n \<in> set ns. pkt_list n \<noteq> [] \<and> retry_amt n \<le> 1) \<and> delays ns \<le> 1000"

text \<open>The timer runs exactly when something is pending.\<close>

definition timer_inv :: "router \<Rightarrow> bool" where
  "timer_inv r \<longleftrightarrow> delta_ok (delta_list r) \<and> \<not> held (timer_mutex r) \<and>
     (delta_list r = [] \<or> timer_left r \<noteq> (0, 0))"

text \<open>The packets waiting for a next hop, oldest first.\<close>

definition waiting :: "delta_node list \<Rightarrow> ip_addr \<Rightarrow> buf list" where
  "waiting ns ip = concat (map pkt_list (filter (\<lambda>n. dn_ip_addr n = ip) ns))"

lemma waiting_simps [simp]:
  "waiting [] ip = []"
  "waiting (n # ns) ip = (if dn_ip_addr n = ip then pkt_list n else []) @ waiting ns ip"
  "waiting (ns @ ms) ip = waiting ns ip @ waiting ms ip"
  by (simp_all add: waiting_def)

lemma waiting_none: "ip \<notin> dn_ip_addr ` set ns \<Longrightarrow> waiting ns ip = []"
  by (induction ns) auto

section \<open>Queueing\<close>

lemma enqueue_existing_spec:
  assumes "delta_ok ns" and "unat t + delays ns \<le> 1000"
  shows "if dst \<in> dn_ip_addr ` set ns
    then \<exists>ns' t'. enqueue_existing ns dst pkt t = Inr (Some ns', t') \<and> delta_ok ns' \<and>
           map dn_ip_addr ns' = map dn_ip_addr ns \<and> delays ns' = delays ns \<and>
           waiting ns' = (waiting ns)(dst := waiting ns dst @ [pkt])
    else \<exists>t'. enqueue_existing ns dst pkt t = Inr (None, t') \<and> unat t' = unat t + delays ns"
  using assms
proof (induction ns arbitrary: t)
  case Nil
  then show ?case by simp
next
  case (Cons n ns)
  show ?case
  proof (cases "dn_ip_addr n = dst")
    case True
    let ?n = "n\<lparr>pkt_list := pkt_list n @ [pkt]\<rparr>"
    from True Cons.prems(1) have "dst \<notin> dn_ip_addr ` set ns" by (auto simp: delta_ok_def)
    then have "waiting (?n # ns) = (waiting (n # ns))(dst := waiting (n # ns) dst @ [pkt])"
      using True by (auto simp: fun_eq_iff waiting_none)
    moreover have "delta_ok (?n # ns)" using Cons.prems(1) by (auto simp: delta_ok_def)
    moreover have "pkt_list n \<noteq> []" using Cons.prems(1) by (simp add: delta_ok_def)
    ultimately show ?thesis using True by simp
  next
    case False
    have ok: "delta_ok ns" using Cons.prems(1) by (auto simp: delta_ok_def)
    have t: "unat (t + msec n) = unat t + unat (msec n)"
      using Cons.prems(2) by (intro unat_u32_add) simp
    with Cons.prems(2) have "unat (t + msec n) + delays ns \<le> 1000" by simp
    note IH = Cons.IH [OF ok this]
    show ?thesis
    proof (cases "dst \<in> dn_ip_addr ` set ns")
      case mem: True
      with IH obtain ns' t' where
        e: "enqueue_existing ns dst pkt (t + msec n) = Inr (Some ns', t')" "delta_ok ns'"
          "map dn_ip_addr ns' = map dn_ip_addr ns" "delays ns' = delays ns"
          "waiting ns' = (waiting ns)(dst := waiting ns dst @ [pkt])" by auto
      have "set (map dn_ip_addr ns') = set (map dn_ip_addr ns)" using e(3) by simp
      with e Cons.prems(1) have "delta_ok (n # ns')" by (simp add: delta_ok_def)
      moreover have "waiting (n # ns') = (waiting (n # ns))(dst := waiting (n # ns) dst @ [pkt])"
        using False e(5) by (auto simp: fun_eq_iff)
      ultimately show ?thesis using False mem e by simp
    next
      case nmem: False
      with IH t False show ?thesis by auto
    qed
  qed
qed

lemma delta_ok_append:
  "delta_ok (ns @ [n]) \<longleftrightarrow>
     delta_ok ns \<and> dn_ip_addr n \<notin> dn_ip_addr ` set ns \<and> pkt_list n \<noteq> [] \<and> retry_amt n \<le> 1 \<and>
     delays ns + unat (msec n) \<le> 1000"
  by (auto simp: delta_ok_def)

lemma enqueue_existing_found:
  assumes "delta_ok ns" and "dst \<in> dn_ip_addr ` set ns"
  obtains ns' t' where "enqueue_existing ns dst pkt 0 = Inr (Some ns', t')" and "delta_ok ns'"
    and "map dn_ip_addr ns' = map dn_ip_addr ns"
    and "waiting ns' = (waiting ns)(dst := waiting ns dst @ [pkt])"
  using enqueue_existing_spec [OF assms(1), of 0 dst pkt] assms by (auto simp: delta_ok_def)

lemma enqueue_existing_new:
  assumes "delta_ok ns" and "dst \<notin> dn_ip_addr ` set ns"
  obtains t' where "enqueue_existing ns dst pkt 0 = Inr (None, t')" and "unat t' = delays ns"
  using enqueue_existing_spec [OF assms(1), of 0 dst pkt] assms by (auto simp: delta_ok_def)

lemma lock_timer_free [res_simps]:
  "\<not> held (timer_mutex r) \<Longrightarrow> lock_timer r = Inr (r\<lparr>timer_mutex := (timer_mutex r)\<lparr>held := True\<rparr>\<rparr>)"
  by (simp add: lock_timer_def res_simps)

text \<open>
  What the operations of this file leave alone: everything but the list, the timer and the
  frames sent; after a balanced call the lock as well.
\<close>

definition timer_only :: "router \<Rightarrow> router \<Rightarrow> bool" where
  "timer_only r r' \<longleftrightarrow>
     r' = r\<lparr>delta_list := delta_list r', timer_left := timer_left r', sent := sent r'\<rparr>"

lemma timer_only_simps:
  assumes "timer_only r r'"
  shows "interface_arr r' = interface_arr r" "wan r' = wan r" "macs r' = macs r"
    "timer_mutex r' = timer_mutex r" "napt_extern_hashmap r' = napt_extern_hashmap r"
    "napt_intern_hashmap r' = napt_intern_hashmap r" "rand_seq r' = rand_seq r" "rand_pos r' = rand_pos r"
  by (subst assms [unfolded timer_only_def]; simp)+

lemma timer_only_trans: "timer_only r r1 \<Longrightarrow> timer_only r1 r' \<Longrightarrow> timer_only r r'"
  by (cases r; cases r1; cases r') (simp add: timer_only_def)

text \<open>A free lock and a well-formed list are enough for it; the timer is started with the list.\<close>

lemma timer_add_packet_effect:
  assumes ok: "delta_ok (delta_list r)" and free: "\<not> held (timer_mutex r)"
    and "configured (interface_arr r)" and "int_id < 2"
  shows "\<exists>r'. timer_add_packet r pkt int_id dst = Inr r' \<and> delta_ok (delta_list r') \<and> timer_only r r' \<and>
    timer_left r' = (if delta_list r = [] then (1, 0) else timer_left r) \<and>
    waiting (delta_list r') = (waiting (delta_list r))(dst := waiting (delta_list r) dst @ [pkt]) \<and>
    sent r' = sent r @ (if dst \<in> dn_ip_addr ` set (delta_list r) then []
                        else [(int_id, request_frame r int_id dst)]) \<and>
    dn_ip_addr ` set (delta_list r') = insert dst (dn_ip_addr ` set (delta_list r))"
proof (cases "dst \<in> dn_ip_addr ` set (delta_list r)")
  case True
  obtain ns' t' where e: "enqueue_existing (delta_list r) dst pkt 0 = Inr (Some ns', t')" "delta_ok ns'"
      "map dn_ip_addr ns' = map dn_ip_addr (delta_list r)"
      "waiting ns' = (waiting (delta_list r))(dst := waiting (delta_list r) dst @ [pkt])"
    using enqueue_existing_found [OF ok True] .
  have keys: "dn_ip_addr ` set ns' = dn_ip_addr ` set (delta_list r)"
    using arg_cong [OF e(3), of set] by simp
  have "timer_add_packet r pkt int_id dst = Inr (r\<lparr>delta_list := ns'\<rparr>)"
    using e(1) free by (simp add: timer_add_packet_def lock_timer_free unlock_timer_def)
  moreover have "delta_list r \<noteq> []" using True by auto
  ultimately show ?thesis
    using e(2,4) keys True by (auto simp: timer_only_def)
next
  case False
  obtain t' where e: "enqueue_existing (delta_list r) dst pkt 0 = Inr (None, t')"
      "unat t' = delays (delta_list r)"
    using enqueue_existing_new [OF ok False] .
  let ?n = "\<lparr>msec = remaining_delay t', dn_ip_addr = dst, pkt_list = [pkt], retry_amt = 0\<rparr>"
  have "unat (remaining_delay t') = 1000 - delays (delta_list r)"
    using remaining_delay_eq [of t'] e(2) ok by (simp add: delta_ok_def)
  then have ok': "delta_ok (delta_list r @ [?n])"
    using ok False by (simp add: delta_ok_append) (simp add: delta_ok_def)
  have len: "int_id < length (interface_arr r)" using configured_length [OF assms(3)] assms(4) by simp
  let ?r' = "r\<lparr>delta_list := delta_list r @ [?n],
      timer_left := if delta_list r = [] then (1, 0) else timer_left r,
      sent := sent r @ [(int_id, request_frame r int_id dst)]\<rparr>"
  have "timer_add_packet r pkt int_id dst = Inr ?r'"
    using e(1) free assms(3,4) len
    by (simp add: timer_add_packet_def res_simps write_frame_def unlock_timer_def request_frame_def)
      (simp add: request_for_def)
  moreover have "waiting (delta_list ?r') = (waiting (delta_list r))(dst := waiting (delta_list r) dst @ [pkt])"
    using False by (auto simp: fun_eq_iff waiting_none)
  ultimately show ?thesis using False ok' by (auto simp: timer_only_def)
qed

lemma timer_add_packet_spec:
  assumes "timer_inv r" and "configured (interface_arr r)" and "int_id < 2"
  shows "\<exists>r'. timer_add_packet r pkt int_id dst = Inr r' \<and> timer_inv r' \<and> timer_only r r' \<and>
    waiting (delta_list r') = (waiting (delta_list r))(dst := waiting (delta_list r) dst @ [pkt]) \<and>
    sent r' = sent r @ (if dst \<in> dn_ip_addr ` set (delta_list r) then []
                        else [(int_id, request_frame r int_id dst)]) \<and>
    dn_ip_addr ` set (delta_list r') = insert dst (dn_ip_addr ` set (delta_list r))"
proof -
  have "delta_ok (delta_list r)" "\<not> held (timer_mutex r)" using assms(1) by (simp_all add: timer_inv_def)
  from timer_add_packet_effect [OF this assms(2,3), of pkt dst] obtain r' where
    r': "timer_add_packet r pkt int_id dst = Inr r'" "delta_ok (delta_list r')" "timer_only r r'"
      "timer_left r' = (if delta_list r = [] then (1, 0) else timer_left r)"
      "waiting (delta_list r') = (waiting (delta_list r))(dst := waiting (delta_list r) dst @ [pkt])"
      "sent r' = sent r @ (if dst \<in> dn_ip_addr ` set (delta_list r) then []
                        else [(int_id, request_frame r int_id dst)])"
      "dn_ip_addr ` set (delta_list r') = insert dst (dn_ip_addr ` set (delta_list r))" by blast
  moreover have "timer_inv r'"
    using assms(1) r'(2,4) timer_only_simps(4) [OF r'(3)] by (auto simp: timer_inv_def)
  ultimately show ?thesis by blast
qed

section \<open>Expiry\<close>

text \<open>
  In closed form: the nodes that expire together are those with delay 0 from the head on.
  Those that were retried before are gone; the others go to the end of the list, the first
  with what is missing to a second, the rest with no delay of their own.
\<close>

fun requeued :: "u32 \<Rightarrow> delta_node list \<Rightarrow> delta_node list" where
  "requeued d [] = []"
| "requeued d (n # ns) = n\<lparr>retry_amt := 1, msec := d\<rparr> # requeued 0 ns"

definition expired :: "delta_node list \<Rightarrow> delta_node list" where
  "expired ns = takeWhile (\<lambda>n. msec n = 0) ns"

definition unexpired :: "delta_node list \<Rightarrow> delta_node list" where
  "unexpired ns = dropWhile (\<lambda>n. msec n = 0) ns"

definition to_retry :: "delta_node list \<Rightarrow> delta_node list" where
  "to_retry ns = filter (\<lambda>n. retry_amt n = 0) (expired ns)"

definition lan_or_wan :: "ip_addr \<Rightarrow> nat" where
  "lan_or_wan ip = (if on_lan ip then 0 else 1)"

definition retry_frames :: "router \<Rightarrow> delta_node list \<Rightarrow> (nat \<times> buf) list" where
  "retry_frames r ns =
     map (\<lambda>n. (lan_or_wan (dn_ip_addr n), request_frame r (lan_or_wan (dn_ip_addr n)) (dn_ip_addr n))) ns"

lemma requeued_keys [simp]: "map dn_ip_addr (requeued d ns) = map dn_ip_addr ns"
  by (induction d ns rule: requeued.induct) auto

lemma requeued_empty_iff [simp]: "requeued d ns = [] \<longleftrightarrow> ns = []"
  by (cases ns) auto

lemma waiting_requeued [simp]: "waiting (requeued d ns) = waiting ns"
  by (induction d ns rule: requeued.induct) (auto simp: fun_eq_iff)

lemma delays_requeued: "delays (requeued d ns) = (if ns = [] then 0 else unat d)"
proof (induction d ns rule: requeued.induct)
  case (2 d n ns)
  then show ?case by (cases ns) auto
qed simp

lemma requeued_set: "n \<in> set (requeued d ns) \<Longrightarrow> retry_amt n = 1 \<and> (\<exists>m \<in> set ns. pkt_list n = pkt_list m)"
  by (induction d ns rule: requeued.induct) auto

lemma unat_u8_zero_iff: "\<not> 1 \<le> (w :: u8) \<longleftrightarrow> w = 0"
  by (simp add: not_le)

definition rest_of_second :: "delta_node list \<Rightarrow> u32" where
  "rest_of_second ns = of_nat (1000 - delays ns)"

lemma unat_rest_of_second: "unat (rest_of_second ns) = 1000 - delays ns"
  by (simp add: rest_of_second_def unsigned_of_nat take_bit_nat_eq_self)

lemma rest_of_second_full: "delays ns = 1000 \<Longrightarrow> rest_of_second ns = 0"
  by (simp add: rest_of_second_def)

lemma remaining_total:
  assumes "delays ns \<le> 1000"
  shows "remaining_delay (total_delay ns 0) = rest_of_second ns"
proof -
  have "unat (remaining_delay (total_delay ns 0)) = 1000 - delays ns"
    using assms total_delay_eq [of 0 ns] remaining_delay_eq [of "total_delay ns 0"] by simp
  then show ?thesis by (simp flip: unat_rest_of_second add: word_unat_eq_iff)
qed

text \<open>One round on a list whose head has expired.\<close>

lemma handler_step_retry:
  assumes "configured (interface_arr r)" and "delta_list r = n # ns" and "retry_amt n = 0"
    and "delays ns \<le> 1000"
  shows "handler_step r = Inr (r\<lparr>delta_list := ns @ requeued (rest_of_second ns) [n],
                                sent := sent r @ retry_frames r [n]\<rparr>)"
proof -
  have "lan_or_wan (dn_ip_addr n) < length (interface_arr r)" "lan_or_wan (dn_ip_addr n) < 2"
    using configured_length [OF assms(1)] by (simp_all add: lan_or_wan_def)
  moreover have "get_interface_for_ip (interface_arr r) (dn_ip_addr n) = Inr (lan_or_wan (dn_ip_addr n))"
    using assms(1) by (simp add: get_interface_for_ip_configured lan_or_wan_def)
  ultimately show ?thesis
    using assms remaining_total [OF assms(4)]
    by (simp add: handler_step_def Let_def res_simps write_frame_def retry_frames_def request_frame_def)
      (simp add: request_for_def)
qed

lemma handler_step_discard:
  "delta_list r = n # ns \<Longrightarrow> retry_amt n \<noteq> 0 \<Longrightarrow> handler_step r = Inr (r\<lparr>delta_list := ns\<rparr>)"
  using unat_u8_zero_iff [of "retry_amt n"] by (auto simp: handler_step_def Let_def)

lemma retry_frames_simps [simp]:
  "retry_frames r [] = []"
  "retry_frames (r\<lparr>delta_list := ds\<rparr>) ns = retry_frames r ns"
  "retry_frames (r\<lparr>sent := fs\<rparr>) ns = retry_frames r ns"
  by (simp_all add: retry_frames_def request_frame_def request_for_def)

lemma retry_frames_Cons: "retry_frames r (n # ns) = retry_frames r [n] @ retry_frames r ns"
  by (simp add: retry_frames_def)

lemma delays_zeros: "\<forall>n \<in> set ds. msec n = 0 \<Longrightarrow> delays ds = 0"
  by (induction ds) auto

lemma handler_loop_closed:
  assumes "configured (interface_arr r)" and "delta_list r = ds @ ts"
    and "\<forall>n \<in> set ds. msec n = 0" and "ts = [] \<or> msec (hd ts) \<noteq> 0" and "delays ts \<le> 1000"
  shows "handler_loop r = Inr (r\<lparr>
      delta_list := ts @ requeued (rest_of_second ts) (filter (\<lambda>n. retry_amt n = 0) ds),
      sent := sent r @ retry_frames r (filter (\<lambda>n. retry_amt n = 0) ds)\<rparr>)"
  using assms
proof (induction ds arbitrary: r ts)
  case Nil
  then show ?case by (subst handler_loop.simps) auto
next
  case (Cons n ds)
  have loop: "handler_loop r = ebind (handler_step r) handler_loop"
    using Cons.prems(2,3) by (subst handler_loop.simps) simp
  show ?case
  proof (cases "retry_amt n = 0")
    case False
    then have "handler_step r = Inr (r\<lparr>delta_list := ds @ ts\<rparr>)"
      using Cons.prems(2) by (intro handler_step_discard) auto
    with loop False Cons.IH [of "r\<lparr>delta_list := ds @ ts\<rparr>" ts] Cons.prems show ?thesis by simp
  next
    case True
    have d: "delays (ds @ ts) = delays ts" "rest_of_second (ds @ ts) = rest_of_second ts"
      using Cons.prems(3) by (simp_all add: delays_zeros rest_of_second_def)
    let ?r = "r\<lparr>delta_list := (ds @ ts) @ requeued (rest_of_second ts) [n],
                sent := sent r @ retry_frames r [n]\<rparr>"
    have step: "handler_step r = Inr ?r"
      using handler_step_retry [OF Cons.prems(1), of n "ds @ ts"] Cons.prems True d by simp
    let ?t = "ts @ requeued (rest_of_second ts) [n]"
    have total: "delays ?t = 1000" using Cons.prems(5) by (simp add: unat_rest_of_second)
    then have rest: "rest_of_second ?t = 0" by (rule rest_of_second_full)
    have "rest_of_second [] \<noteq> 0" by (simp add: rest_of_second_def)
    then have t: "?t = [] \<or> msec (hd ?t) \<noteq> 0" using Cons.prems(4) by (cases ts) simp_all
    have "handler_loop ?r = Inr (?r\<lparr>
        delta_list := ?t @ requeued (rest_of_second ?t) (filter (\<lambda>n. retry_amt n = 0) ds),
        sent := sent ?r @ retry_frames ?r (filter (\<lambda>n. retry_amt n = 0) ds)\<rparr>)"
      by (rule Cons.IH) (use Cons.prems t total in simp_all)
    with loop step rest True show ?thesis
      by (simp add: retry_frames_Cons [of r n "filter _ ds"])
  qed
qed

text \<open>What an expiry leaves, and that it keeps the invariant.\<close>

definition after_expiry :: "delta_node list \<Rightarrow> delta_node list" where
  "after_expiry ns = unexpired ns @ requeued (rest_of_second (unexpired ns)) (to_retry ns)"

definition head_expired :: "delta_node list \<Rightarrow> delta_node list" where
  "head_expired ns = (case ns of [] \<Rightarrow> [] | n # ns' \<Rightarrow> n\<lparr>msec := 0\<rparr> # ns')"

lemma expired_unexpired: "expired ns @ unexpired ns = ns"
  by (simp add: expired_def unexpired_def)

lemma after_expiry_ok:
  assumes "delta_ok ns"
  shows "delta_ok (after_expiry ns)"
proof -
  have "distinct (map dn_ip_addr (expired ns @ unexpired ns))"
    and nodes: "\<forall>n \<in> set (expired ns @ unexpired ns). pkt_list n \<noteq> [] \<and> retry_amt n \<le> 1"
    and d: "delays (expired ns @ unexpired ns) \<le> 1000"
    using assms unfolding expired_unexpired delta_ok_def by blast+
  then have "distinct (map dn_ip_addr (unexpired ns @ to_retry ns))"
    by (auto simp: to_retry_def distinct_map_filter)
  then have "distinct (map dn_ip_addr (after_expiry ns))" by (simp add: after_expiry_def)
  moreover have "\<forall>n \<in> set (after_expiry ns). pkt_list n \<noteq> [] \<and> retry_amt n \<le> 1"
    using nodes by (fastforce simp: after_expiry_def to_retry_def dest: requeued_set)
  moreover have "delays (after_expiry ns) \<le> 1000"
    using d by (simp add: after_expiry_def delays_requeued unat_rest_of_second)
  ultimately show ?thesis by (simp add: delta_ok_def)
qed

lemma waiting_same_filter: "distinct (map dn_ip_addr ns) \<Longrightarrow>
  waiting (filter P ns) ip =
    (if \<exists>n \<in> set ns. dn_ip_addr n = ip \<and> \<not> P n then [] else waiting ns ip)"
proof (induction ns)
  case (Cons n ns)
  show ?case
  proof (cases "dn_ip_addr n = ip")
    case True
    with Cons.prems have "ip \<notin> dn_ip_addr ` set ns" by auto
    then have others: "\<forall>m \<in> set ns. dn_ip_addr m \<noteq> ip" by auto
    then have "waiting ns ip = []" "waiting (filter P ns) ip = []"
      by (intro waiting_none; force)+
    with True others show ?thesis by auto
  qed (use Cons in auto)
qed simp

lemma waiting_after_expiry:
  assumes "distinct (map dn_ip_addr ns)"
  shows "waiting (after_expiry (head_expired ns)) ip =
    (if \<exists>n \<in> set (expired (head_expired ns)). dn_ip_addr n = ip \<and> retry_amt n \<noteq> 0
     then [] else waiting ns ip)"
proof -
  let ?h = "head_expired ns"
  have keys: "map dn_ip_addr ?h = map dn_ip_addr ns" by (cases ns) (simp_all add: head_expired_def)
  have same: "waiting ?h ip = waiting ns ip" by (cases ns) (simp_all add: head_expired_def)
  have dist: "distinct (map dn_ip_addr (expired ?h @ unexpired ?h))"
    using assms unfolding expired_unexpired keys .
  have split: "waiting ?h ip = waiting (expired ?h) ip @ waiting (unexpired ?h) ip"
    by (metis expired_unexpired waiting_simps(3))
  have one: "waiting (expired ?h) ip = [] \<or> waiting (unexpired ?h) ip = []"
    using dist waiting_none [of ip "expired ?h"] waiting_none [of ip "unexpired ?h"] by auto
  have gone: "waiting (unexpired ?h) ip = []" if "n \<in> set (expired ?h)" "dn_ip_addr n = ip" for n
    using dist that by (intro waiting_none) auto
  have "waiting (after_expiry ?h) ip = waiting (unexpired ?h) ip @ waiting (to_retry ?h) ip"
    by (simp add: after_expiry_def)
  also have "waiting (to_retry ?h) ip =
      (if \<exists>n \<in> set (expired ?h). dn_ip_addr n = ip \<and> retry_amt n \<noteq> 0 then [] else waiting (expired ?h) ip)"
    using dist unfolding to_retry_def by (subst waiting_same_filter) auto
  finally show ?thesis using gone one split same by auto
qed

lemma after_expiry_head: "after_expiry ns = [] \<or> msec (hd (after_expiry ns)) \<noteq> 0"
proof (cases "unexpired ns")
  case Nil
  then show ?thesis by (cases "to_retry ns") (simp_all add: after_expiry_def rest_of_second_def)
next
  case (Cons n ts)
  then have "msec n \<noteq> 0"
    using hd_dropWhile [of "\<lambda>n. msec n = 0" ns] by (simp add: unexpired_def)
  with Cons show ?thesis by (simp add: after_expiry_def)
qed

lemma itimer_value_nonzero:
  assumes "w \<noteq> 0"
  shows "itimer_value w \<noteq> (0, 0)"
proof
  assume "itimer_value w = (0, 0)"
  then have "unat w * 1000000 div 1000000000 = 0" "unat w * 1000000 mod 1000000000 = 0"
    unfolding itimer_value_def Let_def by blast+
  then have "unat w * 1000000 = 0" by (metis div_mult_mod_eq add_0 mult_0)
  with assms show False by (simp add: unat_eq_zero)
qed

lemma arm_timer_fields [simp]:
  "delta_list (arm_timer r) = delta_list r" "timer_mutex (arm_timer r) = timer_mutex r"
  "sent (arm_timer r) = sent r" "interface_arr (arm_timer r) = interface_arr r"
  by (simp_all add: arm_timer_def)

lemma arm_timer_runs:
  "delta_list r \<noteq> [] \<Longrightarrow> msec (hd (delta_list r)) \<noteq> 0 \<Longrightarrow> timer_left (arm_timer r) \<noteq> (0, 0)"
  by (cases "delta_list r") (simp_all add: arm_timer_def itimer_value_nonzero)

lemma timer_handler_expired:
  assumes ok: "delta_ok (delta_list r)" and free: "\<not> held (timer_mutex r)"
    and conf: "configured (interface_arr r)"
  shows "\<exists>r'. timer_handler r = Inr r' \<and> timer_inv r' \<and> timer_only r r' \<and>
    delta_list r' = after_expiry (head_expired (delta_list r)) \<and>
    sent r' = sent r @ retry_frames r (to_retry (head_expired (delta_list r)))"
proof (cases "delta_list r")
  case Nil
  then have "timer_handler r = Inr r"
    using free by (simp add: timer_handler_def lock_timer_free unlock_timer_def)
  moreover have "timer_inv r" using ok free Nil by (simp add: timer_inv_def)
  ultimately show ?thesis
    using Nil by (simp add: timer_only_def head_expired_def after_expiry_def unexpired_def to_retry_def expired_def)
next
  case (Cons n ns)
  let ?h = "head_expired (delta_list r)"
  from ok Cons have okh: "delta_ok ?h" by (auto simp: delta_ok_def head_expired_def)
  let ?l = "r\<lparr>timer_mutex := (timer_mutex r)\<lparr>held := True\<rparr>, delta_list := ?h\<rparr>"
  let ?r1 = "r\<lparr>delta_list := after_expiry ?h, sent := sent r @ retry_frames r (to_retry ?h)\<rparr>"
  have "handler_loop ?l = Inr (?l\<lparr>
      delta_list := unexpired ?h @ requeued (rest_of_second (unexpired ?h)) (filter (\<lambda>n. retry_amt n = 0) (expired ?h)),
      sent := sent ?l @ retry_frames ?l (filter (\<lambda>n. retry_amt n = 0) (expired ?h))\<rparr>)"
  proof (rule handler_loop_closed)
    show "delta_list ?l = expired ?h @ unexpired ?h" by (simp add: expired_unexpired)
    show "\<forall>n \<in> set (expired ?h). msec n = 0" by (auto simp: expired_def dest: set_takeWhileD)
    show "unexpired ?h = [] \<or> msec (hd (unexpired ?h)) \<noteq> 0"
      using hd_dropWhile [of "\<lambda>n. msec n = 0" ?h] by (auto simp: unexpired_def)
    have "delays (expired ?h @ unexpired ?h) \<le> 1000"
      using okh by (simp only: expired_unexpired delta_ok_def)
    then show "delays (unexpired ?h) \<le> 1000" by simp
  qed (use conf in simp)
  then have "timer_handler r = Inr (arm_timer ?r1)"
    using Cons free
    by (simp add: timer_handler_def lock_timer_free unlock_timer_def arm_timer_def head_expired_def
        after_expiry_def to_retry_def Let_def retry_frames_def request_frame_def request_for_def
        split: list.splits)
  moreover have "timer_inv (arm_timer ?r1)"
    using after_expiry_ok [OF okh] after_expiry_head [of ?h] free arm_timer_runs [of ?r1]
    by (auto simp: timer_inv_def)
  ultimately show ?thesis
    by (auto simp: timer_only_def arm_timer_def)
qed

lemma timer_handler_spec:
  assumes "timer_inv r" and "configured (interface_arr r)"
  shows "\<exists>r'. timer_handler r = Inr r' \<and> timer_inv r' \<and> timer_only r r' \<and>
    delta_list r' = after_expiry (head_expired (delta_list r)) \<and>
    sent r' = sent r @ retry_frames r (to_retry (head_expired (delta_list r)))"
  using assms by (intro timer_handler_expired) (simp_all add: timer_inv_def)

section \<open>Expiries drain the list\<close>

text \<open>\<open>k\<close> expiries one after the other, with nothing else happening.\<close>

fun expiries :: "nat \<Rightarrow> router \<Rightarrow> router res" where
  "expiries 0 r = Inr r"
| "expiries (Suc k) r = ebind (timer_handler r) (expiries k)"

lemma retries_left_append [simp]: "retries_left (ns @ ms) = retries_left ns + retries_left ms"
  by (simp add: retries_left_def)

lemma retries_left_Cons [simp]:
  "retries_left (n # ns) = (if retry_amt n \<ge> 1 then 1 else 2) + retries_left ns"
  by (simp add: retries_left_def)

lemma retries_left_requeued: "retries_left (requeued d ns) = length ns"
  by (induction d ns rule: requeued.induct) (auto simp: retries_left_def)

lemma retries_left_expired: "length (filter (\<lambda>n. retry_amt n = 0) ns) + length ns = retries_left ns"
  by (induction ns) (use unat_u8_zero_iff in \<open>auto simp: retries_left_def\<close>)

lemma after_expiry_retries:
  assumes "ns \<noteq> []"
  shows "retries_left (after_expiry (head_expired ns)) < retries_left ns"
proof -
  let ?h = "head_expired ns"
  have "expired ?h \<noteq> []" using assms by (cases ns) (simp_all add: head_expired_def expired_def)
  then have "length (to_retry ?h) < retries_left (expired ?h)"
    using retries_left_expired [of "expired ?h"] by (cases "expired ?h") (simp_all add: to_retry_def)
  then have "retries_left (after_expiry ?h) < retries_left (expired ?h @ unexpired ?h)"
    by (simp add: after_expiry_def retries_left_requeued)
  also have "\<dots> = retries_left ns"
    using assms unfolding expired_unexpired by (cases ns) (simp_all add: head_expired_def)
  finally show ?thesis .
qed

lemma expiries_drain:
  assumes "timer_inv r" and "configured (interface_arr r)" and "retries_left (delta_list r) \<le> k"
  shows "\<exists>r'. expiries k r = Inr r' \<and> timer_inv r' \<and> timer_only r r' \<and> delta_list r' = []"
  using assms
proof (induction k arbitrary: r)
  case 0
  then show ?case by (cases "delta_list r") (auto simp: timer_only_def split: if_splits)
next
  case (Suc k)
  from timer_handler_spec [OF Suc.prems(1,2)] obtain r1 where
    r1: "timer_handler r = Inr r1" "timer_inv r1" "timer_only r r1"
      "delta_list r1 = after_expiry (head_expired (delta_list r))" by blast
  have "configured (interface_arr r1)"
    using Suc.prems(2) timer_only_simps(1) [OF r1(3)] by simp
  moreover have "retries_left (delta_list r1) \<le> k"
    using after_expiry_retries [of "delta_list r"] Suc.prems(3) r1(4)
    by (cases "delta_list r")
      (simp_all add: head_expired_def after_expiry_def unexpired_def to_retry_def expired_def retries_left_def)
  ultimately obtain r' where "expiries k r1 = Inr r'" "timer_inv r'" "timer_only r1 r'" "delta_list r' = []"
    using Suc.IH [OF r1(2)] by blast
  with r1 show ?case by (auto intro: timer_only_trans)
qed

section \<open>Properties\<close>

text \<open>
  C19: queueing a packet for a next hop succeeds whenever the list is well formed, the table
  of interfaces is the configured one and the lock is free. The packet joins the end of the
  queue of its next hop and no other queue changes; an ARP request goes out exactly when the
  next hop was not yet pending; afterwards the list is well formed, the timer runs and the
  lock is free again.
\<close>

theorem queued_packet_waits:
  assumes "timer_inv r" and "configured (interface_arr r)" and "int_id < 2"
  shows "\<exists>r'. timer_add_packet r pkt int_id dst = Inr r' \<and> timer_inv r' \<and>
    waiting (delta_list r') = (waiting (delta_list r))(dst := waiting (delta_list r) dst @ [pkt]) \<and>
    sent r' = sent r @ (if dst \<in> dn_ip_addr ` set (delta_list r) then []
                        else [(int_id, request_frame r int_id dst)]) \<and>
    delta_list r' \<noteq> [] \<and> timer_left r' \<noteq> (0, 0)"
proof -
  from timer_add_packet_spec [OF assms, of pkt dst] obtain r' where
    r': "timer_add_packet r pkt int_id dst = Inr r'" "timer_inv r'"
      "waiting (delta_list r') = (waiting (delta_list r))(dst := waiting (delta_list r) dst @ [pkt])"
      "sent r' = sent r @ (if dst \<in> dn_ip_addr ` set (delta_list r) then []
                           else [(int_id, request_frame r int_id dst)])"
    by blast
  from r'(3) have "waiting (delta_list r') dst \<noteq> []" by simp
  then have "delta_list r' \<noteq> []" by auto
  with r' show ?thesis by (auto simp: timer_inv_def)
qed

text \<open>Two next hops on the WAN side, the second expiring together with the first.\<close>

definition gateway_pending :: "u8 \<Rightarrow> router" where
  "gateway_pending retried =
     (router_at_start (hashmap_init hashmap_cyclic_hash 9 24) (hashmap_init hashmap_cyclic_hash 7 24) (\<lambda>_. 0))
       \<lparr>delta_list := [\<lparr>msec = 1000, dn_ip_addr = IpAddr 192 168 0 1, pkt_list = [[1], [2]], retry_amt = retried\<rparr>,
                       \<lparr>msec = 0, dn_ip_addr = IpAddr 192 168 0 9, pkt_list = [[3]], retry_amt = 0\<rparr>],
        timer_left := (1, 0)\<rparr>"

lemma gateway_pending_ok:
  "retried \<le> 1 \<Longrightarrow> timer_inv (gateway_pending retried)"
  "configured (interface_arr (gateway_pending retried))"
  by (simp_all add: gateway_pending_def router_at_start_def timer_inv_def delta_ok_def)

theorem queued_packet_waits_witness:
  "\<exists>r'. timer_add_packet (gateway_pending 0) [4] 1 (IpAddr 192 168 0 7) = Inr r' \<and> timer_inv r' \<and>
    waiting (delta_list r') (IpAddr 192 168 0 7) = [[4]] \<and>
    waiting (delta_list r') (IpAddr 192 168 0 1) = [[1], [2]] \<and>
    sent r' = [(1, request_frame (gateway_pending 0) 1 (IpAddr 192 168 0 7))] \<and>
    delta_list r' \<noteq> [] \<and> timer_left r' \<noteq> (0, 0)"
proof -
  have pre: "timer_inv (gateway_pending 0)" "configured (interface_arr (gateway_pending 0))" "(1 :: nat) < 2"
    by (simp_all add: gateway_pending_ok)
  from queued_packet_waits [OF pre, of "[4]" "IpAddr 192 168 0 7"] show ?thesis
    by (auto simp: gateway_pending_def router_at_start_def)
qed



text \<open>
  C20: nothing pending waits for ever. As many expiries as there are attempts left (at most
  two for each pending next hop) empty the list, whatever it holds.
\<close>

theorem pending_drains:
  assumes "timer_inv r" and "configured (interface_arr r)"
  shows "\<exists>r'. expiries (2 * length (delta_list r)) r = Inr r' \<and> delta_list r' = [] \<and> timer_inv r'"
proof -
  have "retries_left ns \<le> 2 * length ns" for ns by (induction ns) (auto simp: retries_left_def)
  with expiries_drain [OF assms] show ?thesis by blast
qed

theorem pending_drains_witness:
  "\<exists>r'. expiries 4 (gateway_pending 0) = Inr r' \<and> delta_list r' = [] \<and> timer_inv r'"
proof -
  have pre: "timer_inv (gateway_pending 0)" "configured (interface_arr (gateway_pending 0))"
    by (simp_all add: gateway_pending_ok)
  have "2 * length (delta_list (gateway_pending 0)) = 4" by (simp add: gateway_pending_def)
  with pending_drains [OF pre] show ?thesis by metis
qed

end
