(* ===== verification/Checksum.thy ===== *)
theory Checksum
  imports Prelude
begin

text \<open>
  \<open>calculate_checksum\<close> of \<open>src/outgoing.c\<close>: the ones' complement checksum of RFC 1071
  over a region, read as little-endian 16-bit words into a 32-bit accumulator.  For an odd
  length it first writes a zero byte \<^emph>\<open>behind\<close> the region.
\<close>

section \<open>The code\<close>

function fold16 :: "u32 \<Rightarrow> u32" where
  "fold16 checksum =
     (if checksum > 0xFFFF then fold16 ((checksum AND 0xFFFF) + drop_bit 16 checksum) else checksum)"
  by pat_completeness auto

fun checksum_loop :: "buf \<Rightarrow> nat \<Rightarrow> nat \<Rightarrow> u32 \<Rightarrow> u32 res" where
  "checksum_loop b p 0 checksum = Inr checksum"
| "checksum_loop b p (Suc n) checksum =
     ebind (rd16 b p) (\<lambda>w. checksum_loop b (p + 2) n (checksum + ucast w))"

lemma and_ffff: "unat ((c :: u32) AND 0xFFFF) = unat c mod 65536"
proof -
  have "(0xFFFF :: u32) = mask 16" by (simp add: mask_eq_exp_minus_1)
  then have "c AND 0xFFFF = take_bit 16 c" by (simp only: take_bit_eq_mask)
  then show ?thesis by (simp only: unsigned_take_bit_eq) (simp add: take_bit_eq_mod)
qed

lemma shift_16: "unat (drop_bit 16 (c :: u32)) = unat c div 65536"
  by (simp only: unat_drop_bit_eq) (simp add: drop_bit_eq_div)

text \<open>One folding step on numbers: smaller, and equal modulo \<open>2^16 - 1\<close>.\<close>

lemma fold_nat_less: "65535 < (x :: nat) \<Longrightarrow> x mod 65536 + x div 65536 < x"
proof -
  assume "65535 < x"
  then have "0 < x div 65536" by (simp add: div_greater_zero_iff)
  then show ?thesis using div_mult_mod_eq [of x 65536] by linarith
qed

lemma fold_nat_mod: "((x :: nat) mod 65536 + x div 65536) mod 65535 = x mod 65535"
proof -
  have "x = (x mod 65536 + x div 65536) + (x div 65536) * 65535"
    using div_mult_mod_eq [of x 65536] by linarith
  then show ?thesis by (metis mod_mult_self1)
qed

lemma fold_nat_pos: "0 < (x :: nat) \<Longrightarrow> 0 < x mod 65536 + x div 65536"
  using div_mult_mod_eq [of x 65536] by (cases "x mod 65536 = 0") auto

lemma unat_u32_less: "unat (c :: u32) < 4294967296"
  using unsigned_less [of c] by simp

lemma unat_fold_step:
  "unat ((c AND 0xFFFF) + drop_bit 16 (c :: u32)) = unat c mod 65536 + unat c div 65536"
proof -
  have "unat c mod 65536 + unat c div 65536 \<le> unat c"
    using div_mult_mod_eq [of "unat c" 65536] by linarith
  then have "unat c mod 65536 + unat c div 65536 < 4294967296" using unat_u32_less [of c] by linarith
  then show ?thesis by (simp add: unat_word_ariths and_ffff shift_16)
qed

termination fold16
proof (relation "measure unat")
  fix c :: u32
  assume "c > 0xFFFF"
  then have "65535 < unat c" by (simp add: word_less_nat_alt)
  then show "((c AND 0xFFFF) + drop_bit 16 c, c) \<in> measure unat"
    unfolding in_measure unat_fold_step by (rule fold_nat_less)
qed simp

declare fold16.simps [simp del]

definition calculate_checksum :: "buf \<Rightarrow> nat \<Rightarrow> nat \<Rightarrow> (buf \<times> u16) res" where
  "calculate_checksum b ptr len =
     ebind (if len mod 2 = 1 then wr8 b (ptr + len) 0 else Inr b) (\<lambda>b1.
     ebind (checksum_loop b1 ptr ((len + 1) div 2) 0) (\<lambda>checksum.
       Inr (b1, NOT (ucast (fold16 checksum)))))"

section \<open>Specification\<close>

text \<open>
  The 16-bit words of a region and their sum.  A region carries a valid checksum (RFC 1071)
  when the ones' complement sum of its words, the checksum included, is all ones: the sum is
  a positive multiple of \<open>2^16 - 1\<close>.
\<close>

definition word_at :: "buf \<Rightarrow> nat \<Rightarrow> nat" where
  "word_at b p = unat (le16 (b ! p) (b ! Suc p))"

definition word_sum :: "buf \<Rightarrow> nat \<Rightarrow> nat \<Rightarrow> nat" where
  "word_sum b ptr n = (\<Sum>i < n. word_at b (ptr + 2 * i))"

definition checksum_valid :: "nat \<Rightarrow> bool" where
  "checksum_valid s \<longleftrightarrow> 0 < s \<and> s mod 65535 = 0"

lemma fold16_spec:
  "unat (fold16 c) \<le> 65535 \<and> unat (fold16 c) mod 65535 = unat c mod 65535 \<and>
   (unat (fold16 c) = 0 \<longleftrightarrow> unat c = 0)"
proof (induction c rule: fold16.induct)
  case (1 c)
  show ?case
  proof (cases "c > 0xFFFF")
    case True
    then have big: "65535 < unat c" by (simp add: word_less_nat_alt)
    then have pos: "unat c mod 65536 + unat c div 65536 \<noteq> 0" using fold_nat_pos [of "unat c"] by linarith
    have "fold16 c = fold16 ((c AND 0xFFFF) + drop_bit 16 c)"
      using True by (subst fold16.simps) simp
    with "1.IH" [OF True] pos big show ?thesis
      unfolding unat_fold_step fold_nat_mod by simp
  next
    case False
    then have "fold16 c = c" by (subst fold16.simps) simp
    with False show ?thesis by (simp add: word_less_nat_alt not_less)
  qed
qed

lemma word_at_bound: "word_at b p \<le> 65535"
  using unat_u8_less [of "b ! p"] unat_u8_less [of "b ! Suc p"] by (simp add: word_at_def unat_le16)

lemma word_sum_bound: "word_sum b ptr n \<le> n * 65535"
  unfolding word_sum_def using sum_bounded_above [of "{..<n}" "\<lambda>i. word_at b (ptr + 2 * i)" 65535]
  by (simp add: word_at_bound)

lemma word_sum_Suc_shift:
  "word_sum b ptr (Suc n) = word_at b ptr + word_sum b (ptr + 2) n"
  unfolding word_sum_def by (subst sum.lessThan_Suc_shift) (simp add: add.assoc)

lemma checksum_loop_spec:
  "p + 2 * n \<le> length b \<Longrightarrow> unat acc + n * 65535 < 4294967296 \<Longrightarrow>
   \<exists>c. checksum_loop b p n acc = Inr c \<and> unat c = unat acc + word_sum b p n"
proof (induction n arbitrary: p acc)
  case 0
  then show ?case by (simp add: word_sum_def)
next
  case (Suc n)
  let ?w = "le16 (b ! p) (b ! Suc p)"
  have w: "unat ?w \<le> 65535" using word_at_bound [of b p] by (simp add: word_at_def)
  then have "unat (ucast ?w :: u32) = unat ?w"
    by (simp add: unsigned_ucast_eq take_bit_nat_eq_self)
  then have acc: "unat (acc + ucast ?w) = unat acc + unat ?w"
    using Suc.prems(2) w by (simp add: unat_word_ariths)
  then have "unat (acc + ucast ?w) + n * 65535 < 4294967296"
    using Suc.prems(2) w by simp
  from Suc.IH [OF _ this, of "p + 2"] Suc.prems(1) obtain c where
    "checksum_loop b (p + 2) n (acc + ucast ?w) = Inr c"
    "unat c = unat (acc + ucast ?w) + word_sum b (p + 2) n" by auto
  with Suc.prems(1) acc show ?case
    by (auto simp: rd16_ok word_sum_Suc_shift word_at_def)
qed

text \<open>The region whose words are summed: padded by the zero byte when its length is odd.\<close>

definition padded :: "buf \<Rightarrow> nat \<Rightarrow> nat \<Rightarrow> buf" where
  "padded b ptr len = (if len mod 2 = 1 then b[ptr + len := 0] else b)"

lemma length_padded [simp]: "length (padded b ptr len) = length b"
  by (simp add: padded_def)

lemma unat_not16: "unat (NOT (w :: u16)) = 65535 - unat w"
proof -
  have "NOT w = - 1 - w" by (simp add: not_eq_complement)
  moreover have "w \<le> - 1" by (rule word_order.extremum)
  ultimately have "unat (NOT w) = unat (- 1 :: u16) - unat w" by (simp only: unat_sub)
  then show ?thesis by (simp add: unsigned_minus_1_eq_mask mask_eq_exp_minus_1)
qed

lemma calculate_checksum_spec:
  assumes "ptr + len + len mod 2 \<le> length b" and "len \<le> 65536"
  shows "\<exists>c. calculate_checksum b ptr len = Inr (padded b ptr len, c) \<and>
    (let s = word_sum (padded b ptr len) ptr ((len + 1) div 2)
     in (unat c + s) mod 65535 = 0 \<and> unat c + s > 0 \<and> (s > 0 \<longrightarrow> unat c \<noteq> 65535))"
proof -
  let ?b = "padded b ptr len"
  let ?n = "(len + 1) div 2"
  have "2 * ?n = len + len mod 2" by presburger
  then have "ptr + 2 * ?n \<le> length ?b" using assms(1) by simp
  moreover have "?n * 65535 < 4294967296" using assms(2) by linarith
  ultimately obtain c where
    c: "checksum_loop ?b ptr ?n 0 = Inr c" "unat c = word_sum ?b ptr ?n"
    using checksum_loop_spec [of ptr ?n ?b 0] by auto
  let ?f = "fold16 c"
  have f: "unat ?f \<le> 65535" "unat ?f mod 65535 = unat c mod 65535" "unat ?f = 0 \<longleftrightarrow> unat c = 0"
    using fold16_spec [of c] by auto
  then have u: "unat (ucast ?f :: u16) = unat ?f"
    by (simp add: unsigned_ucast_eq take_bit_nat_eq_self)
  have "calculate_checksum b ptr len = Inr (?b, NOT (ucast ?f))"
  proof (cases "len mod 2 = 1")
    case True
    with assms(1) c(1) show ?thesis by (simp add: calculate_checksum_def padded_def wr8_ok)
  next
    case False
    with c(1) show ?thesis by (simp add: calculate_checksum_def padded_def)
  qed
  moreover have "unat (NOT (ucast ?f :: u16)) = 65535 - unat ?f" by (simp add: unat_not16 u)
  moreover have "(65535 - unat ?f + unat c) mod 65535 = 0"
  proof -
    have "(65535 - unat ?f + unat c) mod 65535 = (65535 - unat ?f + unat c mod 65535) mod 65535"
      by (simp add: mod_simps)
    also have "\<dots> = (65535 - unat ?f + unat ?f mod 65535) mod 65535" by (simp only: f(2))
    also have "\<dots> = (65535 - unat ?f + unat ?f) mod 65535" by (simp add: mod_simps)
    finally show ?thesis using f(1) by simp
  qed
  moreover have "65535 - unat ?f + unat c > 0" using f(1,3) by (cases "unat c = 0") auto
  moreover have "unat c > 0 \<longrightarrow> 65535 - unat ?f \<noteq> 65535" using f(1,3) by auto
  ultimately show ?thesis using c(2) by (auto simp: Let_def)
qed

text \<open>An odd region that ends where its object ends: the padding byte is written outside.\<close>

lemma calculate_checksum_overflow:
  "len mod 2 = 1 \<Longrightarrow> length b \<le> ptr + len \<Longrightarrow> calculate_checksum b ptr len = Inl OutOfBounds"
  by (simp add: calculate_checksum_def wr8_def)

end
