(* ===== verification/Outgoing.thy ===== *)
theory Outgoing
  imports Timer Checksum
begin

text \<open>
  \<open>send_ipv4\<close> of \<open>src/outgoing.c\<close>, the end of every forwarding path: it fills in the
  IP, UDP and TCP checksums in place, chooses the next hop, and either writes the frame or
  queues a copy of the packet until the next hop's MAC address is known.
\<close>

section \<open>Checksums\<close>

definition fill_ip_checksum :: "buf \<Rightarrow> buf res" where
  "fill_ip_checksum pkt =
     ebind (wr16 pkt 10 0) (\<lambda>p1.
     ebind (header_len p1) (\<lambda>ihl.
     ebind (calculate_checksum p1 0 ihl) (\<lambda>(p2, c).
       wr16 p2 10 c)))"

text \<open>\<open>struct ip_pseudo_hdr\<close> of a packet: addresses, zero, protocol, length as stored.\<close>

definition pseudo_hdr :: "buf \<Rightarrow> u16 \<Rightarrow> buf res" where
  "pseudo_hdr pkt len =
     ebind (rd_ip pkt 12) (\<lambda>addr_src.
     ebind (rd_ip pkt 16) (\<lambda>addr_dst.
     ebind (rd8 pkt 9) (\<lambda>proto.
       Inr (ip_bytes addr_src @ ip_bytes addr_dst @ [0, proto, lo8 len, hi8 len]))))"

text \<open>
  The part both transport protocols share: store the complement of the pseudo header's
  checksum in the checksum field, then take the checksum of the segment at \<open>seg\<close>.
\<close>

definition transport_checksum :: "buf \<Rightarrow> nat \<Rightarrow> nat \<Rightarrow> u16 \<Rightarrow> nat \<Rightarrow> (buf \<times> u16) res" where
  "transport_checksum pkt seg field len_field len =
     ebind (pseudo_hdr pkt len_field) (\<lambda>ph.
     ebind (calculate_checksum ph 0 12) (\<lambda>(_, pseudo_checksum).
     ebind (wr16 pkt (seg + field) (NOT pseudo_checksum)) (\<lambda>p1.
       calculate_checksum p1 seg len)))"

definition fill_udp_checksum :: "buf \<Rightarrow> buf res" where
  "fill_udp_checksum pkt =
     ebind (header_len pkt) (\<lambda>udp_pkt.
     ebind (rd16 pkt (udp_pkt + 6)) (\<lambda>old.
       if old \<noteq> 0 then
         ebind (rd16 pkt (udp_pkt + 4)) (\<lambda>udp_length.
         ebind (transport_checksum pkt udp_pkt 6 udp_length (unat (ntohs udp_length))) (\<lambda>(p1, checksum).
           wr16 p1 (udp_pkt + 6) (if checksum = 0 then 0xffff else checksum)))
       else Inr pkt))"

definition fill_tcp_checksum :: "buf \<Rightarrow> buf res" where
  "fill_tcp_checksum pkt =
     ebind (header_len pkt) (\<lambda>tcp_pkt.
     ebind (rd16 pkt 2) (\<lambda>total_length.
     let tcp_len = ntohs total_length - of_nat tcp_pkt in
     ebind (transport_checksum pkt tcp_pkt 16 (htons tcp_len) (unat tcp_len)) (\<lambda>(p1, checksum).
       wr16 p1 (tcp_pkt + 16) checksum)))"

definition fill_checksums :: "buf \<Rightarrow> buf res" where
  "fill_checksums pkt =
     ebind (fill_ip_checksum pkt) (\<lambda>p1.
     ebind (rd8 p1 9) (\<lambda>transport_proto.
       if transport_proto = 0x11 then fill_udp_checksum p1
       else if transport_proto = 0x06 then fill_tcp_checksum p1
       else Inr p1))"

section \<open>Next hop and transmission\<close>

definition local_dst :: "router \<Rightarrow> nat \<Rightarrow> ip_addr \<Rightarrow> ip_addr res" where
  "local_dst r int_id dst_ip =
     ebind (interface_get_side (interface_arr r) int_id) (\<lambda>s.
       if s = INT_SIDE_LAN then Inr dst_ip
       else if s = INT_SIDE_WAN then
         let subnet_mask = create_subnet_mask (of_nat (wan_cidr_prefix_len (wan r)));
             dst_masked = apply_mask subnet_mask dst_ip
         in Inr (if ip_addr_equals dst_masked (wan_network_ip (wan r)) then dst_ip
                 else wan_gateway_ip (wan r))
       else Inl Uninitialised)"

text \<open>The result is the state and the caller's packet, whose checksums have been filled in.\<close>

definition send_ipv4 :: "router \<Rightarrow> buf \<Rightarrow> (router \<times> buf) res" where
  "send_ipv4 r pkt =
     ebind (rd_ip pkt 16) (\<lambda>dst_ip.
     ebind (get_interface_for_ip (interface_arr r) dst_ip) (\<lambda>int_id.
     ebind (fill_checksums pkt) (\<lambda>pkt1.
     ebind (local_dst r int_id dst_ip) (\<lambda>local_dst_ip.
     ebind (has_mac_for_ip (macs r) local_dst_ip) (\<lambda>(d1, known).
       let r1 = r\<lparr>macs := d1\<rparr> in
       if \<not> known then
         ebind (rd16 pkt1 2) (\<lambda>total_length.
         ebind (rd_bytes pkt1 0 (unat (ntohs total_length))) (\<lambda>new_pkt.
         ebind (timer_add_packet r1 new_pkt int_id local_dst_ip) (\<lambda>r2.
           Inr (r2, pkt1))))
       else
         ebind (interface_get_mac_addr (interface_arr r1) int_id) (\<lambda>src_mac.
         ebind (get_mac_from_ip (macs r1) local_dst_ip) (\<lambda>(d2, dst_mac).
         let r2 = r1\<lparr>macs := d2\<rparr> in
         ebind (interface_get_type (interface_arr r2) int_id) (\<lambda>t.
           if t = INT_TYPE_ETHER then
             ebind (rd16 pkt1 2) (\<lambda>total_length.
             ebind (rd_bytes pkt1 0 (unat (ntohs total_length))) (\<lambda>payload.
               Inr (write_frame r2 int_id (ether_frame dst_mac src_mac 0x0800 payload), pkt1)))
           else Inr (r2, pkt1)))))))))"

section \<open>What the checksum routines compute\<close>

text \<open>A 16-bit field stored at an even distance from the start of the region.\<close>

definition put16 :: "buf \<Rightarrow> nat \<Rightarrow> u16 \<Rightarrow> buf" where
  "put16 b p w = b[p := lo8 w, Suc p := hi8 w]"

lemma length_put16 [simp]: "length (put16 b p w) = length b"
  by (simp add: put16_def)

lemma nth_put16 [layout_simps]:
  "Suc p < length b \<Longrightarrow> put16 b p w ! i = (if i = p then lo8 w else if i = Suc p then hi8 w else b ! i)"
  by (simp add: put16_def nth_list_update)

lemma wr16_put16: "Suc p < length b \<Longrightarrow> wr16 b p w = Inr (put16 b p w)"
  by (simp add: put16_def wr16_ok)

lemma word_at_put16 [layout_simps]: "Suc p < length b \<Longrightarrow> word_at (put16 b p w) p = unat w"
  by (simp add: word_at_def nth_put16)

lemma word_sum_put16:
  assumes "p = seg + 2 * k" and "k < n" and "Suc p < length b"
  shows "word_sum (put16 b p w) seg n + word_at b p = word_sum b seg n + unat w"
proof -
  have other: "word_at (put16 b p w) (seg + 2 * i) = word_at b (seg + 2 * i)" if "i \<noteq> k" for i
  proof -
    have "seg + 2 * i \<noteq> p" "seg + 2 * i \<noteq> Suc p" "Suc (seg + 2 * i) \<noteq> p" "Suc (seg + 2 * i) \<noteq> Suc p"
      using that assms(1) by presburger+
    then show ?thesis using assms(3) by (simp add: word_at_def nth_put16)
  qed
  let ?rest = "\<Sum>i \<in> {..<n} - {k}. word_at b (seg + 2 * i)"
  have "word_sum b seg n = word_at b p + ?rest"
    using assms(1,2) by (simp add: word_sum_def sum.remove)
  moreover have "word_sum (put16 b p w) seg n = unat w + ?rest"
    using assms other by (simp add: word_sum_def sum.remove word_at_put16)
  ultimately show ?thesis by simp
qed

text \<open>
  Store \<open>w0\<close> in the field, take the checksum, store it (or \<open>0xffff\<close> for 0): the words of
  the region then make up for \<open>w0\<close>.
\<close>

lemma checksum_stored:
  assumes "seg + len + len mod 2 \<le> length b" and "len \<le> 65536"
    and "p = seg + 2 * k" and "2 * k + 2 \<le> len"
  shows "\<exists>c. calculate_checksum (put16 b p w0) seg len = Inr (padded (put16 b p w0) seg len, c) \<and>
    (\<forall>c'. c' = c \<or> (c = 0 \<and> c' = 0xffff) \<longrightarrow>
       checksum_valid (unat w0 + word_sum (put16 (padded (put16 b p w0) seg len) p c') seg ((len + 1) div 2)) \<or>
       unat w0 + word_sum (put16 (padded (put16 b p w0) seg len) p c') seg ((len + 1) div 2) = 0)"
proof -
  let ?b = "put16 b p w0"
  let ?p = "padded ?b seg len"
  let ?n = "(len + 1) div 2"
  have len: "Suc p < length b" "p + 1 < seg + len" using assms by simp_all
  obtain c where c: "calculate_checksum ?b seg len = Inr (?p, c)"
      "(unat c + word_sum ?p seg ?n) mod 65535 = 0"
    using calculate_checksum_spec [of seg len ?b] assms(1,2) by (auto simp: Let_def)
  have at: "word_at ?p p = unat w0"
    using len by (simp add: padded_def word_at_def nth_put16)
  have k: "k < ?n" using assms(4) by linarith
  have "checksum_valid (unat w0 + word_sum (put16 ?p p c') seg ?n) \<or> unat w0 + word_sum (put16 ?p p c') seg ?n = 0"
    if "c' = c \<or> (c = 0 \<and> c' = 0xffff)" for c'
  proof -
    have "word_sum (put16 ?p p c') seg ?n + unat w0 = word_sum ?p seg ?n + unat c'"
      using word_sum_put16 [OF assms(3) k, of ?p c'] len at by simp
    moreover have "(unat c' + word_sum ?p seg ?n) mod 65535 = 0"
    proof (cases "c' = c")
      case False
      with that have "c = 0" "c' = 0xffff" by auto
      with c(2) show ?thesis by (simp add: mod_simps)
    qed (use c(2) in simp)
    ultimately show ?thesis by (auto simp: checksum_valid_def add.commute)
  qed
  with c(1) show ?thesis by blast
qed

lemma hlen_put16 [simp]: "0 < p \<Longrightarrow> Suc p < length b \<Longrightarrow> hlen (put16 b p w) = hlen b"
  by (simp add: hlen_def nth_put16)

lemma total_len_put16 [simp]: "3 < p \<Longrightarrow> Suc p < length b \<Longrightarrow> total_len (put16 b p w) = total_len b"
  by (simp add: total_len_def nth_put16)

lemma wf_pkt_put16 [simp]: "3 < p \<Longrightarrow> Suc p < length b \<Longrightarrow> wf_pkt (put16 b p w) = wf_pkt b"
  by (simp add: wf_pkt_def)

lemma put16_put16 [simp]: "put16 (put16 b p v) p w = put16 b p w"
proof -
  have "p \<noteq> Suc p" by simp
  then show ?thesis by (simp add: put16_def list_update_swap)
qed

lemma fill_ip_checksum_spec:
  assumes "wf_pkt pkt"
  shows "\<exists>c. fill_ip_checksum pkt = Inr (put16 pkt 10 c) \<and>
    checksum_valid (word_sum (put16 pkt 10 c) 0 (hlen pkt div 2))"
proof -
  have len: "20 \<le> hlen pkt" "hlen pkt \<le> length pkt" "20 \<le> length pkt"
    using assms by (auto simp: wf_pkt_def)
  have even: "hlen pkt mod 2 = 0" by (rule hlen_bounds)
  have ok: "0 + hlen pkt + hlen pkt mod 2 \<le> length pkt" using len even by simp
  have small: "hlen pkt \<le> 65536" using hlen_bounds(1) [of pkt] by simp
  obtain c where c: "calculate_checksum (put16 pkt 10 0) 0 (hlen pkt) = Inr (padded (put16 pkt 10 0) 0 (hlen pkt), c)"
    "checksum_valid (word_sum (put16 (padded (put16 pkt 10 0) 0 (hlen pkt)) 10 c) 0 ((hlen pkt + 1) div 2)) \<or>
     word_sum (put16 (padded (put16 pkt 10 0) 0 (hlen pkt)) 10 c) 0 ((hlen pkt + 1) div 2) = 0"
    using checksum_stored [OF ok small, of 10 5 0] len by auto
  have pad: "padded (put16 pkt 10 0) 0 (hlen pkt) = put16 pkt 10 0" using even by (simp add: padded_def)
  have n: "(hlen pkt + 1) div 2 = hlen pkt div 2" using even by presburger
  have wf: "wf_pkt (put16 pkt 10 0)" using assms len by simp
  have "fill_ip_checksum pkt = Inr (put16 pkt 10 c)"
    using len c(1) header_len_wf [OF wf] by (simp add: fill_ip_checksum_def wr16_put16 pad)
  moreover have "0 < word_sum (put16 pkt 10 c) 0 (hlen pkt div 2)"
  proof -
    have "pkt ! 0 AND 0x0F \<noteq> 0" using len(1) by (auto simp: hlen_def)
    then have "pkt ! 0 \<noteq> 0" by auto
    then have "0 < word_at (put16 pkt 10 c) 0"
      using len by (simp add: word_at_def nth_put16 unat_le16 unat_gt_0)
    moreover have "0 < hlen pkt div 2" using len by simp
    ultimately show ?thesis unfolding word_sum_def by (subst sum_pos2) auto
  qed
  ultimately show ?thesis using c(2) unfolding pad n put16_put16 by (metis less_irrefl)
qed

text \<open>The ones' complement sum of the pseudo header.\<close>

definition pseudo_bytes :: "buf \<Rightarrow> u16 \<Rightarrow> buf" where
  "pseudo_bytes pkt len =
     ip_bytes (ip_src pkt) @ ip_bytes (ip_dst pkt) @ [0, ip_proto pkt, lo8 len, hi8 len]"

definition pseudo_sum :: "buf \<Rightarrow> u16 \<Rightarrow> nat" where
  "pseudo_sum pkt len = word_sum (pseudo_bytes pkt len) 0 6"

lemma length_pseudo_bytes [simp]: "length (pseudo_bytes pkt len) = 12"
  by (simp add: pseudo_bytes_def)

lemma pseudo_hdr_ok [res_simps]: "20 \<le> length pkt \<Longrightarrow> pseudo_hdr pkt len = Inr (pseudo_bytes pkt len)"
  by (simp add: pseudo_hdr_def pseudo_bytes_def rd_ip_ok rd8_ok ip_src_def ip_dst_def ip_proto_def)

lemma pseudo_bytes_unchanged:
  "(\<And>i. 9 \<le> i \<Longrightarrow> i < 20 \<Longrightarrow> i \<noteq> 10 \<Longrightarrow> i \<noteq> 11 \<Longrightarrow> q ! i = p ! i) \<Longrightarrow> pseudo_bytes q len = pseudo_bytes p len"
  by (simp add: pseudo_bytes_def ip_src_def ip_dst_def ip_proto_def ip_at_def)

lemma pseudo_sum_pos: "ip_proto pkt \<noteq> 0 \<Longrightarrow> 0 < pseudo_sum pkt len"
proof -
  assume p: "ip_proto pkt \<noteq> 0"
  have "pseudo_bytes pkt len ! 8 = 0" "pseudo_bytes pkt len ! 9 = ip_proto pkt"
    by (simp_all add: pseudo_bytes_def nth_append)
  then have "0 < word_at (pseudo_bytes pkt len) 8"
    using p by (simp add: word_at_def unat_le16 unat_gt_0)
  then have "0 < (\<Sum>i<6. word_at (pseudo_bytes pkt len) (0 + 2 * i))"
    by (intro sum_pos2 [of _ 4]) auto
  then show ?thesis by (simp add: pseudo_sum_def word_sum_def)
qed

lemma unat_not16_mod:
  assumes "(unat (c :: u16) + s) mod 65535 = 0"
  shows "unat (NOT c) mod 65535 = s mod 65535"
proof -
  have c: "unat c \<le> 65535" using unat_u16_less [of c] by simp
  then have "unat (NOT c) + (unat c + s) = s + 65535" by (simp add: unat_not16)
  then have "(unat (NOT c) + (unat c + s)) mod 65535 = s mod 65535" by (simp only: mod_add_self2)
  with assms show ?thesis by (metis add.right_neutral mod_add_right_eq)
qed

lemma transport_checksum_spec:
  assumes "20 \<le> length pkt" and "seg + len + len mod 2 \<le> length pkt" and "len \<le> 65536"
    and "field mod 2 = 0" and "field + 2 \<le> len" and "ip_proto pkt \<noteq> 0"
    and b: "b = (\<lambda>w. padded (put16 pkt (seg + field) w) seg len)"
  shows "\<exists>w c. transport_checksum pkt seg field len_field len = Inr (b w, c) \<and>
    (\<forall>c'. c' = c \<or> (c = 0 \<and> c' = 0xffff) \<longrightarrow>
       checksum_valid (pseudo_sum pkt len_field +
         word_sum (put16 (b w) (seg + field) c') seg ((len + 1) div 2)))"
proof -
  let ?ph = "pseudo_bytes pkt len_field"
  have "padded ?ph 0 12 = ?ph" by (simp add: padded_def)
  then obtain pc where pc: "calculate_checksum ?ph 0 12 = Inr (?ph, pc)"
      "(unat pc + pseudo_sum pkt len_field) mod 65535 = 0"
    using calculate_checksum_spec [of 0 12 ?ph] by (auto simp: Let_def pseudo_sum_def)
  let ?w = "NOT pc"
  have w: "unat ?w mod 65535 = pseudo_sum pkt len_field mod 65535"
    using pc(2) by (rule unat_not16_mod)
  obtain k where k: "field = 2 * k" using assms(4) by (metis mod_0_imp_dvd dvd_def)
  from checksum_stored [OF assms(2,3), of "seg + field" k ?w] k assms(5) obtain c where
    c: "calculate_checksum (put16 pkt (seg + field) ?w) seg len = Inr (b ?w, c)"
      "\<And>c'. c' = c \<or> (c = 0 \<and> c' = 0xffff) \<Longrightarrow>
         (unat ?w + word_sum (put16 (b ?w) (seg + field) c') seg ((len + 1) div 2)) mod 65535 = 0"
    unfolding b by (fastforce simp: checksum_valid_def)
  have "checksum_valid (pseudo_sum pkt len_field + word_sum (put16 (b ?w) (seg + field) c') seg ((len + 1) div 2))"
    if "c' = c \<or> (c = 0 \<and> c' = 0xffff)" for c'
    using c(2) [OF that] w pseudo_sum_pos [OF assms(6), of len_field]
    unfolding checksum_valid_def by (metis add_is_0 mod_add_left_eq neq0_conv)
  moreover have "transport_checksum pkt seg field len_field len = Inr (b ?w, c)"
    using assms(1,2,5) pc(1) c(1) by (simp add: transport_checksum_def pseudo_hdr_ok wr16_put16)
  ultimately show ?thesis by blast
qed

section \<open>Well-formed transport segments\<close>

text \<open>
  What the checksum routines rely on, beside \<open>wf_pkt\<close>: the UDP length covers its header,
  and the region, with a padding byte if its length is odd, lies within the object.  For TCP
  the region is the rest of the packet, which must hold the checksum field.
\<close>

definition udp_len :: "buf \<Rightarrow> nat" where
  "udp_len pkt = unat (ntohs (le16 (pkt ! (hlen pkt + 4)) (pkt ! (hlen pkt + 5))))"

definition tcp_len :: "buf \<Rightarrow> nat" where
  "tcp_len pkt = total_len pkt - hlen pkt"

definition udp_cksum :: "buf \<Rightarrow> u16" where
  "udp_cksum pkt = le16 (pkt ! (hlen pkt + 6)) (pkt ! (hlen pkt + 7))"

definition segment_fits :: "buf \<Rightarrow> nat \<Rightarrow> bool" where
  "segment_fits pkt len \<longleftrightarrow> hlen pkt + len + len mod 2 \<le> length pkt"

definition transport_ok :: "buf \<Rightarrow> bool" where
  "transport_ok pkt \<longleftrightarrow>
     (ip_proto pkt = 17 \<longrightarrow> hlen pkt + 8 \<le> length pkt \<and>
        (udp_cksum pkt \<noteq> 0 \<longrightarrow> 8 \<le> udp_len pkt \<and> segment_fits pkt (udp_len pkt))) \<and>
     (ip_proto pkt = 6 \<longrightarrow> 18 \<le> tcp_len pkt \<and> segment_fits pkt (tcp_len pkt))"

lemma fill_udp_checksum_spec:
  assumes "20 \<le> hlen p" and "hlen p + 8 \<le> length p" and "ip_proto p = 17"
    and "udp_cksum p \<noteq> 0 \<Longrightarrow> 8 \<le> udp_len p \<and> segment_fits p (udp_len p)"
  shows "if udp_cksum p = 0 then fill_udp_checksum p = Inr p
    else \<exists>w c. fill_udp_checksum p = Inr (put16 (padded (put16 p (hlen p + 6) w) (hlen p) (udp_len p)) (hlen p + 6) c) \<and>
      c \<noteq> 0 \<and>
      checksum_valid (pseudo_sum p (htons (of_nat (udp_len p))) +
        word_sum (put16 (padded (put16 p (hlen p + 6) w) (hlen p) (udp_len p)) (hlen p + 6) c)
          (hlen p) ((udp_len p + 1) div 2))"
proof -
  have hl: "header_len p = Inr (hlen p)"
    using assms(2) by (subst header_len_def, subst rd8_ok) (auto simp: hlen_def)
  have field: "rd16 p (hlen p + 6) = Inr (udp_cksum p)" "rd16 p (hlen p + 4) = Inr (le16 (p ! (hlen p + 4)) (p ! (hlen p + 5)))"
    using assms(2) by (simp_all add: rd16_ok udp_cksum_def add.commute)
  show ?thesis
  proof (cases "udp_cksum p = 0")
    case True
    with hl field show ?thesis by (simp add: fill_udp_checksum_def)
  next
    case False
    note fits = assms(4) [OF False]
    have lenf: "htons (of_nat (udp_len p)) = le16 (p ! (hlen p + 4)) (p ! (hlen p + 5))"
      by (simp add: udp_len_def del: ntohs_le16)
    have small: "udp_len p \<le> 65536"
      using unat_u16_less [of "ntohs (le16 (p ! (hlen p + 4)) (p ! (hlen p + 5)))"]
      by (simp add: udp_len_def)
    let ?b = "\<lambda>w. padded (put16 p (hlen p + 6) w) (hlen p) (udp_len p)"
    obtain w c where wc:
      "transport_checksum p (hlen p) 6 (le16 (p ! (hlen p + 4)) (p ! (hlen p + 5))) (udp_len p) = Inr (?b w, c)"
      "\<And>c'. c' = c \<or> (c = 0 \<and> c' = 0xffff) \<Longrightarrow>
       checksum_valid (pseudo_sum p (le16 (p ! (hlen p + 4)) (p ! (hlen p + 5))) +
         word_sum (put16 (?b w) (hlen p + 6) c') (hlen p) ((udp_len p + 1) div 2))"
      using transport_checksum_spec [of p "hlen p" "udp_len p" 6 ?b "le16 (p ! (hlen p + 4)) (p ! (hlen p + 5))"]
        assms(1-3) fits small by (auto simp: segment_fits_def)
    let ?c = "if c = 0 then 0xffff else c"
    have "fill_udp_checksum p = Inr (put16 (?b w) (hlen p + 6) ?c)"
      using hl field False wc(1) assms(2)
      by (simp add: fill_udp_checksum_def wr16_put16 udp_len_def)
    moreover have "?c \<noteq> 0" by simp
    moreover have "?c = c \<or> (c = 0 \<and> ?c = 0xffff)" by simp
    note wc(2) [OF this]
    ultimately show ?thesis unfolding if_not_P [OF False] lenf by blast
  qed
qed

lemma fill_tcp_checksum_spec:
  assumes "wf_pkt p" and "ip_proto p = 6" and "18 \<le> tcp_len p" and "segment_fits p (tcp_len p)"
  shows "\<exists>w c. fill_tcp_checksum p = Inr (put16 (padded (put16 p (hlen p + 16) w) (hlen p) (tcp_len p)) (hlen p + 16) c) \<and>
      checksum_valid (pseudo_sum p (htons (of_nat (tcp_len p))) +
        word_sum (put16 (padded (put16 p (hlen p + 16) w) (hlen p) (tcp_len p)) (hlen p + 16) c)
          (hlen p) ((tcp_len p + 1) div 2))"
proof -
  have len: "20 \<le> length p" "hlen p \<le> total_len p" "total_len p \<le> length p"
    using assms(1) wf_pkt_length by (auto simp: wf_pkt_def)
  have tl: "total_len p < 65536" by (rule total_len_bound)
  let ?t = "ntohs (le16 (p ! 2) (p ! 3)) - of_nat (hlen p)"
  have "(of_nat (hlen p) :: u16) \<le> ntohs (le16 (p ! 2) (p ! 3))"
    using len(2) hlen_bounds(1) [of p]
    by (simp add: word_le_nat_alt total_len_def unsigned_of_nat take_bit_nat_eq_self)
  then have t: "unat ?t = tcp_len p"
    using hlen_bounds(1) [of p]
    by (simp add: unat_sub total_len_def tcp_len_def unsigned_of_nat take_bit_nat_eq_self)
  then have tw: "of_nat (tcp_len p) = ?t" by (simp flip: t)
  let ?b = "\<lambda>w. padded (put16 p (hlen p + 16) w) (hlen p) (tcp_len p)"
  have small: "tcp_len p \<le> 65536" using tl by (simp add: tcp_len_def)
  obtain w c where wc:
    "transport_checksum p (hlen p) 16 (htons ?t) (tcp_len p) = Inr (?b w, c)"
    "checksum_valid (pseudo_sum p (htons ?t) +
         word_sum (put16 (?b w) (hlen p + 16) c) (hlen p) ((tcp_len p + 1) div 2))"
    using transport_checksum_spec [of p "hlen p" "tcp_len p" 16 ?b "htons ?t"]
      assms len small by (auto simp: segment_fits_def)
  have "rd16 p 2 = Inr (le16 (p ! 2) (p ! 3))" using len by (simp add: rd16_ok)
  then have "fill_tcp_checksum p = Inr (put16 (?b w) (hlen p + 16) c)"
    using header_len_wf [OF assms(1)] wc(1) t assms(3,4) len
    by (simp add: fill_tcp_checksum_def wr16_put16 tcp_len_def Let_def segment_fits_def del: ntohs_le16)
  with wc(2) tw show ?thesis by auto
qed

text \<open>
  The bytes \<open>fill_checksums\<close> may change: the checksum fields and, behind an odd segment,
  the padding byte.
\<close>

definition checksum_bytes :: "buf \<Rightarrow> nat set" where
  "checksum_bytes p = {10, 11} \<union>
     (if ip_proto p = 17 then {hlen p + 6, hlen p + 7, hlen p + udp_len p}
      else if ip_proto p = 6 then {hlen p + 16, hlen p + 17, hlen p + tcp_len p} else {})"

definition transport_checksum_ok :: "buf \<Rightarrow> bool" where
  "transport_checksum_ok q \<longleftrightarrow>
     (ip_proto q = 17 \<longrightarrow> udp_cksum q \<noteq> 0 \<longrightarrow>
        checksum_valid (pseudo_sum q (htons (of_nat (udp_len q))) +
          word_sum q (hlen q) ((udp_len q + 1) div 2))) \<and>
     (ip_proto q = 6 \<longrightarrow>
        checksum_valid (pseudo_sum q (htons (of_nat (tcp_len q))) +
          word_sum q (hlen q) ((tcp_len q + 1) div 2)))"

definition ip_checksum_ok :: "buf \<Rightarrow> bool" where
  "ip_checksum_ok q \<longleftrightarrow> checksum_valid (word_sum q 0 (hlen q div 2))"

definition same_header :: "buf \<Rightarrow> buf \<Rightarrow> bool" where
  "same_header p q \<longleftrightarrow> length q = length p \<and> (\<forall>i < 20. i \<noteq> 10 \<longrightarrow> i \<noteq> 11 \<longrightarrow> q ! i = p ! i)"

lemma same_header_fields:
  assumes "same_header p q"
  shows "hlen q = hlen p" "total_len q = total_len p" "ip_proto q = ip_proto p" "wf_pkt q = wf_pkt p"
    "ip_src q = ip_src p" "ip_dst q = ip_dst p" "tcp_len q = tcp_len p" "length q = length p"
    "pseudo_sum q len = pseudo_sum p len"
proof -
  show "hlen q = hlen p" "total_len q = total_len p" "ip_proto q = ip_proto p"
    "ip_src q = ip_src p" "ip_dst q = ip_dst p" "length q = length p"
    using assms by (simp_all add: same_header_def hlen_def total_len_def ip_proto_def ip_src_def ip_dst_def ip_at_def)
  then show "wf_pkt q = wf_pkt p" "tcp_len q = tcp_len p" "pseudo_sum q len = pseudo_sum p len"
    by (simp_all add: wf_pkt_def tcp_len_def pseudo_sum_def pseudo_bytes_def)
qed

lemma nth_padded [layout_simps]:
  "i \<noteq> seg + len \<Longrightarrow> padded b seg len ! i = b ! i"
  by (simp add: padded_def)

lemma word_at_same: "q ! p = r ! p \<Longrightarrow> q ! Suc p = r ! Suc p \<Longrightarrow> word_at q p = word_at r p"
  by (simp add: word_at_def)

lemma ip_checksum_ok_same:
  assumes "\<forall>i < hlen p. q ! i = p ! i" and "0 < hlen p"
  shows "ip_checksum_ok q = ip_checksum_ok p"
proof -
  have hl: "hlen q = hlen p" using assms by (simp add: hlen_def)
  have "word_sum q 0 (hlen p div 2) = word_sum p 0 (hlen p div 2)"
    unfolding word_sum_def
  proof (rule sum.cong)
    fix i
    assume "i \<in> {..<hlen p div 2}"
    then have "Suc (2 * i) < hlen p" by auto
    then show "word_at q (0 + 2 * i) = word_at p (0 + 2 * i)"
      using assms(1) by (intro word_at_same) auto
  qed simp
  then show ?thesis by (simp add: ip_checksum_ok_def hl)
qed

lemma same_header_unchanged:
  assumes "length q = length p" and "\<And>i. i < 20 \<Longrightarrow> i \<noteq> 10 \<Longrightarrow> i \<noteq> 11 \<Longrightarrow> q ! i = p ! i"
  shows "same_header p q"
  using assms by (simp add: same_header_def)

lemma fill_udp_stage:
  assumes wf: "wf_pkt p" and proto: "ip_proto p = 17" and ok: "transport_ok p"
  shows "\<exists>q. fill_udp_checksum p = Inr q \<and> same_header p q \<and>
    (\<forall>i. i \<notin> {hlen p + 6, hlen p + 7, hlen p + udp_len p} \<longrightarrow> q ! i = p ! i) \<and>
    transport_checksum_ok q \<and> (udp_cksum q = 0 \<longleftrightarrow> udp_cksum p = 0)"
proof -
  have len: "20 \<le> hlen p" "hlen p + 8 \<le> length p" using wf ok proto by (auto simp: wf_pkt_def transport_ok_def)
  have fits: "udp_cksum p \<noteq> 0 \<Longrightarrow> 8 \<le> udp_len p \<and> segment_fits p (udp_len p)"
    using ok proto by (simp add: transport_ok_def)
  note spec = fill_udp_checksum_spec [OF len proto fits]
  show ?thesis
  proof (cases "udp_cksum p = 0")
    case True
    with spec proto show ?thesis
      by (intro exI [of _ p]) (simp add: transport_checksum_ok_def same_header_def)
  next
    case False
    then have ul: "8 \<le> udp_len p" using fits by simp
    from spec False obtain w c where
      q: "fill_udp_checksum p = Inr (put16 (padded (put16 p (hlen p + 6) w) (hlen p) (udp_len p)) (hlen p + 6) c)"
        "c \<noteq> 0"
      and valid: "checksum_valid (pseudo_sum p (htons (of_nat (udp_len p))) +
        word_sum (put16 (padded (put16 p (hlen p + 6) w) (hlen p) (udp_len p)) (hlen p + 6) c)
          (hlen p) ((udp_len p + 1) div 2))" by auto
    let ?q = "put16 (padded (put16 p (hlen p + 6) w) (hlen p) (udp_len p)) (hlen p + 6) c"
    have rest: "?q ! i = p ! i" if "i \<notin> {hlen p + 6, hlen p + 7, hlen p + udp_len p}" for i
      using that len by (simp add: nth_put16 nth_padded)
    have same: "same_header p ?q"
      using len ul by (intro same_header_unchanged rest) auto
    note f = same_header_fields [OF same]
    have "udp_len ?q = udp_len p" using rest [of "hlen p + 4"] rest [of "hlen p + 5"] ul f(1) by (simp add: udp_len_def)
    moreover have "udp_cksum ?q = c" using len f(1) by (simp add: udp_cksum_def nth_put16)
    ultimately show ?thesis
      using q valid rest same f proto False
      by (intro exI [of _ ?q]) (simp add: transport_checksum_ok_def)
  qed
qed

lemma fill_tcp_stage:
  assumes wf: "wf_pkt p" and proto: "ip_proto p = 6" and ok: "transport_ok p"
  shows "\<exists>q. fill_tcp_checksum p = Inr q \<and> same_header p q \<and>
    (\<forall>i. i \<notin> {hlen p + 16, hlen p + 17, hlen p + tcp_len p} \<longrightarrow> q ! i = p ! i) \<and>
    transport_checksum_ok q"
proof -
  have tl: "18 \<le> tcp_len p" "segment_fits p (tcp_len p)" using ok proto by (simp_all add: transport_ok_def)
  have len: "20 \<le> hlen p" "hlen p + 18 \<le> length p" using wf tl by (auto simp: wf_pkt_def segment_fits_def)
  from fill_tcp_checksum_spec [OF wf proto tl] obtain w c where
    q: "fill_tcp_checksum p = Inr (put16 (padded (put16 p (hlen p + 16) w) (hlen p) (tcp_len p)) (hlen p + 16) c)"
    and valid: "checksum_valid (pseudo_sum p (htons (of_nat (tcp_len p))) +
        word_sum (put16 (padded (put16 p (hlen p + 16) w) (hlen p) (tcp_len p)) (hlen p + 16) c)
          (hlen p) ((tcp_len p + 1) div 2))" by auto
  let ?q = "put16 (padded (put16 p (hlen p + 16) w) (hlen p) (tcp_len p)) (hlen p + 16) c"
  have rest: "?q ! i = p ! i" if "i \<notin> {hlen p + 16, hlen p + 17, hlen p + tcp_len p}" for i
    using that len by (simp add: nth_put16 nth_padded)
  have same: "same_header p ?q"
    using len tl by (intro same_header_unchanged rest) auto
  with q valid rest same_header_fields [OF same] proto show ?thesis
    by (intro exI [of _ ?q]) (simp add: transport_checksum_ok_def)
qed

lemma fill_checksums_spec:
  assumes wf: "wf_pkt pkt" and ok: "transport_ok pkt"
  shows "\<exists>q. fill_checksums pkt = Inr q \<and> same_header pkt q \<and>
    (\<forall>i. i \<notin> checksum_bytes pkt \<longrightarrow> q ! i = pkt ! i) \<and>
    ip_checksum_ok q \<and> transport_checksum_ok q \<and>
    (ip_proto pkt = 17 \<longrightarrow> (udp_cksum q = 0 \<longleftrightarrow> udp_cksum pkt = 0))"
proof -
  have len: "20 \<le> hlen pkt" "20 \<le> length pkt" using wf wf_pkt_length by (auto simp: wf_pkt_def)
  obtain c where p: "fill_ip_checksum pkt = Inr (put16 pkt 10 c)"
      "checksum_valid (word_sum (put16 pkt 10 c) 0 (hlen pkt div 2))"
    using fill_ip_checksum_spec [OF wf] by blast
  let ?p = "put16 pkt 10 c"
  have rest: "?p ! i = pkt ! i" if "i \<noteq> 10" "i \<noteq> 11" for i
    using that len by (simp add: nth_put16)
  have same: "same_header pkt ?p" using len by (intro same_header_unchanged rest) auto
  note f = same_header_fields [OF same]
  have u: "udp_cksum ?p = udp_cksum pkt" "udp_len ?p = udp_len pkt"
    using len f(1) by (simp_all add: udp_cksum_def udp_len_def rest)
  have okp: "transport_ok ?p" using ok f u by (simp add: transport_ok_def segment_fits_def)
  have ipok: "ip_checksum_ok ?p" using p(2) f by (simp add: ip_checksum_ok_def)
  have step: "fill_checksums pkt = (if ip_proto pkt = 17 then fill_udp_checksum ?p
      else if ip_proto pkt = 6 then fill_tcp_checksum ?p else Inr ?p)"
    using p(1) len f(3) by (simp add: fill_checksums_def rd8_ok ip_proto_def)
  have keep: "ip_checksum_ok q" if "\<forall>i < hlen pkt. q ! i = ?p ! i" for q
    using ip_checksum_ok_same [of ?p q] that f(1) len ipok by simp
  consider "ip_proto pkt = 17" | "ip_proto pkt = 6" | "ip_proto pkt \<noteq> 17" "ip_proto pkt \<noteq> 6" by blast
  then show ?thesis
  proof cases
    case 1
    then obtain q where q: "fill_udp_checksum ?p = Inr q" "same_header ?p q"
        "\<forall>i. i \<notin> {hlen pkt + 6, hlen pkt + 7, hlen pkt + udp_len pkt} \<longrightarrow> q ! i = ?p ! i"
        "transport_checksum_ok q" "udp_cksum q = 0 \<longleftrightarrow> udp_cksum pkt = 0"
      using fill_udp_stage [of ?p] wf okp f u by auto
    have "same_header pkt q" using same q(2) by (simp add: same_header_def)
    moreover have "ip_checksum_ok q" using q(3) by (intro keep) auto
    ultimately show ?thesis
      using q step 1 rest by (intro exI [of _ q]) (auto simp: checksum_bytes_def)
  next
    case 2
    then obtain q where q: "fill_tcp_checksum ?p = Inr q" "same_header ?p q"
        "\<forall>i. i \<notin> {hlen pkt + 16, hlen pkt + 17, hlen pkt + tcp_len pkt} \<longrightarrow> q ! i = ?p ! i"
        "transport_checksum_ok q"
      using fill_tcp_stage [of ?p] wf okp f by auto
    have "same_header pkt q" using same q(2) by (simp add: same_header_def)
    moreover have "ip_checksum_ok q" using q(3) by (intro keep) auto
    ultimately show ?thesis
      using q step 2 rest by (intro exI [of _ q]) (auto simp: checksum_bytes_def)
  next
    case 3
    then show ?thesis
      using step same rest ipok f by (intro exI [of _ ?p]) (auto simp: checksum_bytes_def transport_checksum_ok_def)
  qed
qed

section \<open>Where a packet goes\<close>

text \<open>
  The next hop of a destination: itself on the LAN and on the WAN link, the WAN gateway
  otherwise.
\<close>

definition on_wan_link :: "wan_config \<Rightarrow> ip_addr \<Rightarrow> bool" where
  "on_wan_link w ip \<longleftrightarrow>
     apply_mask (create_subnet_mask (of_nat (wan_cidr_prefix_len w))) ip = wan_network_ip w"

definition next_hop :: "wan_config \<Rightarrow> ip_addr \<Rightarrow> ip_addr" where
  "next_hop w ip = (if on_lan ip \<or> on_wan_link w ip then ip else wan_gateway_ip w)"

lemma local_dst_spec:
  "configured (interface_arr r) \<Longrightarrow> local_dst r (lan_or_wan ip) ip = Inr (next_hop (wan r) ip)"
  using interface_side_configured [of "interface_arr r"]
  by (simp add: local_dst_def lan_or_wan_def next_hop_def on_wan_link_def INT_SIDE_LAN_def INT_SIDE_WAN_def)

lemma outgoing_interface:
  "configured arr \<Longrightarrow> get_interface_for_ip arr ip = Inr (lan_or_wan ip)"
  by (simp add: get_interface_for_ip_configured lan_or_wan_def)

definition ipv4_frame :: "router \<Rightarrow> mac_addr \<Rightarrow> buf \<Rightarrow> buf" where
  "ipv4_frame r mac q =
     ether_frame mac (device_mac_addr (interface_arr r ! lan_or_wan (ip_dst q))) 0x0800 (take (total_len q) q)"

lemma lan_or_wan_less: "lan_or_wan ip < 2"
  by (simp add: lan_or_wan_def)

lemma interface_get_mac_configured:
  "configured arr \<Longrightarrow> i < 2 \<Longrightarrow> interface_get_mac_addr arr i = Inr (device_mac_addr (arr ! i))"
  using configured_length [of arr] by (simp add: interface_get_mac_addr_def interface_get_config_def)

lemma interface_get_type_configured:
  "configured arr \<Longrightarrow> i < 2 \<Longrightarrow> interface_get_type arr i = Inr INT_TYPE_ETHER"
  using configured_length [of arr] configured_ether [of arr i]
  by (simp add: interface_get_type_def interface_get_config_def)

lemma send_ipv4_spec:
  assumes "wf_pkt pkt" and "transport_ok pkt" and "configured (interface_arr r)" and "devices_inv (macs r)"
    and q: "fill_checksums pkt = Inr q"
  shows "send_ipv4 r pkt =
    (case device_map (macs r) (next_hop (wan r) (ip_dst pkt)) of
       Some mac \<Rightarrow> Inr (write_frame r (lan_or_wan (ip_dst pkt)) (ipv4_frame r mac q), q)
     | None \<Rightarrow> ebind (timer_add_packet r (take (total_len q) q) (lan_or_wan (ip_dst pkt))
                       (next_hop (wan r) (ip_dst pkt))) (\<lambda>r'. Inr (r', q)))"
proof -
  have len: "20 \<le> length pkt" using assms(1) by (rule wf_pkt_length)
  have same: "same_header pkt q" using fill_checksums_spec [OF assms(1,2)] q by auto
  note f = same_header_fields [OF same]
  have dst: "rd_ip pkt 16 = Inr (ip_dst pkt)" using len by (simp add: rd_ip_ok ip_dst_def)
  have out: "get_interface_for_ip (interface_arr r) (ip_dst pkt) = Inr (lan_or_wan (ip_dst pkt))"
    using assms(3) by (simp add: get_interface_for_ip_configured lan_or_wan_def)
  have tl: "ebind (rd16 q 2) g = g (le16 (q ! 2) (q ! 3))" for g :: "u16 \<Rightarrow> (router \<times> buf) res"
    using len f by (simp add: rd16_ok eval_nat_numeral)
  have tl': "unat (ntohs (le16 (q ! 2) (q ! 3))) = total_len q" by (simp add: total_len_def)
  have "total_len q \<le> length q" using assms(1) f by (simp add: wf_pkt_def)
  then have payload: "rd_bytes q 0 (total_len q) = Inr (take (total_len q) q)" by (simp add: rd_bytes_ok)
  note step = send_ipv4_def dst out q local_dst_spec [OF assms(3)] has_mac_for_ip_spec [OF assms(4)]
  show ?thesis
  proof (cases "device_map (macs r) (next_hop (wan r) (ip_dst pkt))")
    case None
    then show ?thesis
      by (simp add: step Let_def tl tl' payload del: ntohs_le16)
  next
    case (Some mac)
    then show ?thesis
      using assms(3) lan_or_wan_less [of "ip_dst pkt"]
      by (simp add: step Let_def get_mac_from_ip_spec [OF assms(4)] interface_get_mac_configured
          interface_get_type_configured tl tl' payload [unfolded f(2)] ipv4_frame_def f del: ntohs_le16)
  qed
qed

text \<open>A segment of odd length that ends where its object ends.\<close>

lemma transport_checksum_overflow:
  assumes "20 \<le> length pkt" and "seg + field + 2 \<le> length pkt"
    and "len mod 2 = 1" and "seg + len = length pkt"
  shows "transport_checksum pkt seg field len_field len = Inl OutOfBounds"
proof -
  have "padded (pseudo_bytes pkt len_field) 0 12 = pseudo_bytes pkt len_field" by (simp add: padded_def)
  then obtain pc where "calculate_checksum (pseudo_bytes pkt len_field) 0 12 = Inr (pseudo_bytes pkt len_field, pc)"
    using calculate_checksum_spec [of 0 12 "pseudo_bytes pkt len_field"] by auto
  moreover have "calculate_checksum (put16 pkt (seg + field) (NOT pc)) seg len = Inl OutOfBounds"
    using assms by (intro calculate_checksum_overflow) simp_all
  ultimately show ?thesis using assms by (simp add: transport_checksum_def pseudo_hdr_ok wr16_put16)
qed

definition exact_odd_udp :: "buf \<Rightarrow> bool" where
  "exact_odd_udp pkt \<longleftrightarrow>
     wf_pkt pkt \<and> length pkt = total_len pkt \<and> ip_proto pkt = 17 \<and> udp_cksum pkt \<noteq> 0 \<and>
     hlen pkt + udp_len pkt = total_len pkt \<and> 8 \<le> udp_len pkt \<and> udp_len pkt mod 2 = 1"

lemma fill_checksums_overflow:
  assumes "exact_odd_udp pkt"
  shows "fill_checksums pkt = Inl OutOfBounds"
proof -
  have a: "wf_pkt pkt" "length pkt = total_len pkt" "ip_proto pkt = 17" "udp_cksum pkt \<noteq> 0"
    "hlen pkt + udp_len pkt = total_len pkt" "8 \<le> udp_len pkt" "udp_len pkt mod 2 = 1"
    using assms by (simp_all add: exact_odd_udp_def)
  have len: "20 \<le> hlen pkt" "20 \<le> length pkt" "hlen pkt + 8 \<le> length pkt"
    using a wf_pkt_length by (auto simp: wf_pkt_def)
  obtain c where p: "fill_ip_checksum pkt = Inr (put16 pkt 10 c)"
    using fill_ip_checksum_spec [OF a(1)] by blast
  let ?p = "put16 pkt 10 c"
  have f: "hlen ?p = hlen pkt" "udp_cksum ?p = udp_cksum pkt" "udp_len ?p = udp_len pkt" "ip_proto ?p = 17"
    using len a(3) by (simp_all add: udp_cksum_def udp_len_def ip_proto_def nth_put16)
  have hl: "header_len ?p = Inr (hlen pkt)"
    using len f(1) by (subst header_len_def, subst rd8_ok) (auto simp: hlen_def)
  have "rd16 ?p (hlen pkt + 6) = Inr (udp_cksum pkt)"
    "rd16 ?p (hlen pkt + 4) = Inr (le16 (?p ! (hlen pkt + 4)) (?p ! (hlen pkt + 5)))"
    using len f by (simp_all add: rd16_ok udp_cksum_def add.commute)
  moreover have "unat (ntohs (le16 (?p ! (hlen pkt + 4)) (?p ! (hlen pkt + 5)))) = udp_len pkt"
    using f(1,3) by (simp add: udp_len_def)
  moreover have "transport_checksum ?p (hlen pkt) 6 lf (udp_len pkt) = Inl OutOfBounds" for lf
    using a len by (intro transport_checksum_overflow) simp_all
  ultimately have "fill_udp_checksum ?p = Inl OutOfBounds"
    using hl a(4) by (simp add: fill_udp_checksum_def del: ntohs_le16)
  then show ?thesis
    using p len f(4) by (simp add: fill_checksums_def rd8_ok ip_proto_def)
qed

lemma send_ipv4_effect:
  assumes "wf_pkt pkt" and "transport_ok pkt" and "configured (interface_arr r)"
    and "devices_inv (macs r)" and "timer_inv r"
  shows "\<exists>r' q. fill_checksums pkt = Inr q \<and> send_ipv4 r pkt = Inr (r', q) \<and> timer_inv r' \<and>
    timer_only r r' \<and>
    (let dst = ip_dst pkt; hop = next_hop (wan r) dst; int_id = lan_or_wan dst;
         bytes = take (total_len pkt) q
     in case device_map (macs r) hop of
       Some mac \<Rightarrow>
         delta_list r' = delta_list r \<and>
         sent r' = sent r @ [(int_id, ether_frame mac (device_mac_addr (interface_arr r ! int_id)) 0x0800 bytes)]
     | None \<Rightarrow>
         waiting (delta_list r') = (waiting (delta_list r))(hop := waiting (delta_list r) hop @ [bytes]) \<and>
         sent r' = sent r @ (if hop \<in> dn_ip_addr ` set (delta_list r) then []
                             else [(int_id, request_frame r int_id hop)]))"
proof -
  from fill_checksums_spec [OF assms(1,2)] obtain q where
    q: "fill_checksums pkt = Inr q" "same_header pkt q" by blast
  note f = same_header_fields [OF q(2)]
  note spec = send_ipv4_spec [OF assms(1-4) q(1)]
  let ?hop = "next_hop (wan r) (ip_dst pkt)" and ?i = "lan_or_wan (ip_dst pkt)"
  show ?thesis
  proof (cases "device_map (macs r) ?hop")
    case None
    from timer_add_packet_spec [OF assms(5,3) lan_or_wan_less [of "ip_dst pkt"], of "take (total_len q) q" ?hop]
    obtain r' where "timer_add_packet r (take (total_len q) q) ?i ?hop = Inr r'" "timer_inv r'" "timer_only r r'"
      "waiting (delta_list r') = (waiting (delta_list r))(?hop := waiting (delta_list r) ?hop @ [take (total_len q) q])"
      "sent r' = sent r @ (if ?hop \<in> dn_ip_addr ` set (delta_list r) then [] else [(?i, request_frame r ?i ?hop)])"
      by blast
    with spec None q(1) f show ?thesis
      by (intro exI [of _ r'] exI [of _ q]) (simp add: Let_def)
  next
    case (Some mac)
    with spec q(1) f assms(5) show ?thesis
      by (intro exI [of _ "write_frame r ?i (ipv4_frame r mac q)"] exI [of _ q])
        (simp add: Let_def write_frame_def timer_only_def timer_inv_def ipv4_frame_def)
  qed
qed

section \<open>Sample packets\<close>

text \<open>
  From 192.168.1.50 port 5000 to 8.8.8.8 port 53 over UDP, with three bytes of data and
  \<open>spare\<close> bytes behind the packet.
\<close>

definition sample_udp :: "nat \<Rightarrow> buf" where
  "sample_udp spare =
     [0x45, 0, 0, 31, 0, 1, 0, 0, 64, 17, 0, 0, 192, 168, 1, 50, 8, 8, 8, 8,
      0x13, 0x88, 0, 53, 0, 11, 0xab, 0xcd, 1, 2, 3] @ replicate spare 0xee"

text \<open>From 8.8.8.8 port 80 to 192.168.1.50 port 5000 over TCP, without data.\<close>

definition sample_tcp :: buf where
  "sample_tcp =
     [0x45, 0, 0, 40, 0, 1, 0, 0, 64, 6, 0, 0, 8, 8, 8, 8, 192, 168, 1, 50,
      0, 80, 0x13, 0x88, 0, 0, 0, 1, 0, 0, 0, 0, 0x50, 2, 0x20, 0, 0, 0, 0, 0]"

lemmas packet_defs = wf_pkt_def transport_ok_def hlen_def total_len_def ip_proto_def udp_cksum_def
  udp_len_def tcp_len_def segment_fits_def ip_src_def ip_dst_def exact_odd_udp_def

lemma sample_udp_ok: "wf_pkt (sample_udp 9)" "transport_ok (sample_udp 9)"
  by code_simp+

lemma sample_tcp_ok: "wf_pkt sample_tcp" "transport_ok sample_tcp"
  by code_simp+

section \<open>Properties\<close>



text \<open>
  The next hop. With the configured interfaces and a WAN network given in canonical form
  with a prefix of at most 24 bits, a packet goes straight to its destination when that lies
  in 192.168.1.0/24 or in the WAN network, and to the WAN gateway otherwise.
\<close>

theorem next_hop_by_network:
  assumes "configured (interface_arr r)" and "wan_cidr_prefix_len (wan r) \<le> 24"
    and "apply_mask (create_subnet_mask (of_nat (wan_cidr_prefix_len (wan r)))) (wan_network_ip (wan r))
         = wan_network_ip (wan r)"
  shows "ebind (get_interface_for_ip (interface_arr r) ip) (\<lambda>int_id. local_dst r int_id ip) =
    Inr (if in_network (IpAddr 192 168 1 0) 24 ip \<or>
            in_network (wan_network_ip (wan r)) (wan_cidr_prefix_len (wan r)) ip
         then ip else wan_gateway_ip (wan r))"
proof -
  let ?n = "wan_cidr_prefix_len (wan r)"
  have n: "unat (of_nat ?n :: u8) = ?n" using assms(2) by (simp add: unsigned_of_nat take_bit_nat_eq_self)
  have "create_subnet_mask (of_nat ?n) = cidr_mask ?n"
    using create_subnet_mask_short [of "of_nat ?n"] assms(2) n by simp
  then have "on_wan_link (wan r) ip \<longleftrightarrow> in_network (wan_network_ip (wan r)) ?n ip"
    using apply_cidr_mask_eq_iff [of ?n ip "wan_network_ip (wan r)"] assms(2,3) by (simp add: on_wan_link_def)
  moreover have "on_lan ip \<longleftrightarrow> in_network (IpAddr 192 168 1 0) 24 ip"
    by (rule on_lan_in_network)
  ultimately show ?thesis
    using assms(1) local_dst_spec [of r ip] outgoing_interface [of "interface_arr r" ip]
    by (simp add: next_hop_def)
qed

theorem next_hop_by_network_witness:
  "ebind (get_interface_for_ip init_interface_arr (IpAddr 8 8 8 8))
     (\<lambda>int_id. local_dst (gateway_pending 0) int_id (IpAddr 8 8 8 8)) = Inr (IpAddr 192 168 0 1)"
proof -
  let ?r = "gateway_pending 0"
  have r: "interface_arr ?r = init_interface_arr" "wan ?r = init_wan"
    by (simp_all add: gateway_pending_def router_at_start_def)
  have m: "apply_mask (create_subnet_mask (of_nat 24)) (IpAddr 192 168 0 0) = IpAddr 192 168 0 0" by code_simp
  have out: "\<not> in_network (IpAddr 192 168 1 0) 24 (IpAddr 8 8 8 8)"
    "\<not> in_network (IpAddr 192 168 0 0) 24 (IpAddr 8 8 8 8)"
    by (simp_all add: in_network_def ip_num_def ip_word_def unat_le32)
  have pre: "configured (interface_arr ?r)" "wan_cidr_prefix_len (wan ?r) \<le> 24"
    "apply_mask (create_subnet_mask (of_nat (wan_cidr_prefix_len (wan ?r)))) (wan_network_ip (wan ?r))
      = wan_network_ip (wan ?r)"
    using m by (simp_all add: r init_wan_def)
  from next_hop_by_network [OF pre, of "IpAddr 8 8 8 8"] out show ?thesis by (simp add: r init_wan_def)
qed





end
