(* ===== verification/Arp.thy ===== *)
theory Arp
  imports Outgoing
begin

text \<open>
  What an ARP packet does (\<open>arp_handle\<close> of \<open>src/arp.c\<close>): it teaches the table of MAC
  addresses the sender's pair and releases the packets that wait for it
  (\<open>timer_update_packets\<close> of \<open>src/timer.c\<close>).
\<close>

section \<open>Releasing a next hop\<close>

text \<open>
  The search and the unlinking of the node: its delay goes to the node after it.
\<close>

fun unlink_node :: "delta_node list \<Rightarrow> ip_addr \<Rightarrow> (delta_node \<times> delta_node list) option" where
  "unlink_node [] dst = None"
| "unlink_node (n # ns) dst =
     (if ip_addr_equals (dn_ip_addr n) dst
      then Some (n, case ns of [] \<Rightarrow> [] | m # ms \<Rightarrow> m\<lparr>msec := msec m + msec n\<rparr> # ms)
      else map_option (\<lambda>(found, ns'). (found, n # ns')) (unlink_node ns dst))"

text \<open>
  When the head goes, the timer is set to what is left of it plus the delay of the next node.
  Of the time left only the nanoseconds are read.
\<close>

definition rearm_after_head :: "delta_node list \<Rightarrow> nat \<times> nat \<Rightarrow> nat \<times> nat" where
  "rearm_after_head ns left =
     (case ns of
        n # m # _ \<Rightarrow>
          let total = snd left + unat (msec m) * 1000000 in (total div 1000000000, total mod 1000000000)
      | _ \<Rightarrow> (0, 0))"

definition unlink_timer :: "router \<Rightarrow> ip_addr \<Rightarrow> nat \<times> nat" where
  "unlink_timer r dst =
     (if ip_addr_equals (dn_ip_addr (hd (delta_list r))) dst
      then rearm_after_head (delta_list r) (timer_left r) else timer_left r)"

fun send_packets :: "buf list \<Rightarrow> router \<Rightarrow> router res" where
  "send_packets [] r = Inr r"
| "send_packets (pkt # pkts) r = ebind (send_ipv4 r pkt) (\<lambda>(r', _). send_packets pkts r')"

definition timer_update_packets :: "router \<Rightarrow> ip_addr \<Rightarrow> router res" where
  "timer_update_packets r0 dst =
     ebind (lock_timer r0) (\<lambda>r.
       case unlink_node (delta_list r) dst of
         None \<Rightarrow> Inr (unlock_timer r)
       | Some (n, ns) \<Rightarrow>
           send_packets (pkt_list n)
             (unlock_timer (r\<lparr>delta_list := ns, timer_left := unlink_timer r dst\<rparr>)))"

section \<open>ARP packets\<close>

definition learn :: "router \<Rightarrow> ip_addr \<Rightarrow> mac_addr \<Rightarrow> router res" where
  "learn r ip mac = ebind (update_ip_mac_pair (ip, mac) (macs r)) (\<lambda>d. Inr (r\<lparr>macs := d\<rparr>))"

definition arp_handle :: "router \<Rightarrow> arp_hdr \<Rightarrow> nat \<Rightarrow> router res" where
  "arp_handle r pkt int_id =
     (if ntohs (protocol_type pkt) \<noteq> 0x0800 then Inr r
      else if ntohs (hardware_type pkt) \<noteq> 0x0001 then Inr r
      else if ip_addr_equals (sender_ip pkt) (IpAddr 0 0 0 0) then Inr r
      else ebind (learn r (sender_ip pkt) (sender_mac pkt)) (\<lambda>r1.
           ebind (timer_update_packets r1 (sender_ip pkt)) (\<lambda>r2.
           ebind (interface_get_side (interface_arr r2) int_id) (\<lambda>_. Inr r2))))"

section \<open>Learning\<close>

lemma learn_spec:
  assumes "devices_inv (macs r)"
  shows "\<exists>d. learn r ip mac = Inr (r\<lparr>macs := d\<rparr>) \<and> devices_inv d \<and> device_map d = (device_map (macs r))(ip \<mapsto> mac)"
  using update_ip_mac_pair_spec [OF assms, of ip mac] by (auto simp: learn_def)

section \<open>Unlinking\<close>

lemma unlink_node_spec:
  assumes "delta_ok ns"
  shows "case unlink_node ns dst of
      None \<Rightarrow> dst \<notin> dn_ip_addr ` set ns
    | Some (n, ns') \<Rightarrow> n \<in> set ns \<and> dn_ip_addr n = dst \<and> delta_ok ns' \<and>
        dn_ip_addr ` set ns' = dn_ip_addr ` set ns - {dst} \<and>
        waiting ns dst = pkt_list n \<and> waiting ns' = (waiting ns)(dst := []) \<and>
        delays ns' \<le> delays ns"
  using assms
proof (induction ns)
  case Nil
  then show ?case by simp
next
  case (Cons n ns)
  show ?case
  proof (cases "dn_ip_addr n = dst")
    case True
    have nodst: "dst \<notin> dn_ip_addr ` set ns" using Cons.prems True by (auto simp: delta_ok_def)
    show ?thesis
    proof (cases ns)
      case Nil
      with True show ?thesis by (auto simp: delta_ok_def fun_eq_iff)
    next
      case (Cons m ms)
      have "unat (msec m + msec n) = unat (msec m) + unat (msec n)"
        using Cons.prems Cons by (intro unat_u32_add) (simp add: delta_ok_def)
      with Cons.prems Cons True nodst show ?thesis
        by (auto simp: delta_ok_def fun_eq_iff waiting_none)
    qed
  next
    case False
    have ok: "delta_ok ns" using Cons.prems by (auto simp: delta_ok_def)
    show ?thesis
    proof (cases "unlink_node ns dst")
      case None
      with Cons.IH [OF ok] False show ?thesis by auto
    next
      case (Some x)
      obtain f ns' where x: "x = (f, ns')" by (cases x)
      have IH: "f \<in> set ns" "dn_ip_addr f = dst" "delta_ok ns'"
        "dn_ip_addr ` set ns' = dn_ip_addr ` set ns - {dst}"
        "waiting ns dst = pkt_list f" "waiting ns' = (waiting ns)(dst := [])" "delays ns' \<le> delays ns"
        using Cons.IH [OF ok] Some x by auto
      have "dn_ip_addr n \<notin> dn_ip_addr ` set ns'" using IH(4) Cons.prems by (auto simp: delta_ok_def)
      then have "delta_ok (n # ns')"
        using IH(3,7) Cons.prems by (auto simp: delta_ok_def)
      moreover have "waiting (n # ns') = (waiting (n # ns))(dst := [])"
        using False IH(6) by (auto simp: fun_eq_iff)
      ultimately show ?thesis using False Some x IH by (auto simp: image_iff)
    qed
  qed
qed

section \<open>Sending what waited\<close>

definition with_checksums :: "buf \<Rightarrow> buf" where
  "with_checksums pkt = (case fill_checksums pkt of Inr q \<Rightarrow> q | Inl _ \<Rightarrow> pkt)"

text \<open>A packet that can be sent, and whose next hop is \<open>ip\<close>.\<close>

definition ready_for :: "wan_config \<Rightarrow> ip_addr \<Rightarrow> buf \<Rightarrow> bool" where
  "ready_for w ip pkt \<longleftrightarrow> wf_pkt pkt \<and> transport_ok pkt \<and> next_hop w (ip_dst pkt) = ip"

definition queue_ready :: "router \<Rightarrow> bool" where
  "queue_ready r \<longleftrightarrow> (\<forall>ip. \<forall>pkt \<in> set (waiting (delta_list r) ip). ready_for (wan r) ip pkt)"

definition frames_for :: "router \<Rightarrow> mac_addr \<Rightarrow> buf list \<Rightarrow> (nat \<times> buf) list" where
  "frames_for r mac pkts = map (\<lambda>pkt. (lan_or_wan (ip_dst pkt), ipv4_frame r mac (with_checksums pkt))) pkts"

lemma with_checksums_spec:
  assumes "wf_pkt pkt" and "transport_ok pkt"
  shows "fill_checksums pkt = Inr (with_checksums pkt)" and "same_header pkt (with_checksums pkt)"
  using fill_checksums_spec [OF assms] by (auto simp: with_checksums_def)

lemma frames_for_simps [simp]:
  "frames_for r mac [] = []"
  "frames_for r mac (p # ps) = (lan_or_wan (ip_dst p), ipv4_frame r mac (with_checksums p)) # frames_for r mac ps"
  "frames_for (r\<lparr>sent := fs\<rparr>) mac ps = frames_for r mac ps"
  by (simp_all add: frames_for_def ipv4_frame_def)

lemma send_packets_known:
  assumes "configured (interface_arr r)" and "devices_inv (macs r)" and "device_map (macs r) ip = Some mac"
    and "\<forall>pkt \<in> set pkts. ready_for (wan r) ip pkt"
  shows "send_packets pkts r = Inr (r\<lparr>sent := sent r @ frames_for r mac pkts\<rparr>)"
  using assms
proof (induction pkts arbitrary: r)
  case Nil
  then show ?case by simp
next
  case (Cons pkt pkts)
  then have ok: "wf_pkt pkt" "transport_ok pkt" "next_hop (wan r) (ip_dst pkt) = ip"
    by (simp_all add: ready_for_def)
  let ?r = "r\<lparr>sent := sent r @ frames_for r mac [pkt]\<rparr>"
  have "send_ipv4 r pkt = Inr (?r, with_checksums pkt)"
    using send_ipv4_spec [OF ok(1,2) Cons.prems(1,2) with_checksums_spec(1) [OF ok(1,2)]] ok(3) Cons.prems(3)
    by (simp add: write_frame_def)
  moreover have "send_packets pkts ?r = Inr (?r\<lparr>sent := sent ?r @ frames_for ?r mac pkts\<rparr>)"
    using Cons.prems by (intro Cons.IH) simp_all
  ultimately show ?case by simp
qed

lemma rearm_nonzero:
  assumes "snd left \<noteq> 0"
  shows "rearm_after_head (n # m # ns) left \<noteq> (0, 0)"
proof
  let ?total = "snd left + unat (msec m) * 1000000"
  assume "rearm_after_head (n # m # ns) left = (0, 0)"
  then have "?total div 1000000000 = 0" "?total mod 1000000000 = 0"
    unfolding rearm_after_head_def Let_def list.case by blast+
  then have "?total = 0" by (metis div_mult_mod_eq add_0 mult_0)
  with assms show False by simp
qed

lemma unlink_keeps_timer:
  assumes "unlink_node ns dst = Some (n, ns')" and "ns' \<noteq> []" and "snd left \<noteq> 0"
  shows "(if ip_addr_equals (dn_ip_addr (hd ns)) dst then rearm_after_head ns left else left) \<noteq> (0, 0)"
proof (cases ns)
  case (Cons m ms)
  then show ?thesis
    using assms rearm_nonzero [OF assms(3), of m] by (cases ms) (auto split: if_splits)
qed (use assms in simp)

lemma unlink_timer_lock [simp]: "unlink_timer (r\<lparr>timer_mutex := m\<rparr>) dst = unlink_timer r dst"
  by (simp add: unlink_timer_def)

lemma timer_update_packets_spec:
  assumes "timer_inv r" and "configured (interface_arr r)" and "devices_inv (macs r)"
    and "device_map (macs r) dst = Some mac" and "queue_ready r"
    and "delta_list r = [] \<or> snd (timer_left r) \<noteq> 0"
  shows "\<exists>r'. timer_update_packets r dst = Inr r' \<and> timer_inv r' \<and> timer_only r r' \<and>
    waiting (delta_list r') = (waiting (delta_list r))(dst := []) \<and>
    dn_ip_addr ` set (delta_list r') = dn_ip_addr ` set (delta_list r) - {dst} \<and>
    sent r' = sent r @ frames_for r mac (waiting (delta_list r) dst)"
proof -
  have ok: "delta_ok (delta_list r)" and free: "\<not> held (timer_mutex r)"
    using assms(1) by (simp_all add: timer_inv_def)
  note unlink = unlink_node_spec [OF ok, of dst]
  show ?thesis
  proof (cases "unlink_node (delta_list r) dst")
    case None
    with unlink have no: "dst \<notin> dn_ip_addr ` set (delta_list r)" by simp
    have "timer_update_packets r dst = Inr r"
      using None free by (simp add: timer_update_packets_def lock_timer_free unlock_timer_def)
    with assms(1) waiting_none [OF no] no show ?thesis by (auto simp: timer_only_def)
  next
    case (Some x)
    obtain n ns' where x: "x = (n, ns')" by (cases x)
    have u: "dn_ip_addr n = dst" "delta_ok ns'"
      "dn_ip_addr ` set ns' = dn_ip_addr ` set (delta_list r) - {dst}"
      "waiting (delta_list r) dst = pkt_list n" "waiting ns' = (waiting (delta_list r))(dst := [])"
      using unlink Some x by auto
    let ?left = "unlink_timer r dst"
    let ?r1 = "r\<lparr>delta_list := ns', timer_left := ?left\<rparr>"
    have "delta_list r \<noteq> []" using Some by auto
    then have "ns' = [] \<or> ?left \<noteq> (0, 0)"
      using unlink_keeps_timer [of "delta_list r" dst n ns' "timer_left r"] Some x assms(6)
      by (auto simp: unlink_timer_def)
    then have inv: "timer_inv (?r1\<lparr>sent := fs\<rparr>)" for fs
      using u(2) free by (simp add: timer_inv_def)
    have fr: "frames_for ?r1 mac ps = frames_for r mac ps" for ps by (simp add: frames_for_def ipv4_frame_def)
    have "\<forall>pkt \<in> set (pkt_list n). ready_for (wan r) dst pkt"
      using assms(5) u(4) by (auto simp: queue_ready_def)
    then have "send_packets (pkt_list n) ?r1 = Inr (?r1\<lparr>sent := sent r @ frames_for r mac (pkt_list n)\<rparr>)"
      using send_packets_known [of ?r1 dst mac "pkt_list n"] assms(2-4) fr by simp
    then have "timer_update_packets r dst = Inr (?r1\<lparr>sent := sent r @ frames_for r mac (pkt_list n)\<rparr>)"
      using Some x free
      by (simp add: timer_update_packets_def lock_timer_free unlock_timer_def)
    with u inv show ?thesis by (auto simp: timer_only_def)
  qed
qed

lemma arp_handle_spec:
  assumes "timer_inv r" and "configured (interface_arr r)" and "devices_inv (macs r)" and "queue_ready r"
    and "delta_list r = [] \<or> snd (timer_left r) \<noteq> 0" and "int_id < 2"
    and "protocol_type pkt = htons 0x0800" and "hardware_type pkt = htons 0x0001"
    and "sender_ip pkt \<noteq> IpAddr 0 0 0 0"
  shows "\<exists>r'. arp_handle r pkt int_id = Inr r' \<and> timer_inv r' \<and> devices_inv (macs r') \<and>
    timer_only (r\<lparr>macs := macs r'\<rparr>) r' \<and>
    device_map (macs r') = (device_map (macs r))(sender_ip pkt \<mapsto> sender_mac pkt) \<and>
    waiting (delta_list r') = (waiting (delta_list r))(sender_ip pkt := []) \<and>
    dn_ip_addr ` set (delta_list r') = dn_ip_addr ` set (delta_list r) - {sender_ip pkt} \<and>
    sent r' = sent r @ frames_for r (sender_mac pkt) (waiting (delta_list r) (sender_ip pkt))"
proof -
  obtain d where d: "learn r (sender_ip pkt) (sender_mac pkt) = Inr (r\<lparr>macs := d\<rparr>)" "devices_inv d"
      "device_map d = (device_map (macs r))(sender_ip pkt \<mapsto> sender_mac pkt)"
    using learn_spec [OF assms(3)] by blast
  let ?r = "r\<lparr>macs := d\<rparr>"
  have "queue_ready ?r" "timer_inv ?r" using assms(1,4) by (simp_all add: queue_ready_def timer_inv_def)
  with timer_update_packets_spec [of ?r "sender_ip pkt" "sender_mac pkt"] assms(2,5) d obtain r' where
    r': "timer_update_packets ?r (sender_ip pkt) = Inr r'" "timer_inv r'" "timer_only ?r r'"
      "waiting (delta_list r') = (waiting (delta_list r))(sender_ip pkt := [])"
      "dn_ip_addr ` set (delta_list r') = dn_ip_addr ` set (delta_list r) - {sender_ip pkt}"
      "sent r' = sent r @ frames_for ?r (sender_mac pkt) (waiting (delta_list r) (sender_ip pkt))"
    by auto
  note same = timer_only_simps [OF r'(3)]
  have "int_id < length (interface_arr r')"
    using configured_length [OF assms(2)] assms(6) same by simp
  then have "arp_handle r pkt int_id = Inr r'"
    using assms(7-9) d(1) r'(1)
    by (simp add: arp_handle_def interface_get_side_def interface_get_config_def)
  moreover have "frames_for ?r mac ps = frames_for r mac ps" for mac ps
    by (simp add: frames_for_def ipv4_frame_def)
  ultimately show ?thesis using r' d same by simp
qed

section \<open>Delays in practice\<close>

text \<open>
  The delays the program can actually build: a second at the head, nothing behind it.
\<close>

definition coalesced :: "delta_node list \<Rightarrow> bool" where
  "coalesced ns \<longleftrightarrow> (case map msec ns of [] \<Rightarrow> True | d # ds \<Rightarrow> d = 1000 \<and> set ds \<subseteq> {0})"

lemma coalesced_simps [simp]:
  "coalesced []" "coalesced (n # ns) \<longleftrightarrow> msec n = 1000 \<and> (\<forall>m \<in> set ns. msec m = 0)"
  by (auto simp: coalesced_def)

lemma coalesced_delays: "coalesced ns \<Longrightarrow> ns \<noteq> [] \<Longrightarrow> delays ns = 1000"
  by (cases ns) (simp_all add: delays_zeros)

lemma enqueue_existing_msec:
  "enqueue_existing ns dst pkt t = Inr (Some ns', t') \<Longrightarrow> map msec ns' = map msec ns"
  by (induction ns arbitrary: t t' ns') (auto simp: Let_def ebind_Inr_iff split: if_splits)

lemma unlink_zeros:
  assumes "unlink_node ns dst = Some (n, ns')" and "\<forall>m \<in> set ns. msec m = 0"
  shows "\<forall>m \<in> set ns'. msec m = 0"
  using assms
proof (induction ns arbitrary: ns')
  case (Cons m ms)
  show ?case
  proof (cases "dn_ip_addr m = dst")
    case True
    with Cons.prems(1) have "ns' = (case ms of [] \<Rightarrow> [] | k # ks \<Rightarrow> k\<lparr>msec := msec k + msec m\<rparr> # ks)"
      by simp
    with Cons.prems(2) show ?thesis by (simp split: list.splits)
  next
    case False
    with Cons.prems(1) obtain ms' where "unlink_node ms dst = Some (n, ms')" "ns' = m # ms'" by auto
    with Cons.IH [of ms'] Cons.prems(2) show ?thesis by simp
  qed
qed simp

lemma coalesced_unlink:
  assumes "unlink_node ns dst = Some (n, ns')" and "coalesced ns"
  shows "coalesced ns'"
proof (cases ns)
  case (Cons m ms)
  show ?thesis
  proof (cases "dn_ip_addr m = dst")
    case True
    with assms(1) Cons have "ns' = (case ms of [] \<Rightarrow> [] | k # ks \<Rightarrow> k\<lparr>msec := msec k + msec m\<rparr> # ks)"
      by simp
    with assms(2) Cons show ?thesis by (simp split: list.splits)
  next
    case False
    with assms(1) Cons obtain ms' where "unlink_node ms dst = Some (n, ms')" "ns' = m # ms'" by auto
    with unlink_zeros [of ms dst n ms'] assms(2) Cons show ?thesis by simp
  qed
qed (use assms in simp)

lemma coalesced_add:
  assumes "timer_inv r" and "configured (interface_arr r)" and "int_id < 2" and "coalesced (delta_list r)"
    and r': "timer_add_packet r pkt int_id dst = Inr r'"
  shows "coalesced (delta_list r')"
proof -
  have ok: "delta_ok (delta_list r)" and free: "\<not> held (timer_mutex r)"
    using assms(1) by (simp_all add: timer_inv_def)
  show ?thesis
  proof (cases "dst \<in> dn_ip_addr ` set (delta_list r)")
    case True
    obtain ns' t' where e: "enqueue_existing (delta_list r) dst pkt 0 = Inr (Some ns', t')"
      using enqueue_existing_found [OF ok True] .
    with r' free have "delta_list r' = ns'"
      by (auto simp: timer_add_packet_def lock_timer_free unlock_timer_def)
    with enqueue_existing_msec [OF e] assms(4) show ?thesis by (simp add: coalesced_def)
  next
    case False
    obtain t' where e: "enqueue_existing (delta_list r) dst pkt 0 = Inr (None, t')" "unat t' = delays (delta_list r)"
      using enqueue_existing_new [OF ok False] .
    have u: "unat (remaining_delay t') = 1000 - delays (delta_list r)"
      using remaining_delay_eq [of t'] e(2) ok by (simp add: delta_ok_def)
    have "delta_list r' = delta_list r @
        [\<lparr>msec = remaining_delay t', dn_ip_addr = dst, pkt_list = [pkt], retry_amt = 0\<rparr>]"
      using r' e(1) free assms(2,3) configured_length [OF assms(2)]
      by (auto simp: timer_add_packet_def res_simps write_frame_def unlock_timer_def Let_def)
    moreover have "remaining_delay t' = (if delta_list r = [] then 1000 else 0)"
      using u coalesced_delays [OF assms(4)] by (auto simp: word_unat_eq_iff)
    ultimately show ?thesis using assms(4) by (cases "delta_list r") auto
  qed
qed

lemma requeued_zeros: "\<forall>m \<in> set (requeued 0 ns). msec m = 0"
  by (induction ns) auto

lemma coalesced_all_expire:
  assumes "coalesced ns"
  shows "expired (head_expired ns) = head_expired ns" and "unexpired (head_expired ns) = []"
  using assms by (cases ns; auto simp: expired_def unexpired_def head_expired_def)+

lemma coalesced_expiry:
  assumes "coalesced ns"
  shows "coalesced (after_expiry (head_expired ns))"
proof -
  have "rest_of_second [] = 1000" by (simp add: rest_of_second_def)
  then show ?thesis
    using coalesced_all_expire [OF assms] requeued_zeros
    by (cases "to_retry (head_expired ns)") (auto simp: after_expiry_def)
qed

section \<open>Properties\<close>

text \<open>
  C9: an ARP packet for IPv4 over Ethernet from a sender with an address teaches the sender's
  MAC address, and every packet that waited for this sender leaves at once, in the order it
  was queued, to that MAC address on the right interface and with right checksums. The sender
  is then no longer pending, and no other queue changes. (The packets are the ones
  \<open>send_ipv4\<close> can process, and part of a second of the timer must be left.)
\<close>

theorem arp_reply_releases_queue:
  assumes "timer_inv r" and "configured (interface_arr r)" and "devices_inv (macs r)" and "queue_ready r"
    and "delta_list r = [] \<or> snd (timer_left r) \<noteq> 0" and "int_id < 2"
    and "protocol_type pkt = htons 0x0800" and "hardware_type pkt = htons 0x0001"
    and "sender_ip pkt \<noteq> IpAddr 0 0 0 0"
  shows "\<exists>r'. arp_handle r pkt int_id = Inr r' \<and> timer_inv r' \<and> devices_inv (macs r') \<and>
    device_map (macs r') = (device_map (macs r))(sender_ip pkt \<mapsto> sender_mac pkt) \<and>
    sent r' = sent r @ frames_for r (sender_mac pkt) (waiting (delta_list r) (sender_ip pkt)) \<and>
    waiting (delta_list r') = (waiting (delta_list r))(sender_ip pkt := []) \<and>
    sender_ip pkt \<notin> dn_ip_addr ` set (delta_list r')"
  using arp_handle_spec [OF assms] by auto

text \<open>The gateway answers for the packet that waits for it.\<close>

definition gateway_reply :: arp_hdr where
  "gateway_reply =
     \<lparr>hardware_type = htons 0x0001, protocol_type = htons 0x0800, hardware_length = 6, protocol_length = 4,
      operation = htons 2, sender_mac = MacAddr 2 0 0 0 0 1, sender_ip = IpAddr 192 168 0 1,
      target_mac = zero_mac, target_ip = IpAddr 192 168 0 2\<rparr>"

definition one_waiting :: "buf \<Rightarrow> router" where
  "one_waiting pkt =
     (router_at_start (hashmap_init hashmap_cyclic_hash 9 24) (hashmap_init hashmap_cyclic_hash 7 24) (\<lambda>_. 0))
       \<lparr>delta_list := [\<lparr>msec = 1000, dn_ip_addr = IpAddr 192 168 0 1, pkt_list = [pkt], retry_amt = 0\<rparr>],
        timer_left := (0, 999000000)\<rparr>"

lemma one_waiting_ok:
  "timer_inv (one_waiting pkt)" "configured (interface_arr (one_waiting pkt))"
  "devices_inv (macs (one_waiting pkt))"
  by (simp_all add: one_waiting_def router_at_start_def timer_inv_def delta_ok_def)

theorem arp_reply_releases_queue_witness:
  "\<exists>r'. arp_handle (one_waiting (sample_udp 1)) gateway_reply 1 = Inr r' \<and>
    device_map (macs r') (IpAddr 192 168 0 1) = Some (MacAddr 2 0 0 0 0 1) \<and>
    sent r' = frames_for (one_waiting (sample_udp 1)) (MacAddr 2 0 0 0 0 1) [sample_udp 1] \<and>
    waiting (delta_list r') (IpAddr 192 168 0 1) = []"
proof -
  define pkt where "pkt = sample_udp 1"
  let ?r = "one_waiting pkt"
  have r: "wan ?r = init_wan" "sent ?r = []"
    "waiting (delta_list ?r) = (\<lambda>_. [])(IpAddr 192 168 0 1 := [pkt])"
    by (auto simp: one_waiting_def router_at_start_def fun_eq_iff)
  have "wf_pkt pkt" "transport_ok pkt" "next_hop init_wan (ip_dst pkt) = IpAddr 192 168 0 1"
    unfolding pkt_def by code_simp+
  then have "queue_ready ?r" by (simp add: queue_ready_def ready_for_def r)
  moreover have "delta_list ?r = [] \<or> snd (timer_left ?r) \<noteq> 0" by (simp add: one_waiting_def)
  moreover have "protocol_type gateway_reply = htons 0x0800" "hardware_type gateway_reply = htons 0x0001"
    "sender_ip gateway_reply \<noteq> IpAddr 0 0 0 0" "sender_mac gateway_reply = MacAddr 2 0 0 0 0 1"
    "sender_ip gateway_reply = IpAddr 192 168 0 1"
    by (simp_all add: gateway_reply_def)
  ultimately show ?thesis
    using arp_reply_releases_queue [of ?r 1 gateway_reply] one_waiting_ok r unfolding pkt_def by auto
qed

text \<open>
  C28: the delays never differ. Starting from the empty list every operation keeps a full
  second at the head and nothing behind it, because a new node's delay is what the sum of
  \<^emph>\<open>programmed\<close> delays lacks to a second and the elapsed part of the head's second is not
  counted. So one expiry expires every pending next hop at once: all that were not yet retried
  are retried then, also one queued a moment before.
\<close>

theorem delays_collapse:
  assumes "timer_inv r" and "configured (interface_arr r)" and "coalesced (delta_list r)" and "int_id < 2"
  shows "(\<exists>r1. timer_add_packet r pkt int_id dst = Inr r1 \<and> coalesced (delta_list r1)) \<and>
    (\<forall>n ns. unlink_node (delta_list r) dst = Some (n, ns) \<longrightarrow> coalesced ns) \<and>
    (\<exists>r2. timer_handler r = Inr r2 \<and> coalesced (delta_list r2) \<and>
       sent r2 = sent r @ retry_frames r (filter (\<lambda>n. retry_amt n = 0) (delta_list r)) \<and>
       map dn_ip_addr (delta_list r2) =
         map dn_ip_addr (filter (\<lambda>n. retry_amt n = 0) (delta_list r)))"
proof -
  from timer_add_packet_spec [OF assms(1,2,4)] obtain r1 where
    r1: "timer_add_packet r pkt int_id dst = Inr r1" by blast
  from timer_handler_spec [OF assms(1,2)] obtain r2 where
    r2: "timer_handler r = Inr r2" "delta_list r2 = after_expiry (head_expired (delta_list r))"
      "sent r2 = sent r @ retry_frames r (to_retry (head_expired (delta_list r)))" by blast
  have all: "to_retry (head_expired (delta_list r)) = filter (\<lambda>n. retry_amt n = 0) (head_expired (delta_list r))"
    using coalesced_all_expire [OF assms(3)] by (simp add: to_retry_def)
  have keys: "map dn_ip_addr (filter (\<lambda>n. retry_amt n = 0) (head_expired (delta_list r))) =
      map dn_ip_addr (filter (\<lambda>n. retry_amt n = 0) (delta_list r))"
    by (cases "delta_list r") (simp_all add: head_expired_def)
  have "map dn_ip_addr (delta_list r2) = map dn_ip_addr (filter (\<lambda>n. retry_amt n = 0) (delta_list r))"
    using r2(2) coalesced_all_expire(2) [OF assms(3)] keys by (simp add: after_expiry_def all)
  moreover have "retry_frames r (to_retry (head_expired (delta_list r))) =
      retry_frames r (filter (\<lambda>n. retry_amt n = 0) (delta_list r))"
    unfolding all by (cases "delta_list r") (simp_all add: head_expired_def retry_frames_def)
  ultimately show ?thesis
    using r1 r2 coalesced_add [OF assms(1,2,4,3) r1] coalesced_unlink assms(3) coalesced_expiry [OF assms(3)]
    by metis
qed

theorem delays_collapse_witness:
  "\<exists>r2. timer_handler (gateway_pending 0) = Inr r2 \<and> coalesced (delta_list r2) \<and>
    length (sent r2) = 2 \<and> map dn_ip_addr (delta_list r2) = [IpAddr 192 168 0 1, IpAddr 192 168 0 9]"
proof -
  let ?r = "gateway_pending 0"
  have pre: "timer_inv ?r" "configured (interface_arr ?r)" "coalesced (delta_list ?r)" "(1 :: nat) < 2"
    using gateway_pending_ok [of 0] by (simp_all add: gateway_pending_def)
  from delays_collapse [OF pre, of "[]" "IpAddr 192 168 0 7"] obtain r2 where
    "timer_handler ?r = Inr r2" "coalesced (delta_list r2)"
    "sent r2 = sent ?r @ retry_frames ?r (filter (\<lambda>n. retry_amt n = 0) (delta_list ?r))"
    "map dn_ip_addr (delta_list r2) = map dn_ip_addr (filter (\<lambda>n. retry_amt n = 0) (delta_list ?r))" by blast
  then show ?thesis
    by (intro exI [of _ r2]) (simp add: retry_frames_def, simp add: gateway_pending_def router_at_start_def)
qed

end
