(* ===== verification/Hashmap_Slots.thy ===== *)
theory Hashmap_Slots
  imports Hashmap
begin

text \<open>
  The slots of a hash map as its byte-level operations see them: tag, key and value of each
  slot, what a write to one slot changes, and the probe loops as searches along the probe
  sequence.
\<close>

section \<open>Slots\<close>

definition tag_at :: "hashmap \<Rightarrow> nat \<Rightarrow> u8" where
  "tag_at h i = drop_bit ((i mod 4) * 2) (data h ! (i div 4)) AND 3"

definition key_at :: "hashmap \<Rightarrow> nat \<Rightarrow> buf" where
  "key_at h i = take (size_key h) (drop (key_off h i) (data h))"

definition val_at :: "hashmap \<Rightarrow> nat \<Rightarrow> buf" where
  "val_at h i = take (size_value h) (drop (key_off h i + size_key h) (data h))"

definition tag_bytes :: "nat \<Rightarrow> nat" where
  "tag_bytes n = (n + 3) div 4"

definition layout_ok :: "hashmap \<Rightarrow> bool" where
  "layout_ok h \<longleftrightarrow> 0 < size_allocated h \<and> 0 < size_key h \<and>
     length (data h) =
       tag_bytes (size_allocated h) + (size_value h + size_key h) * size_allocated h"

text \<open>What no operation but growth changes.\<close>

definition same_shape :: "hashmap \<Rightarrow> hashmap \<Rightarrow> bool" where
  "same_shape h' h \<longleftrightarrow> hash_func h' = hash_func h \<and> size_allocated h' = size_allocated h \<and>
     size_key h' = size_key h \<and> size_value h' = size_value h"

lemma tag_byte_bound [layout_simps]: "i < n \<Longrightarrow> i div 4 < tag_bytes n"
  by (simp add: tag_bytes_def)

lemma tag_in_data [layout_simps]: "layout_ok h \<Longrightarrow> i < size_allocated h \<Longrightarrow> i div 4 < length (data h)"
  using tag_byte_bound [of i "size_allocated h"] by (simp add: layout_ok_def)

lemma tag_get_slot [res_simps]:
  "layout_ok h \<Longrightarrow> i < size_allocated h \<Longrightarrow> tag_get h i = Inr (tag_at h i)"
  by (simp add: tag_get_def tag_at_def rd8_ok tag_in_data)

lemma slot_in_data [layout_simps]:
  assumes "layout_ok h" and "i < size_allocated h"
  shows "key_off h i + (size_key h + size_value h) \<le> length (data h)"
proof -
  have "(size_value h + size_key h) * Suc i \<le> (size_value h + size_key h) * size_allocated h"
    using assms(2) by (intro mult_le_mono2) simp
  then show ?thesis using assms(1) by (simp add: key_off_def layout_ok_def tag_bytes_def)
qed

lemma key_in_data [layout_simps]:
  "layout_ok h \<Longrightarrow> i < size_allocated h \<Longrightarrow> key_off h i + size_key h \<le> length (data h)"
  using slot_in_data [of h i] by simp

lemma tag_before_slot [layout_simps]: "j < size_allocated h \<Longrightarrow> j div 4 < key_off h i"
  using tag_byte_bound [of j "size_allocated h"] by (simp add: key_off_def tag_bytes_def)

lemma slots_apart [layout_simps]:
  assumes "i \<noteq> j"
  shows "key_off h j + (size_key h + size_value h) \<le> key_off h i \<or>
         key_off h i + (size_key h + size_value h) \<le> key_off h j"
proof -
  have "(size_value h + size_key h) * Suc a \<le> (size_value h + size_key h) * b" if "a < b" for a b
    using that by (intro mult_le_mono2) simp
  from this [of i j] this [of j i] assms show ?thesis
    by (auto simp: key_off_def nat_neq_iff)
qed

lemma length_key_at [layout_simps]:
  "layout_ok h \<Longrightarrow> i < size_allocated h \<Longrightarrow> length (key_at h i) = size_key h"
  using slot_in_data [of h i] by (simp add: key_at_def)

section \<open>Tags in a byte\<close>

lemma and_three: "(w :: u8) AND 3 = take_bit 2 w"
  by (simp add: take_bit_eq_mask mask_eq_exp_minus_1)

lemma bit_three: "bit (3 :: u8) n \<longleftrightarrow> n < 2"
proof -
  have "(3 :: u8) = mask 2" by (simp add: mask_eq_exp_minus_1)
  then show ?thesis by (simp only: bit_mask_iff) auto
qed

lemma tag_of_set_tag:
  assumes "j < 4" "j' < 4" "t AND 3 = t"
  shows "drop_bit (j' * 2) ((b AND NOT (push_bit (j * 2) 3)) OR push_bit (j * 2) t) AND (3 :: u8) =
         (if j' = j then t else drop_bit (j' * 2) b AND 3)"
proof (rule bit_word_eqI)
  fix n
  assume "n < LENGTH(8)"
  have t: "bit t k \<Longrightarrow> k < 2" for k
    using assms(3) by (metis bit_and_iff bit_three)
  have m: "bit (drop_bit (j' * 2) ((b AND NOT (push_bit (j * 2) 3)) OR push_bit (j * 2) t) AND 3) n \<longleftrightarrow>
      n < 2 \<and> (bit b (j' * 2 + n) \<and> \<not> (j * 2 \<le> j' * 2 + n \<and> j' * 2 + n - j * 2 < 2) \<or>
               j * 2 \<le> j' * 2 + n \<and> bit t (j' * 2 + n - j * 2))"
    using assms(2) by (auto simp: bit_simps bit_three simp del: bit_numeral_word_iff)
  consider "j' = j" | "j' < j" | "j < j'" by linarith
  then show "bit (drop_bit (j' * 2) ((b AND NOT (push_bit (j * 2) 3)) OR push_bit (j * 2) t) AND 3) n =
      bit (if j' = j then t else drop_bit (j' * 2) b AND 3) n"
    unfolding m by cases (auto simp: bit_simps bit_three simp del: bit_numeral_word_iff dest: t)
qed

section \<open>Writing a slot\<close>

text \<open>Slot by slot, what a state shows.\<close>

definition same_slots_but :: "nat \<Rightarrow> hashmap \<Rightarrow> hashmap \<Rightarrow> bool" where
  "same_slots_but i h' h \<longleftrightarrow>
     (\<forall>j < size_allocated h. j \<noteq> i \<longrightarrow>
        tag_at h' j = tag_at h j \<and> key_at h' j = key_at h j \<and> val_at h' j = val_at h j)"

lemma tag_set_slot:
  assumes "layout_ok h" and "i < size_allocated h" and "t AND 3 = t"
  shows "\<exists>h'. tag_set h i t = Inr h' \<and> layout_ok h' \<and> same_shape h' h \<and>
    hm_size h' = hm_size h \<and> hm_lock h' = hm_lock h \<and>
    tag_at h' i = t \<and> key_at h' i = key_at h i \<and> val_at h' i = val_at h i \<and> same_slots_but i h' h \<and>
    drop (tag_bytes (size_allocated h)) (data h') = drop (tag_bytes (size_allocated h)) (data h)"
proof -
  define v where "v = (data h ! (i div 4) AND NOT (push_bit (i mod 4 * 2) 3)) OR push_bit (i mod 4 * 2) t"
  define h' where "h' = h\<lparr>data := (data h)[i div 4 := v]\<rparr>"
  have set: "tag_set h i t = Inr h'"
    using tag_in_data [OF assms(1,2)]
    by (simp add: tag_set_def rd8_ok wr8_ok h'_def v_def Let_def)
  have off: "key_off h' j = key_off h j" for j
    by (simp add: key_off_def h'_def)
  have keys: "key_at h' j = key_at h j \<and> val_at h' j = val_at h j" for j
    unfolding key_at_def val_at_def off using tag_before_slot [OF assms(2), of j]
    by (simp add: h'_def)
  have tags: "tag_at h' j = (if j = i then t else tag_at h j)" for j
  proof (cases "j div 4 = i div 4")
    case True
    then have "j mod 4 = i mod 4 \<longleftrightarrow> j = i" by (metis div_mult_mod_eq)
    with True tag_in_data [OF assms(1,2)] tag_of_set_tag [OF _ _ assms(3), of "i mod 4" "j mod 4"]
    show ?thesis by (auto simp: tag_at_def h'_def v_def)
  next
    case False
    then show ?thesis by (auto simp: tag_at_def h'_def)
  qed
  have "drop (tag_bytes (size_allocated h)) (data h') = drop (tag_bytes (size_allocated h)) (data h)"
    using tag_byte_bound [OF assms(2)] by (simp add: h'_def)
  moreover have "layout_ok h'" "same_shape h' h" "hm_size h' = hm_size h" "hm_lock h' = hm_lock h"
    using assms(1) by (simp_all add: h'_def layout_ok_def same_shape_def)
  ultimately show ?thesis
    using set keys tags by (auto simp: same_slots_but_def)
qed

lemma set_drop_splice:
  assumes "t \<le> i" and "i + length bs \<le> length b"
  shows "set (drop t (splice i bs b)) \<subseteq> set bs \<union> set (drop t b)"
proof -
  have "drop t (splice i bs b) = take (i - t) (drop t b) @ bs @ drop (i + length bs) b"
    using assms by (simp add: splice_def drop_take)
  moreover have "set (take (i - t) (drop t b)) \<subseteq> set (drop t b)" by (rule set_take_subset)
  moreover have "set (drop (i + length bs) b) \<subseteq> set (drop t b)"
    using assms by (intro set_drop_subset_set_drop) simp
  ultimately show ?thesis by auto
qed

text \<open>The two copies of an insertion, before the tag is set.\<close>

lemma write_key_value:
  assumes ok: "layout_ok h" and i: "i < size_allocated h"
    and key: "length key = size_key h" and val: "length val = size_value h"
  defines "h' \<equiv> h\<lparr>data := splice (key_off h i + size_key h) val (splice (key_off h i) key (data h))\<rparr>"
  shows "layout_ok h'" and "same_shape h' h" and "same_slots_but i h' h"
    and "key_at h' i = key" and "val_at h' i = val" and "tag_at h' j = tag_at h j \<or> j \<ge> size_allocated h"
    and "set (drop (tag_bytes (size_allocated h)) (data h')) \<subseteq>
      set key \<union> set val \<union> set (drop (tag_bytes (size_allocated h)) (data h))"
proof -
  have in1: "key_off h i + length key \<le> length (data h)"
    and in2: "key_off h i + size_key h + length val \<le> length (splice (key_off h i) key (data h))"
    using slot_in_data [OF ok i] key val by (simp_all add: length_splice)
  have len: "length (data h') = length (data h)"
    using in1 in2 by (simp add: h'_def length_splice)
  show "layout_ok h'" using ok len by (simp add: layout_ok_def h'_def)
  show "same_shape h' h" by (simp add: same_shape_def h'_def)
  have off: "key_off h' j = key_off h j" for j by (simp add: key_off_def h'_def)
  have tag: "tag_at h' j = tag_at h j" if "j < size_allocated h" for j
    using tag_before_slot [OF that, of i] tag_in_data [OF ok that] in1 in2
    by (simp add: tag_at_def h'_def nth_splice length_splice)
  then show "tag_at h' j = tag_at h j \<or> j \<ge> size_allocated h" by (meson not_le_imp_less)
  show "key_at h' i = key"
    unfolding key_at_def off using in1 in2 key
    by (simp add: h'_def take_drop_splice_other take_drop_splice_same)
  show "val_at h' i = val"
    unfolding val_at_def off using in2 val by (simp add: h'_def take_drop_splice_same)
  have "key_at h' j = key_at h j \<and> val_at h' j = val_at h j" if "j \<noteq> i" for j
    unfolding key_at_def val_at_def off using slots_apart [OF that, of h] in1 in2 key val
    by (auto simp: h'_def take_drop_splice_other)
  with tag show "same_slots_but i h' h" by (simp add: same_slots_but_def)
  have t: "tag_bytes (size_allocated h) \<le> key_off h i"
    by (simp add: key_off_def tag_bytes_def)
  show "set (drop (tag_bytes (size_allocated h)) (data h')) \<subseteq>
      set key \<union> set val \<union> set (drop (tag_bytes (size_allocated h)) (data h))"
    using set_drop_splice [OF t in1] set_drop_splice [OF trans_le_add1 [OF t] in2]
    by (auto simp: h'_def)
qed

lemma write_slot_spec:
  assumes ok: "layout_ok h" and i: "i < size_allocated h"
    and key: "length key = size_key h" and val: "length val = size_value h"
  shows "\<exists>h'. write_slot h i key val = Inr h' \<and> layout_ok h' \<and> same_shape h' h \<and>
    hm_size h' = hm_size h + 1 \<and> hm_lock h' = hm_lock h \<and>
    tag_at h' i = HASHMAP_TAG_TAKEN \<and> key_at h' i = key \<and> val_at h' i = val \<and>
    same_slots_but i h' h \<and>
    set (drop (tag_bytes (size_allocated h)) (data h')) \<subseteq>
      set key \<union> set val \<union> set (drop (tag_bytes (size_allocated h)) (data h))"
proof -
  let ?h1 = "h\<lparr>data := splice (key_off h i + size_key h) val (splice (key_off h i) key (data h))\<rparr>"
  note h1 = write_key_value [OF assms]
  have i1: "i < size_allocated ?h1" using i by simp
  have "HASHMAP_TAG_TAKEN AND 3 = HASHMAP_TAG_TAKEN" by (simp add: tag_defs)
  from tag_set_slot [OF h1(1) i1 this] obtain h2 where
    h2: "tag_set ?h1 i HASHMAP_TAG_TAKEN = Inr h2" "layout_ok h2" "same_shape h2 ?h1"
      "hm_size h2 = hm_size ?h1" "hm_lock h2 = hm_lock ?h1" "tag_at h2 i = HASHMAP_TAG_TAKEN"
      "key_at h2 i = key_at ?h1 i" "val_at h2 i = val_at ?h1 i" "same_slots_but i h2 ?h1"
      "drop (tag_bytes (size_allocated h)) (data h2) = drop (tag_bytes (size_allocated h)) (data ?h1)"
    by auto
  let ?h3 = "h2\<lparr>hm_size := hm_size h2 + 1\<rparr>"
  have "write_slot h i key val = Inr ?h3"
    using slot_in_data [OF ok i] key val h2(1)
    by (simp add: write_slot_def Let_def wr_bytes_ok length_splice)
  moreover have "layout_ok ?h3" "same_shape ?h3 h" "same_slots_but i ?h3 h"
    using h2(2,3,9) h1(2,3)
    by (simp_all add: layout_ok_def same_shape_def same_slots_but_def tag_at_def key_at_def
        val_at_def key_off_def)
  ultimately show ?thesis
    using h2 h1(4,5,7)
    by (simp add: tag_at_def key_at_def val_at_def key_off_def)
qed

section \<open>Probe sequences\<close>

definition probe_path :: "nat \<Rightarrow> nat \<Rightarrow> nat \<Rightarrow> nat list" where
  "probe_path n s len = map (\<lambda>d. (s + d) mod n) [0..<len]"

lemma length_probe_path [simp]: "length (probe_path n s len) = len"
  by (simp add: probe_path_def)

lemma nth_probe_path [simp]: "d < len \<Longrightarrow> probe_path n s len ! d = (s + d) mod n"
  by (simp add: probe_path_def)

lemma probe_path_Suc:
  assumes "s < n"
  shows "probe_path n s (Suc len) = s # probe_path n ((s + 1) mod n) len"
proof (rule nth_equalityI)
  fix d
  assume "d < length (probe_path n s (Suc len))"
  then show "probe_path n s (Suc len) ! d = (s # probe_path n ((s + 1) mod n) len) ! d"
    using assms by (cases d) (simp_all add: mod_simps)
qed simp

lemma probe_path_covers: "s < n \<Longrightarrow> (i :: nat) < n \<Longrightarrow> \<exists>d < n. (s + d) mod n = i"
proof -
  assume s: "s < n" and i: "i < n"
  show ?thesis
  proof (cases "s \<le> i")
    case True
    with i show ?thesis by (intro exI [of _ "i - s"]) auto
  next
    case False
    with s i show ?thesis by (intro exI [of _ "n - s + i"]) auto
  qed
qed

lemma probe_path_inj:
  fixes s d d' n :: nat
  assumes "(s + d) mod n = (s + d') mod n" and "d < n" and "d' < n"
  shows "d = d'"
proof -
  have aux: "a = b" if "a \<le> b" "b < n" "(s + a) mod n = (s + b) mod n" for a b :: nat
  proof -
    have "n dvd (s + b) - (s + a)"
      using that mod_eq_dvd_iff_nat [of "s + a" "s + b" n] by simp
    then have "n dvd b - a" by simp
    with that(2) have "b - a = 0" using dvd_imp_le [of n "b - a"] by linarith
    with that(1) show ?thesis by simp
  qed
  from aux [of d d'] aux [of d' d] assms show ?thesis by (cases "d \<le> d'") auto
qed

lemma find_append:
  "find P (xs @ ys) = (case find P xs of None \<Rightarrow> find P ys | Some x \<Rightarrow> Some x)"
  by (induction xs) auto

definition get_stop :: "hashmap \<Rightarrow> buf \<Rightarrow> nat \<Rightarrow> bool" where
  "get_stop h key j \<longleftrightarrow>
     tag_at h j = HASHMAP_TAG_EMPTY \<or> tag_at h j = HASHMAP_TAG_TAKEN \<and> key_at h j = key"

definition insert_stop :: "hashmap \<Rightarrow> nat \<Rightarrow> bool" where
  "insert_stop h j \<longleftrightarrow> tag_at h j = HASHMAP_TAG_EMPTY \<or> tag_at h j = HASHMAP_TAG_GRAVE"

text \<open>The loops search along the probe sequence.\<close>

lemma get_probe_find:
  assumes "layout_ok h" and "s < size_allocated h"
  shows "get_probe len h key s =
    (case find (get_stop h key) (probe_path (size_allocated h) s len) of
       None \<Rightarrow> Inl Diverges
     | Some j \<Rightarrow> Inr (if tag_at h j = HASHMAP_TAG_TAKEN then Some j else None))"
  using assms(2)
proof (induction len arbitrary: s)
  case 0
  then show ?case by (simp add: probe_path_def)
next
  case (Suc len)
  have "(s + 1) mod size_allocated h < size_allocated h"
    using assms(1) by (simp add: layout_ok_def)
  note IH = Suc.IH [OF this]
  show ?case
    using Suc.prems assms(1) IH key_in_data [OF assms(1) Suc.prems]
    by (simp add: probe_path_Suc tag_get_slot rd_bytes_ok get_stop_def key_at_def tag_defs)
qed

lemma insert_probe_find:
  assumes "layout_ok h" and "s < size_allocated h"
  shows "insert_probe len h s =
    (case find (insert_stop h) (probe_path (size_allocated h) s len) of
       None \<Rightarrow> Inl Diverges | Some j \<Rightarrow> Inr j)"
  using assms(2)
proof (induction len arbitrary: s)
  case 0
  then show ?case by (simp add: probe_path_def)
next
  case (Suc len)
  have "(s + 1) mod size_allocated h < size_allocated h"
    using assms(1) by (simp add: layout_ok_def)
  note IH = Suc.IH [OF this]
  show ?case
    using Suc.prems assms(1) IH
    by (simp add: probe_path_Suc tag_get_slot insert_stop_def)
qed

text \<open>
  The probe bound is exact: \<open>size_allocated\<close> probes see every slot, so a search that has
  not stopped by then does not stop later either.
\<close>

lemma find_probe_path_bound:
  assumes "s < n" and "n \<le> len"
  shows "find P (probe_path n s len) = find P (probe_path n s n)"
proof -
  have split: "probe_path n s len = probe_path n s n @ map (\<lambda>d. (s + d) mod n) [n..<len]"
    using assms(2) upt_add_eq_append [of 0 n "len - n"] by (simp add: probe_path_def)
  show ?thesis
  proof (cases "find P (probe_path n s n)")
    case (Some j)
    then show ?thesis by (simp add: split find_append)
  next
    case None
    then have none: "\<forall>d < n. \<not> P ((s + d) mod n)"
      by (auto simp: find_None_iff probe_path_def)
    have "\<not> P i" if "i < n" for i
      using probe_path_covers [OF assms(1) that] none by auto
    moreover have "(s + d) mod n < n" for d using assms(1) by simp
    ultimately have "find P (map (\<lambda>d. (s + d) mod n) [n..<len]) = None"
      by (auto simp: find_None_iff)
    then show ?thesis using None by (simp add: split find_append)
  qed
qed

lemma get_probe_bound_exact:
  assumes "layout_ok h" and "s < size_allocated h" and "size_allocated h \<le> len"
  shows "get_probe len h key s = get_probe (size_allocated h) h key s"
  by (simp add: get_probe_find [OF assms(1,2)] find_probe_path_bound [OF assms(2,3)])

lemma insert_probe_bound_exact:
  assumes "layout_ok h" and "s < size_allocated h" and "size_allocated h \<le> len"
  shows "insert_probe len h s = insert_probe (size_allocated h) h s"
  by (simp add: insert_probe_find [OF assms(1,2)] find_probe_path_bound [OF assms(2,3)])

end
