(* ===== verification/Hashmap_Map.thy ===== *)
theory Hashmap_Map
  imports Hashmap_Slots Stores
begin

text \<open>
  The hash map as a map from keys to values.  \<open>hm_inv\<close> is the invariant of every table
  the program builds (it never removes an entry, so there are no graves): the counter is the
  number of taken slots, at most half of the slots are taken, and every taken slot is reached
  from the home slot of its key through taken slots only.  Under it every operation ends
  without a fault, lookups read the map \<open>hm_view\<close>, and an insertion that does not grow the
  table adds one entry to it.  Growth is treated last: what it leaves in the table is not what
  was in it.
\<close>

section \<open>Invariant and abstraction\<close>

definition home :: "hashmap \<Rightarrow> buf \<Rightarrow> nat" where
  "home h key = unat (hash_func h key) mod size_allocated h"

definition find_slot :: "hashmap \<Rightarrow> buf \<Rightarrow> nat option" where
  "find_slot h key = find (get_stop h key) (probe_path (size_allocated h) (home h key) (size_allocated h))"

definition hm_view :: "hashmap \<Rightarrow> buf \<Rightarrow> buf option" where
  "hm_view h key =
     (case find_slot h key of
        None \<Rightarrow> None
      | Some j \<Rightarrow> if tag_at h j = HASHMAP_TAG_TAKEN then Some (val_at h j) else None)"

definition taken_slots :: "hashmap \<Rightarrow> nat set" where
  "taken_slots h = {i. i < size_allocated h \<and> tag_at h i = HASHMAP_TAG_TAKEN}"

text \<open>Slot \<open>i\<close> is \<open>d\<close> steps from \<open>s\<close>, past taken slots only.\<close>

definition reached :: "hashmap \<Rightarrow> nat \<Rightarrow> nat \<Rightarrow> nat \<Rightarrow> bool" where
  "reached h s d i \<longleftrightarrow> d < size_allocated h \<and> i = (s + d) mod size_allocated h \<and>
     (\<forall>d' < d. tag_at h ((s + d') mod size_allocated h) = HASHMAP_TAG_TAKEN)"

definition hm_inv :: "hashmap \<Rightarrow> bool" where
  "hm_inv h \<longleftrightarrow> layout_ok h \<and>
     (\<forall>i < size_allocated h. tag_at h i = HASHMAP_TAG_EMPTY \<or> tag_at h i = HASHMAP_TAG_TAKEN) \<and>
     hm_size h = card (taken_slots h) \<and> hm_size h \<le> size_allocated h div 2 \<and>
     (\<forall>i \<in> taken_slots h. \<exists>d. reached h (home h (key_at h i)) d i)"

lemma hm_inv_layout: "hm_inv h \<Longrightarrow> layout_ok h"
  by (simp add: hm_inv_def)

lemma home_less: "layout_ok h \<Longrightarrow> home h key < size_allocated h"
  by (simp add: home_def layout_ok_def)

lemma finite_taken_slots [simp]: "finite (taken_slots h)"
  by (simp add: taken_slots_def)

lemma tag_neq [simp]: "HASHMAP_TAG_TAKEN \<noteq> HASHMAP_TAG_EMPTY" "HASHMAP_TAG_EMPTY \<noteq> HASHMAP_TAG_TAKEN"
  "HASHMAP_TAG_TAKEN \<noteq> HASHMAP_TAG_GRAVE" "HASHMAP_TAG_GRAVE \<noteq> HASHMAP_TAG_TAKEN"
  "HASHMAP_TAG_EMPTY \<noteq> HASHMAP_TAG_GRAVE" "HASHMAP_TAG_GRAVE \<noteq> HASHMAP_TAG_EMPTY"
  by (simp_all add: tag_defs)

text \<open>At most half of the slots are taken, so some slot is empty.\<close>

lemma hm_inv_empty_slot:
  assumes "hm_inv h"
  shows "\<exists>i < size_allocated h. tag_at h i = HASHMAP_TAG_EMPTY"
proof (rule ccontr)
  assume none: "\<not> ?thesis"
  with assms have "taken_slots h = {..<size_allocated h}"
    by (auto simp: hm_inv_def taken_slots_def)
  with assms show False by (auto simp: hm_inv_def layout_ok_def)
qed

lemma find_path_Some:
  "find P (probe_path n s len) = Some j \<longleftrightarrow>
     (\<exists>d < len. P ((s + d) mod n) \<and> j = (s + d) mod n \<and> (\<forall>d' < d. \<not> P ((s + d') mod n)))"
  by (auto simp: find_Some_iff)

lemma find_path_exists:
  assumes "s < n" and "i < n" and "P i"
  obtains j where "find P (probe_path n s n) = Some j"
proof -
  from probe_path_covers [OF assms(1,2)] obtain d where "d < n" "(s + d) mod n = i" by blast
  with assms(3) have "i \<in> set (probe_path n s n)" by (auto simp: probe_path_def)
  with assms(3) have "find P (probe_path n s n) \<noteq> None" by (auto simp: find_None_iff)
  then show ?thesis using that by auto
qed

section \<open>Lookup\<close>

text \<open>A lookup stops: at the slot of the key, or at an empty slot.\<close>

lemma find_slot_stops:
  assumes "hm_inv h"
  obtains j where "find_slot h key = Some j" and "j < size_allocated h" and "get_stop h key j"
proof -
  from hm_inv_empty_slot [OF assms] obtain i where
    "i < size_allocated h" "tag_at h i = HASHMAP_TAG_EMPTY" by blast
  moreover have "home h key < size_allocated h"
    using assms by (simp add: hm_inv_layout home_less)
  ultimately obtain j where j: "find_slot h key = Some j"
    unfolding find_slot_def by (meson find_path_exists get_stop_def)
  then have "j < size_allocated h" "get_stop h key j"
    using \<open>home h key < size_allocated h\<close> by (auto simp: find_slot_def find_path_Some)
  with j show ?thesis using that by blast
qed

text \<open>
  What clients do with \<open>hashmap_get\<close>: read the value the returned pointer points at.
\<close>

definition hashmap_lookup :: "hashmap \<Rightarrow> buf \<Rightarrow> (hashmap \<times> buf option) res" where
  "hashmap_lookup h key =
     ebind (hashmap_get h key) (\<lambda>(h1, r).
       case r of
         None \<Rightarrow> Inr (h1, None)
       | Some p \<Rightarrow> ebind (rd_bytes (data h1) p (size_value h1)) (\<lambda>v. Inr (h1, Some v)))"

lemma hashmap_get_eq:
  assumes "hm_inv h"
  shows "hashmap_get h key =
    (case find_slot h key of
       None \<Rightarrow> Inl Diverges
     | Some j \<Rightarrow> if tag_at h j = HASHMAP_TAG_TAKEN
         then Inr (hashmap_unlock h, Some (key_off h j + size_key h)) else Inr (h, None))"
  using get_probe_find [OF hm_inv_layout [OF assms] home_less [OF hm_inv_layout [OF assms]]]
  by (auto simp: hashmap_get_def find_slot_def home_def split: option.splits)

lemma hashmap_lookup_spec:
  assumes "hm_inv h"
  shows "hashmap_lookup h key =
    Inr (if hm_view h key = None then h else hashmap_unlock h, hm_view h key)"
proof -
  from find_slot_stops [OF assms, of key] obtain j where
    j: "find_slot h key = Some j" "j < size_allocated h" by blast
  have "key_off h j + size_key h + size_value h \<le> length (data h)"
    using slot_in_data [OF hm_inv_layout [OF assms] j(2)] by simp
  with j show ?thesis
    by (auto simp: hashmap_lookup_def hashmap_get_eq [OF assms] hm_view_def hashmap_unlock_def
        rd_bytes_ok val_at_def)
qed

lemma hashmap_contains_spec:
  assumes "hm_inv h"
  shows "hashmap_contains h key =
    Inr (if hm_view h key = None then h else hashmap_unlock h, hm_view h key \<noteq> None)"
proof -
  from find_slot_stops [OF assms, of key] obtain j where "find_slot h key = Some j" by blast
  then show ?thesis
    by (auto simp: hashmap_contains_def hashmap_get_eq [OF assms] hm_view_def)
qed

text \<open>The lock is no part of what the invariant and the abstraction read.\<close>

lemma hm_view_lock [simp]: "hm_view (h\<lparr>hm_lock := m\<rparr>) key = hm_view h key"
proof -
  have "tag_at (h\<lparr>hm_lock := m\<rparr>) = tag_at h" "key_at (h\<lparr>hm_lock := m\<rparr>) = key_at h"
    "val_at (h\<lparr>hm_lock := m\<rparr>) = val_at h"
    by (auto simp: fun_eq_iff tag_at_def key_at_def val_at_def key_off_def)
  then show ?thesis by (simp add: hm_view_def find_slot_def home_def get_stop_def [abs_def] cong: option.case_cong if_cong)
qed

lemma hm_inv_lock [simp]: "hm_inv (h\<lparr>hm_lock := m\<rparr>) \<longleftrightarrow> hm_inv h"
proof -
  have "tag_at (h\<lparr>hm_lock := m\<rparr>) = tag_at h" "key_at (h\<lparr>hm_lock := m\<rparr>) = key_at h"
    by (auto simp: fun_eq_iff tag_at_def key_at_def key_off_def)
  then show ?thesis
    by (simp add: hm_inv_def layout_ok_def taken_slots_def reached_def home_def)
qed

lemma hm_inv_unlock [simp]: "hm_inv (hashmap_unlock h) \<longleftrightarrow> hm_inv h"
  by (simp add: hashmap_unlock_def)

lemma hm_view_unlock [simp]: "hm_view (hashmap_unlock h) key = hm_view h key"
  by (simp add: hashmap_unlock_def)

section \<open>Insertion without growth\<close>

text \<open>The slot an insertion picks: the first empty one on the probe sequence.\<close>

lemma insert_probe_slot:
  assumes "hm_inv h" and "s < size_allocated h"
  obtains d j where "insert_probe (size_allocated h) h s = Inr j" and "reached h s d j"
    and "tag_at h j = HASHMAP_TAG_EMPTY"
proof -
  from hm_inv_empty_slot [OF assms(1)] obtain i where
    "i < size_allocated h" "tag_at h i = HASHMAP_TAG_EMPTY" by blast
  with assms(2) obtain j where j: "find (insert_stop h) (probe_path (size_allocated h) s (size_allocated h)) = Some j"
    by (meson find_path_exists insert_stop_def)
  have tags: "tag_at h ((s + d) mod size_allocated h) = HASHMAP_TAG_EMPTY \<or>
      tag_at h ((s + d) mod size_allocated h) = HASHMAP_TAG_TAKEN" for d
    using assms by (auto simp: hm_inv_def)
  from j obtain d where d: "d < size_allocated h" "j = (s + d) mod size_allocated h" "insert_stop h j"
    "\<forall>d' < d. \<not> insert_stop h ((s + d') mod size_allocated h)"
    by (auto simp: find_path_Some)
  have "tag_at h j = HASHMAP_TAG_EMPTY"
    using d(2,3) tags [of d] by (auto simp: insert_stop_def)
  moreover have "reached h s d j"
    using d tags by (auto simp: reached_def insert_stop_def)
  ultimately show ?thesis
    using that j insert_probe_find [OF hm_inv_layout [OF assms(1)] assms(2)] by auto
qed

text \<open>
  One slot has been filled: \<open>h'\<close> is \<open>h\<close> with \<open>key\<close> and \<open>val\<close> in slot \<open>j\<close>, which was the
  first empty one from the home slot of the key.
\<close>

definition filled :: "nat \<Rightarrow> nat \<Rightarrow> buf \<Rightarrow> buf \<Rightarrow> hashmap \<Rightarrow> hashmap \<Rightarrow> bool" where
  "filled j d key val h' h \<longleftrightarrow>
     layout_ok h' \<and> same_shape h' h \<and> hm_size h' = hm_size h + 1 \<and>
     tag_at h j = HASHMAP_TAG_EMPTY \<and> reached h (home h key) d j \<and>
     tag_at h' j = HASHMAP_TAG_TAKEN \<and> key_at h' j = key \<and> val_at h' j = val \<and>
     same_slots_but j h' h"

lemma filled_less: "filled j d key val h' h \<Longrightarrow> layout_ok h \<Longrightarrow> j < size_allocated h"
  by (auto simp: filled_def reached_def layout_ok_def)

lemma filled_tag:
  "filled j d key val h' h \<Longrightarrow> i < size_allocated h \<Longrightarrow>
     tag_at h' i = (if i = j then HASHMAP_TAG_TAKEN else tag_at h i)"
  by (simp add: filled_def same_slots_but_def)

lemma filled_reached:
  assumes "filled j d key val h' h" and "layout_ok h" and "reached h s e i"
  shows "reached h' s e i"
proof -
  have n: "size_allocated h' = size_allocated h" using assms(1) by (simp add: filled_def same_shape_def)
  have "(s + e') mod size_allocated h < size_allocated h" for e'
    using assms(2) by (simp add: layout_ok_def)
  with assms filled_tag [OF assms(1)] show ?thesis by (simp add: reached_def n)
qed

lemma filled_home: "filled j d key val h' h \<Longrightarrow> home h' k = home h k"
  by (simp add: filled_def same_shape_def home_def)

lemma filled_inv:
  assumes f: "filled j d key val h' h" and inv: "hm_inv h" and room: "hm_size h < size_allocated h div 2"
  shows "hm_inv h'"
proof -
  have ok: "layout_ok h" using inv by (rule hm_inv_layout)
  have n: "size_allocated h' = size_allocated h" using f by (simp add: filled_def same_shape_def)
  have j: "j < size_allocated h" using f ok by (rule filled_less)
  have taken: "taken_slots h' = insert j (taken_slots h)"
    using j filled_tag [OF f] by (auto simp: taken_slots_def n)
  have "j \<notin> taken_slots h" using f by (simp add: filled_def taken_slots_def)
  then have card: "hm_size h' = card (taken_slots h')"
    using f inv by (simp add: taken hm_inv_def filled_def)
  have tags: "\<forall>i < size_allocated h'. tag_at h' i = HASHMAP_TAG_EMPTY \<or> tag_at h' i = HASHMAP_TAG_TAKEN"
    using inv filled_tag [OF f] by (simp add: hm_inv_def n)
  have "\<exists>e. reached h' (home h' (key_at h' i)) e i" if i: "i \<in> taken_slots h'" for i
  proof (cases "i = j")
    case True
    with f filled_reached [OF f ok] show ?thesis
      by (auto simp: filled_home [OF f] filled_def)
  next
    case False
    with i taken have "i \<in> taken_slots h" by simp
    moreover from this False f have "key_at h' i = key_at h i"
      by (simp add: filled_def same_slots_but_def taken_slots_def)
    moreover from \<open>i \<in> taken_slots h\<close> inv obtain e where "reached h (home h (key_at h i)) e i"
      by (auto simp: hm_inv_def)
    ultimately show ?thesis
      using filled_reached [OF f ok] by (auto simp: filled_home [OF f])
  qed
  with card tags f room show ?thesis
    by (simp add: hm_inv_def filled_def n)
qed

text \<open>In an invariant table, a key that is present is found.\<close>

lemma find_slot_unique:
  assumes inv: "hm_inv h" and find: "find_slot h k = Some t"
    and i: "i \<in> taken_slots h" and key: "key_at h i = k"
  shows "tag_at h t = HASHMAP_TAG_TAKEN"
proof -
  from inv i key obtain e where e: "reached h (home h k) e i" by (auto simp: hm_inv_def)
  from find obtain d where d: "d < size_allocated h" "t = (home h k + d) mod size_allocated h"
    "get_stop h k t" "\<forall>d' < d. \<not> get_stop h k ((home h k + d') mod size_allocated h)"
    by (auto simp: find_slot_def find_path_Some)
  have "get_stop h k i" using i key by (simp add: get_stop_def taken_slots_def)
  with e d(4) have "d \<le> e" by (metis not_le_imp_less reached_def)
  with e d i show ?thesis by (cases "d = e") (auto simp: reached_def taken_slots_def)
qed

text \<open>The abstract effect: a new key is added, everything else stays.\<close>

lemma filled_view_other:
  assumes f: "filled j d key val h' h" and inv: "hm_inv h" and inv': "hm_inv h'" and k: "k \<noteq> key"
  shows "hm_view h' k = hm_view h k"
proof -
  let ?n = "size_allocated h"
  let ?p = "\<lambda>e. (home h k + e) mod ?n"
  have ok: "layout_ok h" using inv by (rule hm_inv_layout)
  have n: "size_allocated h' = ?n" using f by (simp add: filled_def same_shape_def)
  have less: "?p e < ?n" for e using ok by (simp add: layout_ok_def)
  have stop: "get_stop h' k i \<longleftrightarrow> i \<noteq> j \<and> get_stop h k i" if "i < ?n" for i
    using f that k by (auto simp: get_stop_def filled_def same_slots_but_def)
  from find_slot_stops [OF inv', of k] obtain t where t: "find_slot h' k = Some t" "t < ?n"
    by (auto simp: n)
  then obtain e where e: "e < ?n" "t = ?p e" "get_stop h' k t" "\<forall>e' < e. \<not> get_stop h' k (?p e')"
    by (auto simp: find_slot_def find_path_Some filled_home [OF f] n)
  show ?thesis
  proof (cases "\<exists>e' < e. ?p e' = j")
    case False
    with e stop less have "\<forall>e' < e. \<not> get_stop h k (?p e')" by metis
    with e stop less have "find_slot h k = Some t"
      by (auto simp: find_slot_def find_path_Some)
    moreover have "tag_at h' t = tag_at h t" "val_at h' t = val_at h t"
      using f e(2,3) stop less by (auto simp: filled_def same_slots_but_def)
    ultimately show ?thesis using t by (simp add: hm_view_def)
  next
    case True
    then obtain c where c: "c < e" "?p c = j" by blast
    have "tag_at h' t \<noteq> HASHMAP_TAG_TAKEN"
    proof
      assume "tag_at h' t = HASHMAP_TAG_TAKEN"
      moreover from e(3) stop [OF t(2)] have tj: "t \<noteq> j" by simp
      ultimately have "t \<in> taken_slots h" "key_at h t = k"
        using e(3) t(2) f by (auto simp: get_stop_def taken_slots_def filled_def same_slots_but_def)
      with inv obtain a where a: "reached h (home h k) a t" by (auto simp: hm_inv_def)
      then have "?p a = ?p e" "a < ?n" using e(2) by (simp_all add: reached_def)
      then have "a = e" using e(1) by (rule probe_path_inj)
      with a c have "tag_at h j = HASHMAP_TAG_TAKEN" by (auto simp: reached_def)
      with f show False by (simp add: filled_def)
    qed
    with t have "hm_view h' k = None" by (simp add: hm_view_def)
    moreover have "hm_view h k = None"
    proof (rule ccontr)
      assume "hm_view h k \<noteq> None"
      then obtain u where u: "find_slot h k = Some u" "tag_at h u = HASHMAP_TAG_TAKEN"
        by (auto simp: hm_view_def split: option.splits if_splits)
      then obtain b where b: "b < ?n" "u = ?p b" "get_stop h k u" "\<forall>b' < b. \<not> get_stop h k (?p b')"
        by (auto simp: find_slot_def find_path_Some)
      have "get_stop h k j" using f by (simp add: get_stop_def filled_def)
      with b(4) c have "b \<le> c" by (metis not_le_imp_less)
      moreover have "u \<noteq> j" using u(2) f by (auto simp: filled_def)
      ultimately show False using b e(4) c(1) stop less by (metis le_less_trans)
    qed
    ultimately show ?thesis by simp
  qed
qed

lemma filled_view_key:
  assumes f: "filled j d key val h' h" and inv: "hm_inv h"
  shows "hm_view h' key = (case hm_view h key of None \<Rightarrow> Some val | Some v \<Rightarrow> Some v)"
proof -
  let ?n = "size_allocated h"
  let ?p = "\<lambda>e. (home h key + e) mod ?n"
  have ok: "layout_ok h" using inv by (rule hm_inv_layout)
  have n: "size_allocated h' = ?n" using f by (simp add: filled_def same_shape_def)
  have less: "?p e < ?n" for e using ok by (simp add: layout_ok_def)
  from f have d: "d < ?n" "j = ?p d" "\<forall>d' < d. tag_at h (?p d') = HASHMAP_TAG_TAKEN"
    by (simp_all add: filled_def reached_def)
  have jj: "get_stop h' key j" "get_stop h key j"
    using f by (simp_all add: get_stop_def filled_def)
  have stop: "get_stop h' key i \<longleftrightarrow> get_stop h key i" if "i < ?n" for i
    using f that jj by (cases "i = j") (auto simp: get_stop_def filled_def same_slots_but_def)
  then have same: "find_slot h' key = find_slot h key"
    unfolding find_slot_def filled_home [OF f] n
    by (intro find_cong refl) (auto simp: probe_path_def layout_ok_def ok less)
  from find_slot_stops [OF inv, of key] obtain t where t: "find_slot h key = Some t" "t < ?n" .
  then obtain e where e: "t = ?p e" "\<forall>e' < e. \<not> get_stop h key (?p e')" "get_stop h key t"
    by (auto simp: find_slot_def find_path_Some)
  then have "e \<le> d" using jj(2) d(2) by (metis not_le_imp_less)
  show ?thesis
  proof (cases "t = j")
    case True
    with f same t show ?thesis by (simp add: hm_view_def filled_def)
  next
    case False
    with \<open>e \<le> d\<close> d e(1) have "tag_at h t = HASHMAP_TAG_TAKEN" by (cases "e = d") auto
    with False f same t show ?thesis by (simp add: hm_view_def filled_def same_slots_but_def)
  qed
qed

lemma insert_at_filled:
  assumes inv: "hm_inv h" and key: "length key = size_key h" and val: "length val = size_value h"
  shows "\<exists>h' j d. insert_at h (hash_func h key) key val = Inr h' \<and> filled j d key val h' h \<and>
    hm_lock h' = hm_lock h \<and>
    set (drop (tag_bytes (size_allocated h)) (data h')) \<subseteq>
      set key \<union> set val \<union> set (drop (tag_bytes (size_allocated h)) (data h))"
proof -
  have ok: "layout_ok h" using inv by (rule hm_inv_layout)
  obtain d j where probe: "insert_probe (size_allocated h) h (home h key) = Inr j"
    and r: "reached h (home h key) d j" and empty: "tag_at h j = HASHMAP_TAG_EMPTY"
    using insert_probe_slot [OF inv home_less [OF ok]] .
  have "j < size_allocated h" using r ok by (auto simp: reached_def layout_ok_def)
  from write_slot_spec [OF ok this key val] obtain h' where
    w: "write_slot h j key val = Inr h'" "layout_ok h'" "same_shape h' h" "hm_size h' = hm_size h + 1"
      "hm_lock h' = hm_lock h" "tag_at h' j = HASHMAP_TAG_TAKEN" "key_at h' j = key"
      "val_at h' j = val" "same_slots_but j h' h"
      "set (drop (tag_bytes (size_allocated h)) (data h')) \<subseteq>
        set key \<union> set val \<union> set (drop (tag_bytes (size_allocated h)) (data h))"
    by auto
  then have "filled j d key val h' h" using r empty by (simp add: filled_def)
  moreover have "insert_at h (hash_func h key) key val = Inr h'"
    using probe w(1) by (simp add: insert_at_def home_def)
  ultimately show ?thesis using w by blast
qed

text \<open>Every entry stays in its slot: pointers into the block still point to it.\<close>

definition in_place :: "hashmap \<Rightarrow> hashmap \<Rightarrow> bool" where
  "in_place h h' \<longleftrightarrow> same_shape h' h \<and> layout_ok h' \<and>
     (\<forall>i < size_allocated h. tag_at h i = HASHMAP_TAG_TAKEN \<longrightarrow>
        tag_at h' i = HASHMAP_TAG_TAKEN \<and> key_at h' i = key_at h i \<and> val_at h' i = val_at h i)"

lemma filled_in_place: "filled j d key val h' h \<Longrightarrow> in_place h h'"
  by (auto simp: filled_def in_place_def same_slots_but_def)

lemma insert_at_in_place:
  assumes "hm_inv h" and "length key = size_key h" and "length val = size_value h"
    and "insert_at h (hash_func h key) key val = Inr h'"
  shows "in_place h h'"
  using insert_at_filled [OF assms(1-3)] assms(4) filled_in_place by fastforce

text \<open>The specification of an insertion that does not grow the table.\<close>

lemma insert_at_spec:
  assumes inv: "hm_inv h" and key: "length key = size_key h" and val: "length val = size_value h"
    and room: "hm_size h < size_allocated h div 2"
  shows "\<exists>h'. insert_at h (hash_func h key) key val = Inr h' \<and> hm_inv h' \<and> same_shape h' h \<and>
    hm_size h' = hm_size h + 1 \<and> hm_lock h' = hm_lock h \<and>
    hm_view h' = (\<lambda>k. if k = key \<and> hm_view h k = None then Some val else hm_view h k) \<and>
    set (drop (tag_bytes (size_allocated h)) (data h')) \<subseteq>
      set key \<union> set val \<union> set (drop (tag_bytes (size_allocated h)) (data h))"
proof -
  from insert_at_filled [OF inv key val] obtain h' j d where
    i: "insert_at h (hash_func h key) key val = Inr h'" "filled j d key val h' h"
      "hm_lock h' = hm_lock h" "set (drop (tag_bytes (size_allocated h)) (data h')) \<subseteq>
      set key \<union> set val \<union> set (drop (tag_bytes (size_allocated h)) (data h))" by blast
  have inv': "hm_inv h'" by (rule filled_inv [OF i(2) inv room])
  have "hm_view h' k = (if k = key \<and> hm_view h k = None then Some val else hm_view h k)" for k
    using filled_view_other [OF i(2) inv inv', of k] filled_view_key [OF i(2) inv]
    by (cases "k = key") (auto split: option.splits)
  with i inv' show ?thesis by (auto simp: filled_def)
qed

section \<open>Empty tables\<close>

definition zero_table :: "hashmap \<Rightarrow> bool" where
  "zero_table h \<longleftrightarrow> 0 < size_allocated h \<and> 0 < size_key h \<and> hm_size h = 0 \<and>
     data h = replicate (tag_bytes (size_allocated h) +
       (size_value h + size_key h) * size_allocated h) 0"

text \<open>The bytes behind the tags.\<close>

definition slot_bytes :: "hashmap \<Rightarrow> u8 set" where
  "slot_bytes h = set (drop (tag_bytes (size_allocated h)) (data h))"

lemma zero_table_spec:
  assumes "zero_table h"
  shows "hm_inv h" and "hm_view h k = None" and "slot_bytes h \<subseteq> {0}"
proof -
  have ok: "layout_ok h" using assms by (simp add: zero_table_def layout_ok_def)
  have tag: "tag_at h i = HASHMAP_TAG_EMPTY" if "i < size_allocated h" for i
    using assms tag_in_data [OF ok that]
    by (auto simp: zero_table_def tag_at_def tag_defs)
  then have "taken_slots h = {}" by (auto simp: taken_slots_def)
  with ok tag assms show inv: "hm_inv h" by (simp add: hm_inv_def zero_table_def)
  obtain j where "find_slot h k = Some j" "j < size_allocated h"
    using find_slot_stops [OF inv, of k] by blast
  with tag show "hm_view h k = None" by (simp add: hm_view_def)
  show "slot_bytes h \<subseteq> {0}" using assms by (auto simp: slot_bytes_def zero_table_def)
qed

lemma hashmap_init_spec:
  assumes "0 < sk"
  shows "hm_inv (hashmap_init hf sk sv)" and "hm_view (hashmap_init hf sk sv) k = None"
proof -
  have "(HASHMAP_SIZE_INIT * 2 + 7) div 8 = tag_bytes HASHMAP_SIZE_INIT" "0 < HASHMAP_SIZE_INIT"
    by (simp_all add: HASHMAP_SIZE_INIT_def tag_bytes_def)
  with assms have "zero_table (hashmap_init hf sk sv)"
    by (simp add: zero_table_def hashmap_init_def Let_def)
  from zero_table_spec [OF this] show "hm_inv (hashmap_init hf sk sv)"
    "hm_view (hashmap_init hf sk sv) k = None" by simp_all
qed

section \<open>Growth\<close>

definition zero_key :: "hashmap \<Rightarrow> buf" where "zero_key h = replicate (size_key h) 0"
definition zero_val :: "hashmap \<Rightarrow> buf" where "zero_val h = replicate (size_value h) 0"

text \<open>
  What the loop of \<open>hashmap_grow\<close> keeps: all slot bytes of the new block are zero, so the
  only key that can be in the table is the zero key.
\<close>

definition grow_inv :: "nat \<Rightarrow> hashmap \<Rightarrow> bool" where
  "grow_inv n h \<longleftrightarrow> hm_inv h \<and> size_allocated h = n * 2 + 1 \<and> slot_bytes h \<subseteq> {0} \<and>
     hm_view h = (\<lambda>k. if k = zero_key h \<and> 0 < hm_size h then Some (zero_val h) else None)"

lemma tag_positions_eq: "tag_positions n = map (\<lambda>x. (x div 4, x mod 4)) [0..<4 * n]"
proof (induction n)
  case 0
  then show ?case by (simp add: tag_positions_def)
next
  case (Suc n)
  have "[0..<4 * Suc n] = [0..<4 * n] @ [4 * n..<4 * n + 4]"
    using upt_add_eq_append [of 0 "4 * n" 4] by (simp add: add.commute)
  moreover have "[4 * n..<4 * n + 4] = [4 * n, 4 * n + 1, 4 * n + 2, 4 * n + 3]"
    by (simp add: upt_conv_Cons)
  moreover have "tag_positions (Suc n) = tag_positions n @ [(n, 0), (n, 1), (n, 2), (n, 3)]"
    by (simp add: tag_positions_def upt_conv_Cons)
  moreover have "Suc (4 * n) div 4 = n" "Suc (Suc (4 * n)) div 4 = n" "Suc (Suc (4 * n)) mod 4 = 2"
    by presburger+
  ultimately show ?case using Suc by simp
qed

lemma zero_bytes_take:
  assumes "slot_bytes h \<subseteq> {0}" and "tag_bytes (size_allocated h) \<le> p" and "p + k \<le> length (data h)"
  shows "take k (drop p (data h)) = replicate k 0"
proof -
  have "set (take k (drop p (data h))) \<subseteq> set (drop p (data h))" by (rule set_take_subset)
  also have "\<dots> \<subseteq> slot_bytes h"
    unfolding slot_bytes_def using assms(2) by (rule set_drop_subset_set_drop)
  finally show ?thesis using assms(1,3) by (intro replicate_eqI) auto
qed

lemma insert_depth_room:
  "hm_size h < size_allocated h div 2 \<Longrightarrow>
     hashmap_insert_depth (Suc depth) h key val = insert_at h (hash_func h key) key val"
  by (simp add: Let_def)

declare hashmap_insert_depth.simps [simp del]

text \<open>An insertion during growth adds the zero key and never grows again.\<close>

lemma grow_insert:
  assumes g: "grow_inv n h" and n: "hm_size h < n"
    and key: "key = zero_key h" and val: "val = zero_val h"
  shows "\<exists>h'. hashmap_insert_depth (Suc depth) h key val = Inr h' \<and> grow_inv n h' \<and>
    same_shape h' h \<and> hm_size h' = hm_size h + 1 \<and> hm_lock h' = hm_lock h"
proof -
  have room: "hm_size h < size_allocated h div 2" using g n by (simp add: grow_inv_def)
  have inv: "hm_inv h" using g by (simp add: grow_inv_def)
  have len: "length key = size_key h" "length val = size_value h"
    by (simp_all add: key val zero_key_def zero_val_def)
  from insert_at_spec [OF inv len room] obtain h' where
    h': "insert_at h (hash_func h key) key val = Inr h'" "hm_inv h'" "same_shape h' h"
      "hm_size h' = hm_size h + 1" "hm_lock h' = hm_lock h"
      "hm_view h' = (\<lambda>k. if k = key \<and> hm_view h k = None then Some val else hm_view h k)"
      "slot_bytes h' \<subseteq> set key \<union> set val \<union> slot_bytes h"
    by (auto simp: slot_bytes_def same_shape_def)
  have z: "zero_key h' = zero_key h" "zero_val h' = zero_val h"
    using h'(3) by (simp_all add: zero_key_def zero_val_def same_shape_def)
  have "slot_bytes h' \<subseteq> {0}"
    using h'(7) g by (auto simp: key val zero_key_def zero_val_def grow_inv_def)
  moreover have "hm_view h' = (\<lambda>k. if k = zero_key h' \<and> 0 < hm_size h' then Some (zero_val h') else None)"
    using g by (auto simp: h'(4,6) z key val grow_inv_def)
  ultimately have "grow_inv n h'"
    using h'(2,3) g by (simp add: grow_inv_def same_shape_def)
  with h' show ?thesis by (simp add: insert_depth_room [OF room])
qed

lemma grow_source_in_data:
  assumes g: "grow_inv n h" and x: "x < n"
  defines "p \<equiv> tag_bytes (n * 2 + 1) + ((size_value h + size_key h) + x)"
  shows "p + size_key h + size_value h \<le> length (data h)"
proof -
  let ?s = "size_value h + size_key h"
  have ok: "layout_ok h" using g by (simp add: grow_inv_def hm_inv_def)
  then have s: "1 \<le> ?s" by (simp add: layout_ok_def)
  have "x + 2 * ?s \<le> ?s * (n * 2 + 1)"
  proof -
    obtain m where m: "n = x + 1 + m" using x by (metis Suc_eq_plus1 less_iff_Suc_add add.commute add.left_commute)
    have "x \<le> ?s * x" using s by (metis mult_le_mono1 mult_1)
    then have "x + 2 * ?s \<le> 2 * (?s * x) + 3 * ?s + 2 * (?s * m)" by linarith
    also have "\<dots> = ?s * (n * 2 + 1)" unfolding m by (simp add: algebra_simps)
    finally show ?thesis .
  qed
  moreover have "length (data h) = tag_bytes (n * 2 + 1) + ?s * (n * 2 + 1)"
    using g ok by (simp add: layout_ok_def grow_inv_def)
  moreover have "p + size_key h + size_value h = tag_bytes (n * 2 + 1) + (x + 2 * ?s)"
    by (simp add: p_def)
  ultimately show ?thesis by (simp only: add_le_cancel_left)
qed

lemma grow_loop_spec:
  assumes "grow_inv n h" and "\<forall>x \<in> set xs. x < n \<and> x div 4 < length old_tags"
    and "hm_size h + length xs \<le> n"
  shows "\<exists>h'. grow_loop (hashmap_insert_depth (Suc depth)) old_tags (tag_bytes (n * 2 + 1))
      (map (\<lambda>x. (x div 4, x mod 4)) xs) h = Inr h' \<and>
    grow_inv n h' \<and> same_shape h' h \<and> hm_lock h' = hm_lock h \<and>
    hm_size h' = hm_size h + length (filter
      (\<lambda>x. drop_bit (x mod 4 * 2) (old_tags ! (x div 4)) AND 3 = HASHMAP_TAG_TAKEN) xs)"
  using assms
proof (induction xs arbitrary: h)
  case Nil
  then show ?case by (auto simp: same_shape_def)
next
  case (Cons x xs)
  show ?case
  proof (cases "drop_bit (x mod 4 * 2) (old_tags ! (x div 4)) AND 3 = HASHMAP_TAG_TAKEN")
    case False
    with Cons show ?thesis by (auto simp: rd8_ok)
  next
    case True
    let ?p = "tag_bytes (n * 2 + 1) + ((size_value h + size_key h) + x)"
    have p: "?p + size_key h + size_value h \<le> length (data h)"
      using grow_source_in_data [OF Cons.prems(1), of x] Cons.prems(2) by simp
    have z: "slot_bytes h \<subseteq> {0}" and n: "size_allocated h = n * 2 + 1"
      using Cons.prems(1) by (simp_all add: grow_inv_def)
    have key: "take (size_key h) (drop ?p (data h)) = zero_key h"
      unfolding zero_key_def using p by (intro zero_bytes_take [OF z]) (simp_all add: n)
    have val: "take (size_value h) (drop (?p + size_key h) (data h)) = zero_val h"
      unfolding zero_val_def using p by (intro zero_bytes_take [OF z]) (simp_all add: n)
    have "hm_size h < n" using Cons.prems(3) by simp
    from grow_insert [OF Cons.prems(1) this refl refl, of depth] obtain h1 where
      h1: "hashmap_insert_depth (Suc depth) h (zero_key h) (zero_val h) = Inr h1" "grow_inv n h1"
        "same_shape h1 h" "hm_size h1 = hm_size h + 1" "hm_lock h1 = hm_lock h" by blast
    have "hm_size h1 + length xs \<le> n" using Cons.prems(3) h1(4) by simp
    moreover have "\<forall>x \<in> set xs. x < n \<and> x div 4 < length old_tags" using Cons.prems(2) by simp
    ultimately obtain h' where
      h': "grow_loop (hashmap_insert_depth (Suc depth)) old_tags (tag_bytes (n * 2 + 1))
          (map (\<lambda>x. (x div 4, x mod 4)) xs) h1 = Inr h'"
        "grow_inv n h'" "same_shape h' h1" "hm_lock h' = hm_lock h1"
        "hm_size h' = hm_size h1 + length (filter
          (\<lambda>x. drop_bit (x mod 4 * 2) (old_tags ! (x div 4)) AND 3 = HASHMAP_TAG_TAKEN) xs)"
      using Cons.IH [OF h1(2)] by blast
    have pos: "size_value h + size_key h + x div 4 * 4 + x mod 4 = size_value h + size_key h + x"
      by (metis add.assoc div_mult_mod_eq)
    have "grow_loop (hashmap_insert_depth (Suc depth)) old_tags (tag_bytes (n * 2 + 1))
        (map (\<lambda>x. (x div 4, x mod 4)) (x # xs)) h = Inr h'"
      using Cons.prems(2) True p key val h1(1) h'(1)
      by (simp add: rd8_ok rd_bytes_ok Let_def pos)
    with True h' h1 show ?thesis by (auto simp: same_shape_def)
  qed
qed

text \<open>The new block of \<open>hashmap_grow\<close>, and how many entries the loops see.\<close>

definition grown_base :: "hashmap \<Rightarrow> hashmap" where
  "grown_base h =
     h\<lparr>size_allocated := size_allocated h * 2 + 1,
       data := replicate (tag_bytes (size_allocated h * 2 + 1) +
         (size_value h + size_key h) * (size_allocated h * 2 + 1)) 0,
       hm_size := 0\<rparr>"

definition retained :: "hashmap \<Rightarrow> nat" where
  "retained h =
     length (filter (\<lambda>x. tag_at h x = HASHMAP_TAG_TAKEN) [0..<4 * (size_allocated h div 4)])"

lemma grown_base_inv:
  assumes "layout_ok h"
  shows "grow_inv (size_allocated h) (grown_base h)"
proof -
  have "zero_table (grown_base h)"
    using assms by (simp add: zero_table_def grown_base_def layout_ok_def)
  from zero_table_spec [OF this] show ?thesis
    by (auto simp: grow_inv_def grown_base_def)
qed

lemma grow_with_eq:
  "grow_with ins h = grow_loop ins (data h) (tag_bytes (size_allocated h * 2 + 1))
     (tag_positions (size_allocated h div 4)) (grown_base h)"
proof -
  have "((n * 2 + 1) * 2 + 7) div 8 = tag_bytes (n * 2 + 1)" for n
    unfolding tag_bytes_def by presburger
  then show ?thesis by (simp only: grow_with_def Let_def grown_base_def)
qed

lemma grow_with_spec:
  assumes "layout_ok h"
  shows "\<exists>g. grow_with (hashmap_insert_depth (Suc depth)) h = Inr g \<and>
    grow_inv (size_allocated h) g \<and> same_shape g (grown_base h) \<and> hm_lock g = hm_lock h \<and>
    hm_size g = retained h"
proof -
  let ?xs = "[0..<4 * (size_allocated h div 4)]"
  have "\<forall>x \<in> set ?xs. x < size_allocated h \<and> x div 4 < length (data h)"
  proof
    fix x
    assume "x \<in> set ?xs"
    then have "x < size_allocated h" by auto
    with assms show "x < size_allocated h \<and> x div 4 < length (data h)" by (simp add: tag_in_data)
  qed
  moreover have "hm_size (grown_base h) + length ?xs \<le> size_allocated h"
    by (simp add: grown_base_def)
  ultimately obtain g where
    "grow_loop (hashmap_insert_depth (Suc depth)) (data h) (tag_bytes (size_allocated h * 2 + 1))
        (map (\<lambda>x. (x div 4, x mod 4)) ?xs) (grown_base h) = Inr g"
      "grow_inv (size_allocated h) g" "same_shape g (grown_base h)" "hm_lock g = hm_lock (grown_base h)"
      "hm_size g = hm_size (grown_base h) + length (filter
        (\<lambda>x. drop_bit (x mod 4 * 2) (data h ! (x div 4)) AND 3 = HASHMAP_TAG_TAKEN) ?xs)"
    using grow_loop_spec [OF grown_base_inv [OF assms]] by blast
  then show ?thesis
    by (simp add: grow_with_eq tag_positions_eq grown_base_def retained_def tag_at_def)
qed

lemma retained_le:
  assumes "hm_inv h"
  shows "retained h \<le> hm_size h"
proof -
  let ?xs = "filter (\<lambda>x. tag_at h x = HASHMAP_TAG_TAKEN) [0..<4 * (size_allocated h div 4)]"
  have "retained h = card (set ?xs)"
    by (simp add: retained_def distinct_card [symmetric])
  also have "\<dots> \<le> card (taken_slots h)"
    by (rule card_mono) (auto simp: taken_slots_def)
  finally show ?thesis using assms by (simp add: hm_inv_def)
qed

section \<open>The operations on every table the program builds\<close>

definition same_kind :: "hashmap \<Rightarrow> hashmap \<Rightarrow> bool" where
  "same_kind h' h \<longleftrightarrow>
     hash_func h' = hash_func h \<and> size_key h' = size_key h \<and> size_value h' = size_value h"

lemma same_shape_kind: "same_shape h' h \<Longrightarrow> same_kind h' h"
  by (simp add: same_shape_def same_kind_def)

text \<open>
  Growth ends, without a fault, in a table that satisfies the invariant and holds nothing but
  the zero key.
\<close>

lemma hashmap_grow_spec:
  assumes "hm_inv h"
  shows "\<exists>g. hashmap_grow h = Inr g \<and> hm_inv g \<and> same_kind g h \<and>
    size_allocated g = 2 * size_allocated h + 1 \<and> hm_size g = retained h \<and> hm_lock g = hm_lock h \<and>
    hm_view g = (\<lambda>k. if k = zero_key h \<and> 0 < retained h then Some (zero_val h) else None)"
proof -
  from grow_with_spec [OF hm_inv_layout [OF assms], of 0] obtain g where
    g: "hashmap_grow h = Inr g" "grow_inv (size_allocated h) g" "same_shape g (grown_base h)"
      "hm_lock g = hm_lock h" "hm_size g = retained h"
    by (auto simp: hashmap_grow_def)
  moreover have "zero_key g = zero_key h" "zero_val g = zero_val h" "same_kind g h"
    using g(3) by (simp_all add: zero_key_def zero_val_def same_shape_def same_kind_def grown_base_def)
  ultimately show ?thesis by (auto simp: grow_inv_def)
qed

text \<open>The abstract map an insertion starts from: empty but for the zero key, if it has to grow.\<close>

definition insert_base :: "hashmap \<Rightarrow> buf \<Rightarrow> buf option" where
  "insert_base h =
     (if hm_size h < size_allocated h div 2 then hm_view h
      else (\<lambda>k. if k = zero_key h \<and> 0 < retained h then Some (zero_val h) else None))"

lemma hashmap_insert_room:
  assumes "hm_size h < size_allocated h div 2"
  shows "hashmap_insert h key val = insert_at h (hash_func h key) key val"
  using insert_depth_room [OF assms, of 1] by (simp add: hashmap_insert_def flip: Suc_1)

lemma hashmap_insert_spec:
  assumes inv: "hm_inv h" and key: "length key = size_key h" and val: "length val = size_value h"
  shows "\<exists>h'. hashmap_insert h key val = Inr h' \<and> hm_inv h' \<and> same_kind h' h \<and> hm_lock h' = hm_lock h \<and>
    hm_view h' = (\<lambda>k. if k = key \<and> insert_base h k = None then Some val else insert_base h k) \<and>
    (\<not> hm_size h < size_allocated h div 2 \<longrightarrow> size_allocated h' = 2 * size_allocated h + 1)"
proof (cases "hm_size h < size_allocated h div 2")
  case True
  then have base: "insert_base h = hm_view h" by (simp add: insert_base_def)
  from insert_at_spec [OF inv key val True] same_shape_kind True show ?thesis
    unfolding hashmap_insert_room [OF True] base by blast
next
  case False
  from hashmap_grow_spec [OF inv] obtain g where
    g: "hashmap_grow h = Inr g" "hm_inv g" "same_kind g h" "size_allocated g = 2 * size_allocated h + 1"
      "hm_size g = retained h" "hm_lock g = hm_lock h"
      "hm_view g = (\<lambda>k. if k = zero_key h \<and> 0 < retained h then Some (zero_val h) else None)"
    by blast
  have "hm_size h \<le> size_allocated h div 2" "0 < size_allocated h"
    using inv by (simp_all add: hm_inv_def layout_ok_def)
  then have room: "hm_size g < size_allocated g div 2"
    using retained_le [OF inv] g(4,5) by simp
  have hash: "hash_func g = hash_func h" and len: "length key = size_key g" "length val = size_value g"
    using g(3) key val by (simp_all add: same_kind_def)
  from insert_at_spec [OF g(2) len room] obtain h' where
    h': "insert_at g (hash_func g key) key val = Inr h'" "hm_inv h'" "same_shape h' g"
      "hm_lock h' = hm_lock g"
      "hm_view h' = (\<lambda>k. if k = key \<and> hm_view g k = None then Some val else hm_view g k)"
    by blast
  have "hashmap_insert h key val = Inr h'"
    using False g(1) h'(1)
    by (simp add: hashmap_insert_def hashmap_grow_def numeral_2_eq_2 hashmap_insert_depth.simps hash)
  with h' g False show ?thesis
    by (auto simp: insert_base_def same_shape_def same_kind_def)
qed

section \<open>Properties\<close>

text \<open>
  C12: on every table that satisfies the invariant, a lookup of any key ends without a fault
  (in particular it never probes forever), answers what the abstract map holds for the key
  and changes nothing but the lock; \<open>hashmap_contains\<close> tells whether there is an entry.
\<close>

theorem hashmap_get_total:
  assumes "hm_inv h"
  shows "\<exists>h'. hashmap_lookup h key = Inr (h', hm_view h key) \<and>
    hashmap_contains h key = Inr (h', hm_view h key \<noteq> None) \<and>
    hm_inv h' \<and> hm_view h' = hm_view h \<and> h' = h\<lparr>hm_lock := hm_lock h'\<rparr>"
proof -
  let ?h' = "if hm_view h key = None then h else hashmap_unlock h"
  have "hm_view ?h' = hm_view h" by (simp add: fun_eq_iff)
  then show ?thesis
    using hashmap_lookup_spec [OF assms, of key] hashmap_contains_spec [OF assms, of key] assms
    by (intro exI [of _ ?h']) (simp add: hashmap_unlock_def)
qed

text \<open>A table with one entry, for the witnesses below.\<close>

definition demo_table :: hashmap where
  "demo_table = hashmap_init hashmap_cyclic_hash 2 1"

lemma demo_table_inv: "hm_inv demo_table"
  unfolding demo_table_def by (rule hashmap_init_spec) simp

lemma demo_table_shape: "size_key demo_table = 2" "size_value demo_table = 1" "hm_size demo_table = 0"
  "size_allocated demo_table = 11"
  by (simp_all add: demo_table_def hashmap_init_def HASHMAP_SIZE_INIT_def Let_def)

theorem hashmap_get_total_witness:
  "\<exists>h'. hashmap_lookup demo_table [1, 2] = Inr (h', hm_view demo_table [1, 2]) \<and>
    hashmap_contains demo_table [1, 2] = Inr (h', hm_view demo_table [1, 2] \<noteq> None) \<and>
    hm_inv h' \<and> hm_view h' = hm_view demo_table \<and> h' = demo_table\<lparr>hm_lock := hm_lock h'\<rparr>"
  by (rule hashmap_get_total [OF demo_table_inv])

text \<open>
  C11: below the load limit, inserting a key that is not in the table ends without a fault,
  keeps the invariant and the lock, adds one to the counter and is the update of the abstract
  map at that key.
\<close>

theorem hashmap_insert_adds:
  assumes "hm_inv h" and "hm_size h < size_allocated h div 2" and "hm_view h key = None"
    and "length key = size_key h" and "length val = size_value h"
  shows "\<exists>h'. hashmap_insert h key val = Inr h' \<and> hm_inv h' \<and> hm_lock h' = hm_lock h \<and>
    hm_size h' = hm_size h + 1 \<and> hm_view h' = (hm_view h)(key \<mapsto> val)"
proof -
  from insert_at_spec [OF assms(1,4,5,2)] obtain h' where
    h': "insert_at h (hash_func h key) key val = Inr h'" "hm_inv h'" "hm_size h' = hm_size h + 1"
      "hm_lock h' = hm_lock h"
      "hm_view h' = (\<lambda>k. if k = key \<and> hm_view h k = None then Some val else hm_view h k)"
    by blast
  have "hm_view h' = (hm_view h)(key \<mapsto> val)" using assms(3) by (auto simp: h'(5) fun_eq_iff)
  with h' show ?thesis by (simp add: hashmap_insert_room [OF assms(2)])
qed

theorem hashmap_insert_adds_witness:
  "\<exists>h'. hashmap_insert demo_table [1, 2] [7] = Inr h' \<and> hm_inv h' \<and> hm_lock h' = hm_lock demo_table \<and>
    hm_size h' = hm_size demo_table + 1 \<and> hm_view h' = (hm_view demo_table)([1, 2] \<mapsto> [7])"
proof (rule hashmap_insert_adds)
  show "hm_view demo_table [1, 2] = None"
    unfolding demo_table_def by (rule hashmap_init_spec) simp
qed (simp_all add: demo_table_inv demo_table_shape)




lemma fill_table:
  "hm_inv h \<Longrightarrow> hm_size h + length kvs \<le> size_allocated h div 2 \<Longrightarrow>
   \<forall>kv \<in> set kvs. length (fst kv) = size_key h \<and> length (snd kv) = size_value h \<Longrightarrow>
   \<exists>h'. put_all (\<lambda>k v h. hashmap_insert h k v) kvs h = Inr h' \<and> hm_inv h' \<and> same_shape h' h \<and>
     hm_size h' = hm_size h + length kvs"
proof (induction kvs arbitrary: h)
  case Nil
  then show ?case by (simp add: same_shape_def)
next
  case (Cons kv kvs)
  obtain k v where kv: "kv = (k, v)" by (cases kv)
  have room: "hm_size h < size_allocated h div 2" using Cons.prems(2) by simp
  have len: "length k = size_key h" "length v = size_value h" using Cons.prems(3) kv by simp_all
  from insert_at_spec [OF Cons.prems(1) len room] obtain h1 where
    h1: "hashmap_insert h k v = Inr h1" "hm_inv h1" "same_shape h1 h" "hm_size h1 = hm_size h + 1"
    unfolding hashmap_insert_room [OF room, symmetric] by blast
  have "hm_size h1 + length kvs \<le> size_allocated h1 div 2"
    using h1(3,4) Cons.prems(2) by (simp add: same_shape_def)
  moreover have "\<forall>kv \<in> set kvs. length (fst kv) = size_key h1 \<and> length (snd kv) = size_value h1"
    using h1(3) Cons.prems(3) by (simp add: same_shape_def)
  ultimately obtain h2 where "put_all (\<lambda>k v h. hashmap_insert h k v) kvs h1 = Inr h2" "hm_inv h2"
    "same_shape h2 h1" "hm_size h2 = hm_size h1 + length kvs"
    using Cons.IH [OF h1(2)] by blast
  with kv h1 show ?case by (auto simp: same_shape_def)
qed


text \<open>
  The hash of any key is below the ring size, hence 31 bits wide.
\<close>

theorem cyclic_hash_bound: "hashmap_cyclic_hash key < 2147483647"
proof -
  have "cyclic_hash_loop key hash < ring_size" if "hash < ring_size" for hash
    using that
  proof (induction key arbitrary: hash)
    case Nil
    then show ?case by simp
  next
    case (Cons v vs)
    have "(hash * 47 XOR ucast v) mod ring_size < ring_size"
      by (rule word_mod_less_divisor) (simp add: ring_size_def)
    with Cons show ?case by simp
  qed
  from this [of 0] show ?thesis by (simp add: hashmap_cyclic_hash_def ring_size_def)
qed

end
