(* ===== verification/Napt.thy ===== *)
theory Napt
  imports Arp Hashmap_Map
begin

text \<open>
  Address and port translation (\<open>src/ipv4.c\<close>): the two translation tables, both hash maps
  of \<open>hashmap.c\<close> under their own mutexes, the handlers for packets that leave and enter
  through the WAN interface, and the dispatch \<open>ipv4_handle\<close>.
\<close>

section \<open>Keys and entries\<close>

text \<open>\<open>napt_extern_key_t\<close> and \<open>napt_intern_key_t\<close>, both packed, and \<open>napt_entry_t\<close>.\<close>

record napt_extern_key =
  ek_ip_dst :: ip_addr
  ek_port_src :: port
  ek_port_dst :: port
  ek_protocol :: u8

record napt_intern_key =
  ik_ip_src :: ip_addr
  ik_port_src :: port
  ik_protocol :: u8

record napt_entry =
  lan_ip :: ip_addr
  lan_port :: port
  public_ip :: ip_addr
  public_port :: port
  entry_dst_ip :: ip_addr
  entry_dst_port :: port
  timestamp :: u32

definition port_bytes :: "port \<Rightarrow> buf" where
  "port_bytes p = [lo8 p, hi8 p]"

definition extern_key_bytes :: "napt_extern_key \<Rightarrow> buf" where
  "extern_key_bytes k = ip_bytes (ek_ip_dst k) @ port_bytes (ek_port_src k) @ port_bytes (ek_port_dst k) @ [ek_protocol k]"

definition intern_key_bytes :: "napt_intern_key \<Rightarrow> buf" where
  "intern_key_bytes k = ip_bytes (ik_ip_src k) @ port_bytes (ik_port_src k) @ [ik_protocol k]"

text \<open>
  The 24 bytes of an entry.  Two bytes of padding lie before the timestamp; nothing reads
  them, and they are 0 here.
\<close>

definition entry_bytes :: "napt_entry \<Rightarrow> buf" where
  "entry_bytes e =
     ip_bytes (lan_ip e) @ port_bytes (lan_port e) @ ip_bytes (public_ip e) @ port_bytes (public_port e)
     @ ip_bytes (entry_dst_ip e) @ port_bytes (entry_dst_port e) @ [0, 0]
     @ [byte32 0 (timestamp e), byte32 1 (timestamp e), byte32 2 (timestamp e), byte32 3 (timestamp e)]"

definition entry_at :: "buf \<Rightarrow> nat \<Rightarrow> napt_entry" where
  "entry_at b p =
     \<lparr>lan_ip = ip_at b p, lan_port = le16 (b ! (p + 4)) (b ! (p + 5)),
      public_ip = ip_at b (p + 6), public_port = le16 (b ! (p + 10)) (b ! (p + 11)),
      entry_dst_ip = ip_at b (p + 12), entry_dst_port = le16 (b ! (p + 16)) (b ! (p + 17)),
      timestamp = le32 (b ! (p + 20)) (b ! (p + 21)) (b ! (p + 22)) (b ! (p + 23))\<rparr>"

definition to_port :: "u16 \<Rightarrow> port" where "to_port w = ntohs w"
definition from_port :: "port \<Rightarrow> u16" where "from_port p = htons p"

definition napt_extern_key_hash :: "buf \<Rightarrow> u64" where "napt_extern_key_hash = hashmap_cyclic_hash"
definition napt_intern_key_hash :: "buf \<Rightarrow> u64" where "napt_intern_key_hash = hashmap_cyclic_hash"

definition napt_init :: "router \<Rightarrow> router" where
  "napt_init r =
     r\<lparr>napt_extern_hashmap := hashmap_init napt_extern_key_hash 9 24,
       napt_intern_hashmap := hashmap_init napt_intern_key_hash 7 24\<rparr>"

section \<open>Outbound\<close>

text \<open>\<open>rand() % (60000 - 1024) + 1024\<close>, stored in 16 bits.\<close>

definition random_port :: "nat \<Rightarrow> port" where
  "random_port rand = of_nat (rand mod (60000 - 1024) + 1024)"

text \<open>
  The loop that looks for a free port; the first argument counts the attempts left.  A
  collision makes \<open>hashmap_contains\<close> unlock the table.
\<close>

fun napt_attempt ::
  "nat \<Rightarrow> router \<Rightarrow> napt_intern_key \<Rightarrow> ip_addr \<Rightarrow> port \<Rightarrow> ip_addr \<Rightarrow> (router \<times> port option) res" where
  "napt_attempt 0 r ikey dst_addr port_dst pub_ip = Inr (r, None)"
| "napt_attempt (Suc n) r ikey dst_addr port_dst pub_ip =
     (let new_port_src = random_port (rand_seq r (rand_pos r));
          r1 = r\<lparr>rand_pos := rand_pos r + 1\<rparr>;
          extern_key = \<lparr>ek_ip_dst = dst_addr, ek_port_src = new_port_src, ek_port_dst = port_dst,
                        ek_protocol = ik_protocol ikey\<rparr>
      in ebind (hashmap_contains (napt_extern_hashmap r1) (extern_key_bytes extern_key)) (\<lambda>(h, found).
         let r2 = r1\<lparr>napt_extern_hashmap := h\<rparr> in
         if \<not> found then
           let entry = \<lparr>lan_ip = ik_ip_src ikey, lan_port = ik_port_src ikey, public_ip = pub_ip,
                        public_port = new_port_src, entry_dst_ip = dst_addr, entry_dst_port = port_dst,
                        timestamp = 0\<rparr>
           in ebind (hashmap_insert (napt_extern_hashmap r2) (extern_key_bytes extern_key) (entry_bytes entry)) (\<lambda>he.
              ebind (hashmap_insert (napt_intern_hashmap r2) (intern_key_bytes ikey) (entry_bytes entry)) (\<lambda>hi.
                Inr (r2\<lparr>napt_extern_hashmap := he, napt_intern_hashmap := hi\<rparr>, Some new_port_src)))
         else napt_attempt n r2 ikey dst_addr port_dst pub_ip))"

definition lock_extern :: "router \<Rightarrow> router res" where
  "lock_extern r = ebind (hashmap_lock (napt_extern_hashmap r)) (\<lambda>h. Inr (r\<lparr>napt_extern_hashmap := h\<rparr>))"

definition unlock_extern :: "router \<Rightarrow> router" where
  "unlock_extern r = r\<lparr>napt_extern_hashmap := hashmap_unlock (napt_extern_hashmap r)\<rparr>"

definition lock_intern :: "router \<Rightarrow> router res" where
  "lock_intern r = ebind (hashmap_lock (napt_intern_hashmap r)) (\<lambda>h. Inr (r\<lparr>napt_intern_hashmap := h\<rparr>))"

definition unlock_intern :: "router \<Rightarrow> router" where
  "unlock_intern r = r\<lparr>napt_intern_hashmap := hashmap_unlock (napt_intern_hashmap r)\<rparr>"

text \<open>
  The public port of a flow: the one of its entry, or a new one.  With no port the packet is
  dropped, and the early return skips the unlocking of the intern table.
\<close>

definition napt_public_port ::
  "router \<Rightarrow> napt_intern_key \<Rightarrow> ip_addr \<Rightarrow> port \<Rightarrow> ip_addr \<Rightarrow> (router \<times> port option) res" where
  "napt_public_port r0 ikey dst_addr port_dst pub_ip =
     ebind (lock_intern r0) (\<lambda>r.
     ebind (hashmap_get (napt_intern_hashmap r) (intern_key_bytes ikey)) (\<lambda>(h, existing_res).
     let r1 = r\<lparr>napt_intern_hashmap := h\<rparr> in
     case existing_res of
       Some p \<Rightarrow>
         ebind (rd16 (data (napt_intern_hashmap r1)) (p + 10)) (\<lambda>port.
           Inr (unlock_intern r1, Some port))
     | None \<Rightarrow>
         ebind (lock_extern r1) (\<lambda>r2.
         ebind (napt_attempt 10 r2 ikey dst_addr port_dst pub_ip) (\<lambda>(r3, found).
         let r4 = unlock_extern r3 in
         case found of
           None \<Rightarrow> Inr (r4, None)
         | Some port \<Rightarrow> Inr (unlock_intern r4, Some port)))))"

definition napt_out_handle :: "router \<Rightarrow> buf \<Rightarrow> (router \<times> buf) res" where
  "napt_out_handle r pkt =
     ebind (rd_ip pkt 12) (\<lambda>src_addr.
     ebind (rd_ip pkt 16) (\<lambda>dst_addr.
     ebind (header_len pkt) (\<lambda>transport_ptr.
     ebind (rd8 pkt 9) (\<lambda>protocol.
       if protocol = 6 \<or> protocol = 17 then
         ebind (rd16 pkt transport_ptr) (\<lambda>psrc.
         ebind (rd16 pkt (transport_ptr + 2)) (\<lambda>pdst.
         ebind (interface_get_ip (interface_arr r) interface_get_wan_id) (\<lambda>pub_ip.
         ebind (napt_public_port r \<lparr>ik_ip_src = src_addr, ik_port_src = to_port psrc, ik_protocol = protocol\<rparr>
                  dst_addr (to_port pdst) pub_ip) (\<lambda>(r1, port).
           case port of
             None \<Rightarrow> Inr (r1, pkt)
           | Some new_port_src \<Rightarrow>
               ebind (wr_ip pkt 12 pub_ip) (\<lambda>pkt1.
               ebind (wr16 pkt1 transport_ptr (from_port new_port_src)) (\<lambda>pkt2.
                 send_ipv4 r1 pkt2))))))
       else Inr (r, pkt)))))"

section \<open>Inbound\<close>

definition napt_inc_handle :: "router \<Rightarrow> buf \<Rightarrow> (router \<times> buf) res" where
  "napt_inc_handle r0 pkt =
     ebind (header_len pkt) (\<lambda>transport_ptr.
     ebind (rd8 pkt 9) (\<lambda>protocol.
       if protocol = 6 \<or> protocol = 17 then
         ebind (rd16 pkt (transport_ptr + 2)) (\<lambda>pdst.
         ebind (rd16 pkt transport_ptr) (\<lambda>psrc.
         ebind (rd_ip pkt 12) (\<lambda>src_addr.
         let extern_key = \<lparr>ek_ip_dst = src_addr, ek_port_src = to_port pdst, ek_port_dst = to_port psrc,
                           ek_protocol = protocol\<rparr>
         in ebind (lock_extern r0) (\<lambda>r.
         ebind (hashmap_get (napt_extern_hashmap r) (extern_key_bytes extern_key)) (\<lambda>(h, entry).
         let r1 = r\<lparr>napt_extern_hashmap := h\<rparr> in
         case entry of
           None \<Rightarrow> Inr (unlock_extern r1, pkt)
         | Some p \<Rightarrow>
             ebind (rd_ip (data (napt_extern_hashmap r1)) p) (\<lambda>ip.
             ebind (wr_ip pkt 16 ip) (\<lambda>pkt1.
             ebind (rd16 (data (napt_extern_hashmap r1)) (p + 4)) (\<lambda>port.
             ebind (wr16 pkt1 (transport_ptr + 2) (from_port port)) (\<lambda>pkt2.
               send_ipv4 (unlock_extern r1) pkt2)))))))))
       else Inr (r0, pkt)))"

section \<open>Dispatch\<close>

definition ipv4_handle :: "router \<Rightarrow> buf \<Rightarrow> nat \<Rightarrow> (router \<times> buf) res" where
  "ipv4_handle r pkt int_id =
     ebind (rd_ip pkt 16) (\<lambda>dst.
       if dst = IpAddr 0xff 0xff 0xff 0xff then Inr (r, pkt)
       else
         ebind (interface_get_side (interface_arr r) int_id) (\<lambda>s.
           if s = INT_SIDE_WAN then
             ebind (interface_get_ip (interface_arr r) int_id) (\<lambda>ip.
               if \<not> ip_addr_equals dst ip then Inr (r, pkt) else napt_inc_handle r pkt)
           else
             ebind (get_interface_for_ip (interface_arr r) dst) (\<lambda>out_int_id.
               if out_int_id = int_id then Inr (r, pkt)
               else ebind (interface_get_side (interface_arr r) out_int_id) (\<lambda>out_side.
                 if out_side = INT_SIDE_LAN then send_ipv4 r pkt else napt_out_handle r pkt))))"

section \<open>Encodings\<close>

lemma length_encodings [simp]:
  "length (extern_key_bytes k) = 9" "length (intern_key_bytes i) = 7" "length (entry_bytes e) = 24"
  by (simp_all add: extern_key_bytes_def intern_key_bytes_def entry_bytes_def port_bytes_def)

lemma port_bytes_inj [simp]: "port_bytes p = port_bytes q \<longleftrightarrow> p = q"
  by (metis le16_lo8_hi8 list.inject port_bytes_def)

lemma extern_key_bytes_inj [simp]: "extern_key_bytes k = extern_key_bytes k' \<longleftrightarrow> k = k'"
proof
  assume eq: "extern_key_bytes k = extern_key_bytes k'"
  have len: "length (port_bytes p) = 2" for p by (simp add: port_bytes_def)
  from eq show "k = k'"
    unfolding extern_key_bytes_def by (auto simp: append_eq_append_conv len intro: napt_extern_key.equality)
qed simp

lemma intern_key_bytes_inj [simp]: "intern_key_bytes k = intern_key_bytes k' \<longleftrightarrow> k = k'"
proof
  assume eq: "intern_key_bytes k = intern_key_bytes k'"
  have len: "length (port_bytes p) = 2" for p by (simp add: port_bytes_def)
  from eq show "k = k'"
    unfolding intern_key_bytes_def by (auto simp: append_eq_append_conv len intro: napt_intern_key.equality)
qed simp

lemma entry_roundtrip [simp]: "entry_at (entry_bytes e) 0 = e"
  by (cases e; cases "lan_ip e"; cases "public_ip e"; cases "entry_dst_ip e")
    (simp add: entry_at_def entry_bytes_def port_bytes_def ip_at_def nth_append)

lemma entry_at_shift:
  assumes "p + 24 \<le> length b"
  shows "entry_at (take 24 (drop p b)) 0 = entry_at b p"
  using assms by (simp add: entry_at_def ip_at_def add.commute)

section \<open>The tables as keyed stores\<close>

definition table_ok :: "nat \<Rightarrow> hashmap \<Rightarrow> bool" where
  "table_ok key_bytes h \<longleftrightarrow> hm_inv h \<and> size_key h = key_bytes \<and> size_value h = 24"

definition napt_view :: "('k \<Rightarrow> buf) \<Rightarrow> hashmap \<Rightarrow> 'k \<Rightarrow> napt_entry option" where
  "napt_view enc h k = map_option (\<lambda>v. entry_at v 0) (hm_view h (enc k))"

definition napt_find :: "('k \<Rightarrow> buf) \<Rightarrow> hashmap \<Rightarrow> 'k \<Rightarrow> (hashmap \<times> napt_entry option) res" where
  "napt_find enc h k =
     ebind (hashmap_get h (enc k)) (\<lambda>(h1, r).
       case r of
         None \<Rightarrow> Inr (h1, None)
       | Some p \<Rightarrow> ebind (rd_bytes (data h1) p 24) (\<lambda>v. Inr (h1, Some (entry_at v 0))))"

definition napt_put :: "('k \<Rightarrow> buf) \<Rightarrow> 'k \<Rightarrow> napt_entry \<Rightarrow> hashmap \<Rightarrow> hashmap res" where
  "napt_put enc k e h = hashmap_insert h (enc k) (entry_bytes e)"

definition napt_room :: "('k \<Rightarrow> buf) \<Rightarrow> hashmap \<Rightarrow> 'k \<Rightarrow> bool" where
  "napt_room enc h k \<longleftrightarrow> hm_size h < size_allocated h div 2 \<and> napt_view enc h k = None"

text \<open>What an insertion starts from; growing leaves no entry of a real protocol.\<close>

definition napt_base :: "('k \<Rightarrow> buf) \<Rightarrow> hashmap \<Rightarrow> 'k \<Rightarrow> napt_entry option" where
  "napt_base enc h k = map_option (\<lambda>v. entry_at v 0) (insert_base h (enc k))"

lemma napt_base_room: "hm_size h < size_allocated h div 2 \<Longrightarrow> napt_base enc h = napt_view enc h"
  by (simp add: napt_base_def napt_view_def insert_base_def fun_eq_iff)

lemma napt_base_full:
  "\<not> hm_size h < size_allocated h div 2 \<Longrightarrow> last (enc k) \<noteq> 0 \<Longrightarrow> enc k \<noteq> [] \<Longrightarrow> napt_base enc h k = None"
  by (auto simp: napt_base_def insert_base_def zero_key_def last_replicate split: if_splits)

lemma napt_base_None:
  "napt_view enc h k = None \<Longrightarrow> last (enc k) \<noteq> 0 \<Longrightarrow> enc k \<noteq> [] \<Longrightarrow> napt_base enc h k = None"
  by (cases "hm_size h < size_allocated h div 2") (simp_all add: napt_base_room napt_base_full)

lemma napt_view_lock [simp]: "napt_view enc (h\<lparr>hm_lock := m\<rparr>) = napt_view enc h"
  by (simp add: napt_view_def fun_eq_iff)

lemma napt_view_unlock [simp]: "napt_view enc (hashmap_unlock h) = napt_view enc h"
  by (simp add: hashmap_unlock_def)

lemma table_ok_lock [simp]: "table_ok n (h\<lparr>hm_lock := m\<rparr>) = table_ok n h"
  by (simp add: table_ok_def)

lemma table_ok_unlock [simp]: "table_ok n (hashmap_unlock h) = table_ok n h"
  by (simp add: hashmap_unlock_def)

lemma napt_base_unlock [simp]: "napt_base enc (hashmap_unlock h) = napt_base enc h"
  by (simp add: napt_base_def insert_base_def hashmap_unlock_def retained_def zero_key_def zero_val_def
      fun_eq_iff tag_at_def)

lemma napt_find_lookup:
  "table_ok n h \<Longrightarrow> napt_find enc h k =
     Inr (if napt_view enc h k = None then h else hashmap_unlock h, napt_view enc h k)"
proof -
  assume ok: "table_ok n h"
  have unlocked: "size_value (hashmap_unlock h) = size_value h" by (simp add: hashmap_unlock_def)
  have "napt_find enc h k = ebind (hashmap_lookup h (enc k)) (\<lambda>(h1, v). Inr (h1, map_option (\<lambda>v. entry_at v 0) v))"
    using ok hashmap_get_eq [of h "enc k"]
    by (auto simp: napt_find_def hashmap_lookup_def table_ok_def ebind_assoc unlocked split: option.splits intro!: ebind_cong)
  with ok hashmap_lookup_spec [of h "enc k"] show ?thesis
    by (auto simp: table_ok_def napt_view_def split: option.splits)
qed

text \<open>
  Room for \<open>m\<close> more entries without growing.  With room, an insertion leaves the entries in
  their slots; without, it moves the table to a new block.
\<close>

definition free_slots :: "nat \<Rightarrow> hashmap \<Rightarrow> bool" where
  "free_slots m h \<longleftrightarrow> hm_size h + m \<le> size_allocated h div 2"

definition moves :: "hashmap \<Rightarrow> hashmap \<Rightarrow> bool" where
  "moves h h' \<longleftrightarrow> (if free_slots 1 h then in_place h h' else size_allocated h' = 2 * size_allocated h + 1)"

lemma free_slots_lock [simp]: "free_slots m (h\<lparr>hm_lock := l\<rparr>) = free_slots m h"
  by (simp add: free_slots_def)

lemma free_slots_unlock [simp]: "free_slots m (hashmap_unlock h) = free_slots m h"
  by (simp add: hashmap_unlock_def)

lemma in_place_lock:
  "in_place (h\<lparr>hm_lock := l\<rparr>) h' = in_place h h'" "in_place h (h'\<lparr>hm_lock := l\<rparr>) = in_place h h'"
proof -
  have "tag_at (h\<lparr>hm_lock := l\<rparr>) = tag_at h" "key_at (h\<lparr>hm_lock := l\<rparr>) = key_at h"
    "val_at (h\<lparr>hm_lock := l\<rparr>) = val_at h" "layout_ok (h\<lparr>hm_lock := l\<rparr>) = layout_ok h" for h
    by (auto simp: fun_eq_iff tag_at_def key_at_def val_at_def key_off_def layout_ok_def)
  then show "in_place (h\<lparr>hm_lock := l\<rparr>) h' = in_place h h'" "in_place h (h'\<lparr>hm_lock := l\<rparr>) = in_place h h'"
    by (simp_all add: in_place_def same_shape_def)
qed

lemma moves_lock [simp]:
  "moves (h\<lparr>hm_lock := l\<rparr>) h' = moves h h'" "moves h (h'\<lparr>hm_lock := l\<rparr>) = moves h h'"
  "moves (hashmap_unlock h) h' = moves h h'" "moves h (hashmap_unlock h') = moves h h'"
  by (simp_all add: moves_def hashmap_unlock_def in_place_lock)

lemma napt_put_spec:
  assumes "table_ok n h" and "length (enc k) = n" and "\<And>k'. enc k' = enc k \<longleftrightarrow> k' = k"
    and "napt_base enc h k = None"
  shows "\<exists>h'. napt_put enc k e h = Inr h' \<and> table_ok n h' \<and> hm_lock h' = hm_lock h \<and>
    napt_view enc h' = (napt_base enc h)(k \<mapsto> e) \<and>
    (\<forall>m. free_slots (Suc m) h \<longrightarrow> free_slots m h') \<and> moves h h'"
proof -
  from hashmap_insert_spec [of h "enc k" "entry_bytes e"] assms(1,2) obtain h' where
    h': "hashmap_insert h (enc k) (entry_bytes e) = Inr h'" "hm_inv h'" "same_kind h' h" "hm_lock h' = hm_lock h"
      "hm_view h' = (\<lambda>k'. if k' = enc k \<and> insert_base h k' = None then Some (entry_bytes e) else insert_base h k')"
      "\<not> hm_size h < size_allocated h div 2 \<longrightarrow> size_allocated h' = 2 * size_allocated h + 1"
    by (auto simp: table_ok_def)
  have "in_place h h'" if "hm_size h < size_allocated h div 2"
    using insert_at_in_place [of h "enc k" "entry_bytes e" h'] assms(1,2) h'(1)
    by (simp add: table_ok_def hashmap_insert_room [OF that])
  then have "moves h h'" using h'(6) by (auto simp: moves_def free_slots_def)
  moreover have "insert_base h (enc k) = None" using assms(4) by (simp add: napt_base_def)
  then have "napt_view enc h' = (napt_base enc h)(k \<mapsto> e)"
    using assms(3) by (auto simp: napt_view_def napt_base_def h'(5) fun_eq_iff)
  moreover have "free_slots m h'" if room: "free_slots (Suc m) h" for m
  proof -
    have less: "hm_size h < size_allocated h div 2" using room by (simp add: free_slots_def)
    from insert_at_spec [of h "enc k" "entry_bytes e"] assms(1,2) less h'(1)
    have "hm_size h' = hm_size h + 1" "same_shape h' h"
      unfolding hashmap_insert_room [OF less, symmetric] by (auto simp: table_ok_def)
    with room show ?thesis by (simp add: free_slots_def same_shape_def)
  qed
  ultimately show ?thesis using h' assms(1) by (auto simp: napt_put_def table_ok_def same_kind_def)
qed

lemma napt_put_room:
  assumes "table_ok n h" and "napt_room enc h k" and "length (enc k) = n"
    and "\<And>k'. enc k' = enc k \<longleftrightarrow> k' = k"
  shows "\<exists>h'. napt_put enc k e h = Inr h' \<and> table_ok n h' \<and> napt_view enc h' = (napt_view enc h)(k \<mapsto> e)"
  using napt_put_spec [OF assms(1,3,4), of e] assms(2) by (auto simp: napt_room_def napt_base_room)

interpretation extern_table: keyed_store "napt_find extern_key_bytes" "napt_put extern_key_bytes"
    "napt_view extern_key_bytes" "table_ok 9" "napt_room extern_key_bytes"
  by unfold_locales (auto simp: napt_find_lookup intro: napt_put_room)

interpretation intern_table: keyed_store "napt_find intern_key_bytes" "napt_put intern_key_bytes"
    "napt_view intern_key_bytes" "table_ok 7" "napt_room intern_key_bytes"
  by unfold_locales (auto simp: napt_find_lookup intro: napt_put_room)

section \<open>Reading an entry in place\<close>

text \<open>The slot \<open>hashmap_get\<close> answers with, and what the entry in a slot reads as.\<close>

lemma napt_get_slot:
  assumes "table_ok n h" and "napt_view enc h k = Some e"
  obtains j where "j < size_allocated h" and "tag_at h j = HASHMAP_TAG_TAKEN" and "entry_at (val_at h j) 0 = e"
    and "hashmap_get h (enc k) = Inr (hashmap_unlock h, Some (key_off h j + size_key h))"
proof -
  have inv: "hm_inv h" using assms(1) by (simp add: table_ok_def)
  from find_slot_stops [OF inv, of "enc k"] obtain j where
    "find_slot h (enc k) = Some j" "j < size_allocated h" by blast
  with assms(2) that show ?thesis
    by (auto simp: napt_view_def hm_view_def hashmap_get_eq [OF inv] split: if_splits)
qed

lemma slot_entry:
  assumes "layout_ok h" and "size_value h = 24" and "j < size_allocated h" and "entry_at (val_at h j) 0 = e"
  shows "rd_ip (data h) (key_off h j + size_key h) = Inr (lan_ip e)"
    and "rd16 (data h) (key_off h j + size_key h + 4) = Inr (lan_port e)"
    and "rd16 (data h) (key_off h j + size_key h + 10) = Inr (public_port e)"
proof -
  let ?p = "key_off h j + size_key h"
  have len: "?p + 24 \<le> length (data h)" using slot_in_data [OF assms(1,3)] assms(2) by simp
  then have "entry_at (data h) ?p = e" using assms(2,4) entry_at_shift by (simp add: val_at_def)
  with len show "rd_ip (data h) ?p = Inr (lan_ip e)" "rd16 (data h) (?p + 4) = Inr (lan_port e)"
    "rd16 (data h) (?p + 10) = Inr (public_port e)"
    by (auto simp: rd_ip_ok rd16_ok entry_at_def add.commute)
qed

lemma napt_get_entry:
  assumes "table_ok n h" and "napt_view enc h k = Some e"
  shows "\<exists>p. hashmap_get h (enc k) = Inr (hashmap_unlock h, Some p) \<and>
    rd_ip (data h) p = Inr (lan_ip e) \<and> rd16 (data h) (p + 4) = Inr (lan_port e) \<and>
    rd16 (data h) (p + 10) = Inr (public_port e)"
proof -
  have ok: "layout_ok h" "size_value h = 24" using assms(1) hm_inv_layout by (auto simp: table_ok_def)
  from napt_get_slot [OF assms] slot_entry [OF ok] show ?thesis by metis
qed

lemma napt_get_none:
  assumes "table_ok n h" and "napt_view enc h k = None"
  shows "hashmap_get h (enc k) = Inr (h, None)"
proof -
  have "napt_find enc h k = Inr (h, None)"
    using napt_find_lookup [OF assms(1), of enc k] assms(2) by simp
  then show ?thesis
    by (auto simp: napt_find_def ebind_Inr_iff split: option.splits)
qed

lemma napt_contains:
  assumes "table_ok n h"
  shows "hashmap_contains h (enc k) =
    Inr (if napt_view enc h k = None then h else hashmap_unlock h, napt_view enc h k \<noteq> None)"
  using assms hashmap_contains_spec [of h "enc k"] by (simp add: table_ok_def napt_view_def)

section \<open>Choosing a port\<close>

definition extern_map :: "router \<Rightarrow> napt_extern_key \<Rightarrow> napt_entry option" where
  "extern_map r = napt_view extern_key_bytes (napt_extern_hashmap r)"

definition intern_map :: "router \<Rightarrow> napt_intern_key \<Rightarrow> napt_entry option" where
  "intern_map r = napt_view intern_key_bytes (napt_intern_hashmap r)"

definition extern_base :: "router \<Rightarrow> napt_extern_key \<Rightarrow> napt_entry option" where
  "extern_base r = napt_base extern_key_bytes (napt_extern_hashmap r)"

definition intern_base :: "router \<Rightarrow> napt_intern_key \<Rightarrow> napt_entry option" where
  "intern_base r = napt_base intern_key_bytes (napt_intern_hashmap r)"

definition extern_key_of :: "napt_intern_key \<Rightarrow> ip_addr \<Rightarrow> port \<Rightarrow> port \<Rightarrow> napt_extern_key" where
  "extern_key_of ikey dst_addr port_dst p =
     \<lparr>ek_ip_dst = dst_addr, ek_port_src = p, ek_port_dst = port_dst, ek_protocol = ik_protocol ikey\<rparr>"

definition new_entry :: "napt_intern_key \<Rightarrow> ip_addr \<Rightarrow> port \<Rightarrow> ip_addr \<Rightarrow> port \<Rightarrow> napt_entry" where
  "new_entry ikey dst_addr port_dst pub_ip p =
     \<lparr>lan_ip = ik_ip_src ikey, lan_port = ik_port_src ikey, public_ip = pub_ip, public_port = p,
      entry_dst_ip = dst_addr, entry_dst_port = port_dst, timestamp = 0\<rparr>"

text \<open>The ports the next \<open>n\<close> calls of \<open>rand\<close> give.\<close>

definition next_ports :: "router \<Rightarrow> nat \<Rightarrow> port list" where
  "next_ports r n = map (\<lambda>i. random_port (rand_seq r (rand_pos r + i))) [0..<n]"

lemma next_ports_Suc:
  "next_ports r (Suc n) = random_port (rand_seq r (rand_pos r)) # next_ports (r\<lparr>rand_pos := rand_pos r + 1\<rparr>) n"
  unfolding next_ports_def by (simp add: upt_conv_Cons map_Suc_upt [symmetric] del: upt_Suc)

lemma random_port_bounds: "1024 \<le> unat (random_port x) \<and> unat (random_port x) < 60000"
proof -
  have "x mod 58976 < 58976" by simp
  then have "x mod 58976 + 1024 < 60000" by linarith
  moreover from this have "unat (random_port x) = x mod 58976 + 1024"
    by (simp add: random_port_def unsigned_of_nat take_bit_nat_eq_self del: of_nat_add)
  ultimately show ?thesis by simp
qed

definition is_free :: "router \<Rightarrow> napt_intern_key \<Rightarrow> ip_addr \<Rightarrow> port \<Rightarrow> port \<Rightarrow> bool" where
  "is_free r ikey dst_addr port_dst p \<longleftrightarrow> extern_map r (extern_key_of ikey dst_addr port_dst p) = None"

text \<open>Only the tables and the position in the sequence of random numbers change.\<close>

definition napt_only :: "router \<Rightarrow> router \<Rightarrow> bool" where
  "napt_only r r' \<longleftrightarrow>
     r' = r\<lparr>napt_extern_hashmap := napt_extern_hashmap r', napt_intern_hashmap := napt_intern_hashmap r',
            rand_pos := rand_pos r'\<rparr>"

lemma napt_only_simps:
  assumes "napt_only r r'"
  shows "interface_arr r' = interface_arr r" "wan r' = wan r" "macs r' = macs r"
    "delta_list r' = delta_list r" "timer_mutex r' = timer_mutex r" "timer_left r' = timer_left r"
    "rand_seq r' = rand_seq r" "sent r' = sent r"
  by (subst assms [unfolded napt_only_def]; simp)+

lemma napt_only_trans: "napt_only r r1 \<Longrightarrow> napt_only r1 r' \<Longrightarrow> napt_only r r'"
  by (cases r; cases r1; cases r') (simp add: napt_only_def)

lemma last_key [simp]:
  "last (extern_key_bytes k) = ek_protocol k" "extern_key_bytes k \<noteq> []"
  "last (intern_key_bytes i) = ik_protocol i" "intern_key_bytes i \<noteq> []"
  by (simp_all add: extern_key_bytes_def intern_key_bytes_def)

lemma napt_attempt_step:
  assumes "table_ok 9 (napt_extern_hashmap r)" and "table_ok 7 (napt_intern_hashmap r)"
    and "intern_map r ikey = None" and "ik_protocol ikey \<noteq> 0"
    and p: "p = random_port (rand_seq r (rand_pos r))"
  shows "if is_free r ikey dst_addr port_dst p
    then \<exists>he hi. napt_attempt (Suc n) r ikey dst_addr port_dst pub_ip =
        Inr (r\<lparr>rand_pos := rand_pos r + 1, napt_extern_hashmap := he, napt_intern_hashmap := hi\<rparr>, Some p) \<and>
      table_ok 9 he \<and> table_ok 7 hi \<and> hm_lock hi = hm_lock (napt_intern_hashmap r) \<and>
      hm_lock he = hm_lock (napt_extern_hashmap r) \<and>
      napt_view extern_key_bytes he =
        (extern_base r)(extern_key_of ikey dst_addr port_dst p \<mapsto> new_entry ikey dst_addr port_dst pub_ip p) \<and>
      napt_view intern_key_bytes hi = (intern_base r)(ikey \<mapsto> new_entry ikey dst_addr port_dst pub_ip p) \<and>
      (\<forall>m. free_slots (Suc m) (napt_extern_hashmap r) \<longrightarrow> free_slots m he) \<and>
      (\<forall>m. free_slots (Suc m) (napt_intern_hashmap r) \<longrightarrow> free_slots m hi) \<and> moves (napt_extern_hashmap r) he
    else napt_attempt (Suc n) r ikey dst_addr port_dst pub_ip =
      napt_attempt n (r\<lparr>rand_pos := rand_pos r + 1,
        napt_extern_hashmap := hashmap_unlock (napt_extern_hashmap r)\<rparr>) ikey dst_addr port_dst pub_ip"
proof -
  let ?ek = "extern_key_of ikey dst_addr port_dst p"
  let ?e = "new_entry ikey dst_addr port_dst pub_ip p"
  have proto: "ek_protocol ?ek \<noteq> 0" using assms(4) by (simp add: extern_key_of_def)
  note contains = napt_contains [OF assms(1), of extern_key_bytes ?ek]
  show ?thesis
  proof (cases "is_free r ikey dst_addr port_dst p")
    case True
    then have none: "napt_view extern_key_bytes (napt_extern_hashmap r) ?ek = None"
      by (simp add: is_free_def extern_map_def)
    have "napt_base extern_key_bytes (napt_extern_hashmap r) ?ek = None"
      using none proto by (intro napt_base_None) simp_all
    from napt_put_spec [OF assms(1) _ extern_key_bytes_inj this, of ?e] obtain he where
      he: "hashmap_insert (napt_extern_hashmap r) (extern_key_bytes ?ek) (entry_bytes ?e) = Inr he" "table_ok 9 he"
        "hm_lock he = hm_lock (napt_extern_hashmap r)"
        "napt_view extern_key_bytes he = (napt_base extern_key_bytes (napt_extern_hashmap r))(?ek \<mapsto> ?e)"
        "\<forall>m. free_slots (Suc m) (napt_extern_hashmap r) \<longrightarrow> free_slots m he" "moves (napt_extern_hashmap r) he"
      by (auto simp: napt_put_def)
    have "napt_base intern_key_bytes (napt_intern_hashmap r) ikey = None"
      using assms(3,4) by (intro napt_base_None) (simp_all add: intern_map_def)
    from napt_put_spec [OF assms(2) _ intern_key_bytes_inj this, of ?e] obtain hi where
      hi: "hashmap_insert (napt_intern_hashmap r) (intern_key_bytes ikey) (entry_bytes ?e) = Inr hi" "table_ok 7 hi"
        "hm_lock hi = hm_lock (napt_intern_hashmap r)"
        "napt_view intern_key_bytes hi = (napt_base intern_key_bytes (napt_intern_hashmap r))(ikey \<mapsto> ?e)"
        "\<forall>m. free_slots (Suc m) (napt_intern_hashmap r) \<longrightarrow> free_slots m hi"
      by (auto simp: napt_put_def)
    have "napt_attempt (Suc n) r ikey dst_addr port_dst pub_ip =
        Inr (r\<lparr>rand_pos := rand_pos r + 1, napt_extern_hashmap := he, napt_intern_hashmap := hi\<rparr>, Some p)"
      using contains none he(1) hi(1)
      by (simp add: Let_def flip: p) (simp add: extern_key_of_def new_entry_def)
    with he hi True show ?thesis by (auto simp: extern_base_def intern_base_def)
  next
    case False
    then have some: "napt_view extern_key_bytes (napt_extern_hashmap r) ?ek \<noteq> None"
      by (simp add: is_free_def extern_map_def)
    with contains have "hashmap_contains (napt_extern_hashmap r) (extern_key_bytes ?ek) =
        Inr (hashmap_unlock (napt_extern_hashmap r), True)" by simp
    then have "napt_attempt (Suc n) r ikey dst_addr port_dst pub_ip =
      napt_attempt n (r\<lparr>rand_pos := rand_pos r + 1,
        napt_extern_hashmap := hashmap_unlock (napt_extern_hashmap r)\<rparr>) ikey dst_addr port_dst pub_ip"
      by (simp add: Let_def flip: p) (simp add: extern_key_of_def)
    with False show ?thesis by simp
  qed
qed

lemma maps_simps [simp]:
  "extern_map (r\<lparr>rand_pos := k\<rparr>) = extern_map r" "intern_map (r\<lparr>rand_pos := k\<rparr>) = intern_map r"
  "extern_base (r\<lparr>rand_pos := k\<rparr>) = extern_base r" "intern_base (r\<lparr>rand_pos := k\<rparr>) = intern_base r"
  "extern_map (r\<lparr>napt_extern_hashmap := hashmap_unlock (napt_extern_hashmap r)\<rparr>) = extern_map r"
  "extern_base (r\<lparr>napt_extern_hashmap := hashmap_unlock (napt_extern_hashmap r)\<rparr>) = extern_base r"
  "intern_map (r\<lparr>napt_extern_hashmap := h\<rparr>) = intern_map r"
  "intern_base (r\<lparr>napt_extern_hashmap := h\<rparr>) = intern_base r"
  by (simp_all add: extern_map_def intern_map_def extern_base_def intern_base_def)

text \<open>Both tables have room for \<open>m\<close> more flows.\<close>

definition tables_room :: "nat \<Rightarrow> router \<Rightarrow> bool" where
  "tables_room m r \<longleftrightarrow> free_slots m (napt_extern_hashmap r) \<and> free_slots m (napt_intern_hashmap r)"

lemma tables_room_base:
  assumes "tables_room (Suc m) r"
  shows "extern_base r = extern_map r" "intern_base r = intern_map r"
  using assms by (simp_all add: tables_room_def free_slots_def extern_base_def intern_base_def extern_map_def
      intern_map_def napt_base_room)

lemma napt_attempt_spec:
  assumes "table_ok 9 (napt_extern_hashmap r)" and "table_ok 7 (napt_intern_hashmap r)"
    and "intern_map r ikey = None" and "ik_protocol ikey \<noteq> 0"
  shows "case find (is_free r ikey dst_addr port_dst) (next_ports r n) of
      None \<Rightarrow> \<exists>r'. napt_attempt n r ikey dst_addr port_dst pub_ip = Inr (r', None) \<and> napt_only r r' \<and>
        table_ok 9 (napt_extern_hashmap r') \<and> napt_intern_hashmap r' = napt_intern_hashmap r \<and>
        extern_map r' = extern_map r
    | Some p \<Rightarrow> \<exists>r'. napt_attempt n r ikey dst_addr port_dst pub_ip = Inr (r', Some p) \<and> napt_only r r' \<and>
        table_ok 9 (napt_extern_hashmap r') \<and> table_ok 7 (napt_intern_hashmap r') \<and>
        hm_lock (napt_intern_hashmap r') = hm_lock (napt_intern_hashmap r) \<and>
        extern_map r' =
          (extern_base r)(extern_key_of ikey dst_addr port_dst p \<mapsto> new_entry ikey dst_addr port_dst pub_ip p) \<and>
        intern_map r' = (intern_base r)(ikey \<mapsto> new_entry ikey dst_addr port_dst pub_ip p) \<and>
        (\<forall>m. tables_room (Suc m) r \<longrightarrow> tables_room m r') \<and>
        moves (napt_extern_hashmap r) (napt_extern_hashmap r')"
  using assms
proof (induction n arbitrary: r)
  case 0
  then show ?case by (simp add: next_ports_def napt_only_def)
next
  case (Suc n)
  define p where "p = random_port (rand_seq r (rand_pos r))"
  note step = napt_attempt_step [OF Suc.prems p_def, of dst_addr port_dst n pub_ip]
  let ?r1 = "r\<lparr>rand_pos := rand_pos r + 1\<rparr>"
  have ports: "next_ports r (Suc n) = p # next_ports ?r1 n" by (simp only: next_ports_Suc p_def)
  show ?case
  proof (cases "is_free r ikey dst_addr port_dst p")
    case True
    with step obtain he hi where
      "napt_attempt (Suc n) r ikey dst_addr port_dst pub_ip =
        Inr (r\<lparr>rand_pos := rand_pos r + 1, napt_extern_hashmap := he, napt_intern_hashmap := hi\<rparr>, Some p)"
      "table_ok 9 he" "table_ok 7 hi" "hm_lock hi = hm_lock (napt_intern_hashmap r)"
      "napt_view extern_key_bytes he =
        (extern_base r)(extern_key_of ikey dst_addr port_dst p \<mapsto> new_entry ikey dst_addr port_dst pub_ip p)"
      "napt_view intern_key_bytes hi = (intern_base r)(ikey \<mapsto> new_entry ikey dst_addr port_dst pub_ip p)"
      "\<forall>m. free_slots (Suc m) (napt_extern_hashmap r) \<longrightarrow> free_slots m he"
      "\<forall>m. free_slots (Suc m) (napt_intern_hashmap r) \<longrightarrow> free_slots m hi" "moves (napt_extern_hashmap r) he"
      by auto
    with True show ?thesis
      unfolding ports by (auto simp: napt_only_def extern_map_def intern_map_def tables_room_def simp del: napt_attempt.simps)
  next
    case False
    define r2 where "r2 = ?r1\<lparr>napt_extern_hashmap := hashmap_unlock (napt_extern_hashmap r)\<rparr>"
    have em: "extern_map r2 = extern_map r" "extern_base r2 = extern_base r" "intern_map r2 = intern_map r"
      "intern_base r2 = intern_base r" "napt_intern_hashmap r2 = napt_intern_hashmap r"
      "\<And>m. tables_room m r2 = tables_room m r"
      "\<And>h. moves (napt_extern_hashmap r2) h = moves (napt_extern_hashmap r) h"
      and ok: "table_ok 9 (napt_extern_hashmap r2)" and only: "napt_only r r2"
      using Suc.prems(1)
      by (simp_all add: r2_def extern_map_def extern_base_def intern_map_def intern_base_def napt_only_def
          tables_room_def)
    have free: "is_free r2 = is_free r" by (intro ext) (simp only: is_free_def em)
    have ports2: "next_ports r2 n = next_ports ?r1 n" by (simp add: next_ports_def r2_def)
    have IH: "case find (is_free r ikey dst_addr port_dst) (next_ports ?r1 n) of
      None \<Rightarrow> \<exists>r'. napt_attempt n r2 ikey dst_addr port_dst pub_ip = Inr (r', None) \<and> napt_only r2 r' \<and>
        table_ok 9 (napt_extern_hashmap r') \<and> napt_intern_hashmap r' = napt_intern_hashmap r \<and>
        extern_map r' = extern_map r
    | Some p \<Rightarrow> \<exists>r'. napt_attempt n r2 ikey dst_addr port_dst pub_ip = Inr (r', Some p) \<and> napt_only r2 r' \<and>
        table_ok 9 (napt_extern_hashmap r') \<and> table_ok 7 (napt_intern_hashmap r') \<and>
        hm_lock (napt_intern_hashmap r') = hm_lock (napt_intern_hashmap r) \<and>
        extern_map r' =
          (extern_base r)(extern_key_of ikey dst_addr port_dst p \<mapsto> new_entry ikey dst_addr port_dst pub_ip p) \<and>
        intern_map r' = (intern_base r)(ikey \<mapsto> new_entry ikey dst_addr port_dst pub_ip p) \<and>
        (\<forall>m. tables_room (Suc m) r \<longrightarrow> tables_room m r') \<and>
        moves (napt_extern_hashmap r) (napt_extern_hashmap r')"
      using Suc.IH [of r2, unfolded em free ports2] ok Suc.prems(2-4) by blast
    have "napt_attempt (Suc n) r ikey dst_addr port_dst pub_ip = napt_attempt n r2 ikey dst_addr port_dst pub_ip"
      using step False by (simp add: r2_def)
    with IH napt_only_trans [OF only] show ?thesis
      unfolding ports by (auto simp: False fun_upd_def split: option.splits simp del: napt_attempt.simps)
  qed
qed

text \<open>Tables in good order and both locks free.\<close>

definition napt_ok :: "router \<Rightarrow> bool" where
  "napt_ok r \<longleftrightarrow>
     table_ok 9 (napt_extern_hashmap r) \<and> table_ok 7 (napt_intern_hashmap r) \<and>
     \<not> held (hm_lock (napt_extern_hashmap r)) \<and> \<not> held (hm_lock (napt_intern_hashmap r))"

lemma napt_init_ok: "napt_ok (napt_init r)" "extern_map (napt_init r) = Map.empty" "intern_map (napt_init r) = Map.empty"
proof -
  show "napt_ok (napt_init r)"
    using hashmap_init_spec(1) [of 9] hashmap_init_spec(1) [of 7]
    by (simp add: napt_ok_def napt_init_def table_ok_def) (simp add: hashmap_init_def Let_def)
  show "extern_map (napt_init r) = Map.empty" "intern_map (napt_init r) = Map.empty"
    using hashmap_init_spec(2) [of 9] hashmap_init_spec(2) [of 7]
    by (simp_all add: extern_map_def intern_map_def napt_init_def napt_view_def fun_eq_iff)
qed

lemma hashmap_unlock_free [simp]: "\<not> held (hm_lock (hashmap_unlock h))"
  by (simp add: hashmap_unlock_def)

lemma hashmap_lock_free: "\<not> held (hm_lock h) \<Longrightarrow> hashmap_lock h = Inr (h\<lparr>hm_lock := (hm_lock h)\<lparr>held := True\<rparr>\<rparr>)"
  by (simp add: hashmap_lock_def mutex_lock_free)

lemma napt_base_lock [simp]: "napt_base enc (h\<lparr>hm_lock := m\<rparr>) = napt_base enc h"
  by (simp add: napt_base_def insert_base_def retained_def zero_key_def zero_val_def fun_eq_iff tag_at_def)

lemma napt_public_port_known:
  assumes "napt_ok r" and "intern_map r ikey = Some e"
  shows "\<exists>r'. napt_public_port r ikey dst_addr port_dst pub_ip = Inr (r', Some (public_port e)) \<and>
    napt_only r r' \<and> napt_ok r' \<and> extern_map r' = extern_map r \<and> intern_map r' = intern_map r \<and>
    rand_pos r' = rand_pos r"
proof -
  let ?h = "(napt_intern_hashmap r)\<lparr>hm_lock := (hm_lock (napt_intern_hashmap r))\<lparr>held := True\<rparr>\<rparr>"
  have ok: "table_ok 7 ?h" "napt_view intern_key_bytes ?h ikey = Some e" "\<not> held (hm_lock (napt_intern_hashmap r))"
    using assms by (simp_all add: napt_ok_def intern_map_def)
  from napt_get_entry [OF ok(1,2)] obtain p where
    p: "hashmap_get ?h (intern_key_bytes ikey) = Inr (hashmap_unlock ?h, Some p)"
      "rd16 (data ?h) (p + 10) = Inr (public_port e)" by blast
  let ?r' = "unlock_intern (r\<lparr>napt_intern_hashmap := hashmap_unlock ?h\<rparr>)"
  have "data (hashmap_unlock ?h) = data ?h" by (simp add: hashmap_unlock_def)
  then have "napt_public_port r ikey dst_addr port_dst pub_ip = Inr (?r', Some (public_port e))"
    using p ok(3) by (simp add: napt_public_port_def lock_intern_def hashmap_lock_free)
  moreover have "napt_only r ?r'" "napt_ok ?r'" "extern_map ?r' = extern_map r" "intern_map ?r' = intern_map r"
    using assms(1) by (simp_all add: napt_only_def unlock_intern_def napt_ok_def extern_map_def intern_map_def)
  moreover have "rand_pos ?r' = rand_pos r" by (simp add: unlock_intern_def)
  ultimately show ?thesis by blast
qed

lemma napt_public_port_new:
  assumes "napt_ok r" and "intern_map r ikey = None" and "ik_protocol ikey \<noteq> 0"
    and p: "find (is_free r ikey dst_addr port_dst) (next_ports r 10) = Some p"
  shows "\<exists>r'. napt_public_port r ikey dst_addr port_dst pub_ip = Inr (r', Some p) \<and>
    napt_only r r' \<and> napt_ok r' \<and>
    extern_map r' =
      (extern_base r)(extern_key_of ikey dst_addr port_dst p \<mapsto> new_entry ikey dst_addr port_dst pub_ip p) \<and>
    intern_map r' = (intern_base r)(ikey \<mapsto> new_entry ikey dst_addr port_dst pub_ip p) \<and>
    (\<forall>m. tables_room (Suc m) r \<longrightarrow> tables_room m r') \<and>
    moves (napt_extern_hashmap r) (napt_extern_hashmap r')"
proof -
  define r2 where "r2 = r\<lparr>
      napt_intern_hashmap := (napt_intern_hashmap r)\<lparr>hm_lock := (hm_lock (napt_intern_hashmap r))\<lparr>held := True\<rparr>\<rparr>,
      napt_extern_hashmap := (napt_extern_hashmap r)\<lparr>hm_lock := (hm_lock (napt_extern_hashmap r))\<lparr>held := True\<rparr>\<rparr>\<rparr>"
  have em: "extern_map r2 = extern_map r" "extern_base r2 = extern_base r" "intern_map r2 = intern_map r"
      "intern_base r2 = intern_base r" "\<And>m. tables_room m r2 = tables_room m r"
      "\<And>h. moves (napt_extern_hashmap r2) h = moves (napt_extern_hashmap r) h"
    by (simp_all add: tables_room_def r2_def extern_map_def extern_base_def intern_map_def intern_base_def)
  have ok: "table_ok 9 (napt_extern_hashmap r2)" "table_ok 7 (napt_intern_hashmap r2)"
    and only: "napt_only r r2"
    using assms(1) by (simp_all add: r2_def napt_ok_def napt_only_def)
  have free: "is_free r2 = is_free r" by (intro ext) (simp only: is_free_def em)
  have ports2: "next_ports r2 10 = next_ports r 10" by (simp add: next_ports_def r2_def)
  from napt_attempt_spec [OF ok, where ikey = ikey and dst_addr = dst_addr and port_dst = port_dst and n = 10 and pub_ip = pub_ip, unfolded em free ports2 p option.case] assms(2,3)
  obtain r3 where r3: "napt_attempt 10 r2 ikey dst_addr port_dst pub_ip = Inr (r3, Some p)" "napt_only r2 r3"
      "table_ok 9 (napt_extern_hashmap r3)" "table_ok 7 (napt_intern_hashmap r3)"
      "extern_map r3 =
        (extern_base r)(extern_key_of ikey dst_addr port_dst p \<mapsto> new_entry ikey dst_addr port_dst pub_ip p)"
      "intern_map r3 = (intern_base r)(ikey \<mapsto> new_entry ikey dst_addr port_dst pub_ip p)"
      "\<forall>m. tables_room (Suc m) r \<longrightarrow> tables_room m r3"
      "moves (napt_extern_hashmap r) (napt_extern_hashmap r3)" by blast
  have get: "hashmap_get (napt_intern_hashmap r2) (intern_key_bytes ikey) = Inr (napt_intern_hashmap r2, None)"
    by (rule napt_get_none [OF ok(2)]) (use assms(2) em(3) in \<open>simp add: intern_map_def\<close>)
  let ?r' = "unlock_intern (unlock_extern r3)"
  have "napt_public_port r ikey dst_addr port_dst pub_ip = Inr (?r', Some p)"
    using assms(1) get r3(1)
    by (simp add: napt_public_port_def lock_intern_def lock_extern_def hashmap_lock_free napt_ok_def r2_def)
  moreover have "napt_only r3 ?r'" by (simp add: napt_only_def unlock_intern_def unlock_extern_def)
  then have "napt_only r ?r'" using only r3(2) by (blast intro: napt_only_trans)
  moreover have "napt_ok ?r'" using r3(3,4) by (simp add: napt_ok_def unlock_intern_def unlock_extern_def)
  moreover have "extern_map ?r' = extern_map r3" "intern_map ?r' = intern_map r3"
    "\<And>m. tables_room m ?r' = tables_room m r3"
    "\<And>h. moves h (napt_extern_hashmap ?r') = moves h (napt_extern_hashmap r3)"
    by (simp_all add: tables_room_def extern_map_def intern_map_def unlock_intern_def unlock_extern_def)
  ultimately show ?thesis using r3 by auto
qed

definition extern_ok :: "router \<Rightarrow> bool" where
  "extern_ok r \<longleftrightarrow> table_ok 9 (napt_extern_hashmap r) \<and> \<not> held (hm_lock (napt_extern_hashmap r))"

text \<open>Ten collisions: no port, and the lock of the intern table stays taken.\<close>

lemma napt_public_port_exhausted:
  assumes "napt_ok r" and "intern_map r ikey = None" and "ik_protocol ikey \<noteq> 0"
    and p: "find (is_free r ikey dst_addr port_dst) (next_ports r 10) = None"
  shows "\<exists>r'. napt_public_port r ikey dst_addr port_dst pub_ip = Inr (r', None) \<and>
    napt_only r r' \<and> held (hm_lock (napt_intern_hashmap r')) \<and> extern_ok r' \<and>
    table_ok 7 (napt_intern_hashmap r') \<and> extern_map r' = extern_map r"
proof -
  define r2 where "r2 = r\<lparr>
      napt_intern_hashmap := (napt_intern_hashmap r)\<lparr>hm_lock := (hm_lock (napt_intern_hashmap r))\<lparr>held := True\<rparr>\<rparr>,
      napt_extern_hashmap := (napt_extern_hashmap r)\<lparr>hm_lock := (hm_lock (napt_extern_hashmap r))\<lparr>held := True\<rparr>\<rparr>\<rparr>"
  have em: "extern_map r2 = extern_map r" "intern_map r2 = intern_map r"
    by (simp_all add: r2_def extern_map_def intern_map_def)
  have ok: "table_ok 9 (napt_extern_hashmap r2)" "table_ok 7 (napt_intern_hashmap r2)"
    and only: "napt_only r r2" and held: "held (hm_lock (napt_intern_hashmap r2))"
    using assms(1) by (simp_all add: r2_def napt_ok_def napt_only_def)
  have free: "is_free r2 = is_free r" by (intro ext) (simp only: is_free_def em)
  have ports2: "next_ports r2 10 = next_ports r 10" by (simp add: next_ports_def r2_def)
  from napt_attempt_spec [OF ok, where ikey = ikey and dst_addr = dst_addr and port_dst = port_dst and n = 10 and pub_ip = pub_ip, unfolded em free ports2 p option.case] assms(2,3)
  obtain r3 where r3: "napt_attempt 10 r2 ikey dst_addr port_dst pub_ip = Inr (r3, None)" "napt_only r2 r3"
      "napt_intern_hashmap r3 = napt_intern_hashmap r2" "table_ok 9 (napt_extern_hashmap r3)"
      "extern_map r3 = extern_map r" by blast
  have get: "hashmap_get (napt_intern_hashmap r2) (intern_key_bytes ikey) = Inr (napt_intern_hashmap r2, None)"
    by (rule napt_get_none [OF ok(2)]) (use assms(2) em(2) in \<open>simp add: intern_map_def\<close>)
  have "napt_public_port r ikey dst_addr port_dst pub_ip = Inr (unlock_extern r3, None)"
    using assms(1) get r3(1)
    by (simp add: napt_public_port_def lock_intern_def lock_extern_def hashmap_lock_free napt_ok_def r2_def)
  moreover have "napt_only r3 (unlock_extern r3)" by (simp add: napt_only_def unlock_extern_def)
  then have "napt_only r (unlock_extern r3)" using only r3(2) by (blast intro: napt_only_trans)
  moreover have "held (hm_lock (napt_intern_hashmap (unlock_extern r3)))"
    using held r3(3) by (simp add: unlock_extern_def)
  moreover have "extern_ok (unlock_extern r3)" "table_ok 7 (napt_intern_hashmap (unlock_extern r3))"
    "extern_map (unlock_extern r3) = extern_map r"
    using r3(3-5) ok(2) by (simp_all add: unlock_extern_def extern_ok_def extern_map_def)
  ultimately show ?thesis by blast
qed

section \<open>Translating packets\<close>

definition tpt_src :: "buf \<Rightarrow> port" where
  "tpt_src pkt = to_port (le16 (pkt ! hlen pkt) (pkt ! Suc (hlen pkt)))"

definition tpt_dst :: "buf \<Rightarrow> port" where
  "tpt_dst pkt = to_port (le16 (pkt ! (hlen pkt + 2)) (pkt ! Suc (hlen pkt + 2)))"

definition flow_key :: "buf \<Rightarrow> napt_intern_key" where
  "flow_key pkt = \<lparr>ik_ip_src = ip_src pkt, ik_port_src = tpt_src pkt, ik_protocol = ip_proto pkt\<rparr>"

definition reply_key :: "buf \<Rightarrow> napt_extern_key" where
  "reply_key pkt =
     \<lparr>ek_ip_dst = ip_src pkt, ek_port_src = tpt_dst pkt, ek_port_dst = tpt_src pkt, ek_protocol = ip_proto pkt\<rparr>"

definition translatable :: "buf \<Rightarrow> bool" where
  "translatable pkt \<longleftrightarrow> wf_pkt pkt \<and> (ip_proto pkt = 6 \<or> ip_proto pkt = 17) \<and> hlen pkt + 4 \<le> length pkt"

definition translate_out :: "ip_addr \<Rightarrow> port \<Rightarrow> buf \<Rightarrow> buf" where
  "translate_out ip p pkt = put16 (splice 12 (ip_bytes ip) pkt) (hlen pkt) (from_port p)"

definition translate_in :: "ip_addr \<Rightarrow> port \<Rightarrow> buf \<Rightarrow> buf" where
  "translate_in ip p pkt = put16 (splice 16 (ip_bytes ip) pkt) (hlen pkt + 2) (from_port p)"

definition public_addr :: "router \<Rightarrow> ip_addr" where
  "public_addr r = interface_ip (interface_arr r ! 1)"

lemma to_from_port [simp]: "to_port (from_port p) = p" "from_port (to_port w) = w"
  by (simp_all add: to_port_def from_port_def htons_def ntohs_def)

lemma ip_at_bytes: "take 4 (drop i b) = ip_bytes ip \<Longrightarrow> i + 4 \<le> length b \<Longrightarrow> ip_at b i = ip"
  using ip_bytes_ip_at [of i b] by simp

lemma nth_hlen: "wf_pkt pkt \<Longrightarrow> i < 20 \<Longrightarrow> i < hlen pkt"
  by (simp add: wf_pkt_def)

lemma translate_out_nth:
  assumes "translatable pkt"
  shows "length (translate_out ip p pkt) = length pkt"
    and "i < length pkt \<Longrightarrow> translate_out ip p pkt ! i =
      (if i = hlen pkt then lo8 (from_port p) else if i = Suc (hlen pkt) then hi8 (from_port p)
       else if 12 \<le> i \<and> i < 16 then ip_bytes ip ! (i - 12) else pkt ! i)"
  using assms
  by (auto simp: translate_out_def translatable_def wf_pkt_def nth_put16 length_splice nth_splice)

lemma translate_in_nth:
  assumes "translatable pkt"
  shows "length (translate_in ip p pkt) = length pkt"
    and "i < length pkt \<Longrightarrow> translate_in ip p pkt ! i =
      (if i = hlen pkt + 2 then lo8 (from_port p) else if i = Suc (hlen pkt + 2) then hi8 (from_port p)
       else if 16 \<le> i \<and> i < 20 then ip_bytes ip ! (i - 16) else pkt ! i)"
  using assms
  by (auto simp: translate_in_def translatable_def wf_pkt_def nth_put16 length_splice nth_splice)

lemma ip_at_nth: "(\<And>j. j < 4 \<Longrightarrow> b ! (i + j) = ip_bytes ip ! j) \<Longrightarrow> ip_at b i = ip"
proof -
  assume a: "\<And>j. j < 4 \<Longrightarrow> b ! (i + j) = ip_bytes ip ! j"
  show ?thesis using a [of 0] a [of 1] a [of 2] a [of 3] by (cases ip) (simp add: ip_at_def)
qed

lemma translate_out_fields:
  assumes t: "translatable pkt"
  shows "hlen (translate_out ip p pkt) = hlen pkt" "total_len (translate_out ip p pkt) = total_len pkt"
    "ip_proto (translate_out ip p pkt) = ip_proto pkt" "ip_src (translate_out ip p pkt) = ip"
    "ip_dst (translate_out ip p pkt) = ip_dst pkt" "tpt_src (translate_out ip p pkt) = p"
    "tpt_dst (translate_out ip p pkt) = tpt_dst pkt" "wf_pkt (translate_out ip p pkt)"
    "transport_ok pkt \<Longrightarrow> transport_ok (translate_out ip p pkt)"
proof -
  let ?q = "translate_out ip p pkt"
  have len: "20 \<le> hlen pkt" "hlen pkt + 4 \<le> length pkt" "length ?q = length pkt"
    using t translate_out_nth(1) [OF t] by (auto simp: translatable_def wf_pkt_def)
  note n = translate_out_nth(2) [OF t, of _ ip p]
  have "0 < length pkt" "0 < hlen pkt" using len by linarith+
  then have "?q ! 0 = pkt ! 0" using n [of 0] by simp
  then have hl: "hlen ?q = hlen pkt" by (simp add: hlen_def)
  have tl: "total_len ?q = total_len pkt" using len n [of 2] n [of 3] by (simp add: total_len_def)
  have pr: "ip_proto ?q = ip_proto pkt" using len n [of 9] by (simp add: ip_proto_def)
  show "ip_src ?q = ip" unfolding ip_src_def by (rule ip_at_nth) (use len n in auto)
  show "ip_dst ?q = ip_dst pkt"
    using len n [of 16] n [of 17] n [of 18] n [of 19] by (simp add: ip_dst_def ip_at_def)
  have b: "?q ! hlen pkt = lo8 (from_port p)" "?q ! Suc (hlen pkt) = hi8 (from_port p)"
    "?q ! (hlen pkt + 2) = pkt ! (hlen pkt + 2)" "?q ! Suc (hlen pkt + 2) = pkt ! Suc (hlen pkt + 2)"
    using len n [of "hlen pkt"] n [of "Suc (hlen pkt)"] n [of "hlen pkt + 2"] n [of "Suc (hlen pkt + 2)"]
    by simp_all
  then show "tpt_src ?q = p" "tpt_dst ?q = tpt_dst pkt" by (simp_all add: tpt_src_def tpt_dst_def hl)
  show "hlen ?q = hlen pkt" "total_len ?q = total_len pkt" "ip_proto ?q = ip_proto pkt" by (fact hl tl pr)+
  show "wf_pkt ?q" using t hl tl len by (simp add: translatable_def wf_pkt_def)
  assume ok: "transport_ok pkt"
  have "udp_cksum ?q = udp_cksum pkt" "udp_len ?q = udp_len pkt" if "hlen pkt + 8 \<le> length pkt"
    using that len n [of "hlen pkt + 4"] n [of "hlen pkt + 5"] n [of "hlen pkt + 6"] n [of "hlen pkt + 7"] hl
    by (simp_all add: udp_cksum_def udp_len_def)
  then show "transport_ok ?q"
    using ok hl tl pr len by (auto simp: transport_ok_def segment_fits_def tcp_len_def)
qed

lemma translate_in_fields:
  assumes t: "translatable pkt"
  shows "hlen (translate_in ip p pkt) = hlen pkt" "total_len (translate_in ip p pkt) = total_len pkt"
    "ip_proto (translate_in ip p pkt) = ip_proto pkt" "ip_src (translate_in ip p pkt) = ip_src pkt"
    "ip_dst (translate_in ip p pkt) = ip" "tpt_src (translate_in ip p pkt) = tpt_src pkt"
    "tpt_dst (translate_in ip p pkt) = p" "wf_pkt (translate_in ip p pkt)"
    "transport_ok pkt \<Longrightarrow> transport_ok (translate_in ip p pkt)"
proof -
  let ?q = "translate_in ip p pkt"
  have len: "20 \<le> hlen pkt" "hlen pkt + 4 \<le> length pkt" "length ?q = length pkt"
    using t translate_in_nth(1) [OF t] by (auto simp: translatable_def wf_pkt_def)
  note n = translate_in_nth(2) [OF t, of _ ip p]
  have "0 < length pkt" "0 < hlen pkt" using len by linarith+
  then have "?q ! 0 = pkt ! 0" using n [of 0] by simp
  then have hl: "hlen ?q = hlen pkt" by (simp add: hlen_def)
  have tl: "total_len ?q = total_len pkt" using len n [of 2] n [of 3] by (simp add: total_len_def)
  have pr: "ip_proto ?q = ip_proto pkt" using len n [of 9] by (simp add: ip_proto_def)
  show "ip_dst ?q = ip" unfolding ip_dst_def by (rule ip_at_nth) (use len n in auto)
  show "ip_src ?q = ip_src pkt"
    using len n [of 12] n [of 13] n [of 14] n [of 15] by (simp add: ip_src_def ip_at_def)
  have b: "?q ! hlen pkt = pkt ! hlen pkt" "?q ! Suc (hlen pkt) = pkt ! Suc (hlen pkt)"
    "?q ! (hlen pkt + 2) = lo8 (from_port p)" "?q ! Suc (hlen pkt + 2) = hi8 (from_port p)"
    using len n [of "hlen pkt"] n [of "Suc (hlen pkt)"] n [of "hlen pkt + 2"] n [of "Suc (hlen pkt + 2)"]
    by simp_all
  then show "tpt_dst ?q = p" "tpt_src ?q = tpt_src pkt" by (simp_all add: tpt_src_def tpt_dst_def hl)
  show "hlen ?q = hlen pkt" "total_len ?q = total_len pkt" "ip_proto ?q = ip_proto pkt" by (fact hl tl pr)+
  show "wf_pkt ?q" using t hl tl len by (simp add: translatable_def wf_pkt_def)
  assume ok: "transport_ok pkt"
  have "udp_cksum ?q = udp_cksum pkt" "udp_len ?q = udp_len pkt" if "hlen pkt + 8 \<le> length pkt"
    using that len n [of "hlen pkt + 4"] n [of "hlen pkt + 5"] n [of "hlen pkt + 6"] n [of "hlen pkt + 7"] hl
    by (simp_all add: udp_cksum_def udp_len_def)
  then show "transport_ok ?q"
    using ok hl tl pr len by (auto simp: transport_ok_def segment_fits_def tcp_len_def)
qed

section \<open>The handlers\<close>

lemma ports_ok:
  assumes "translatable pkt"
  shows "rd16 pkt (hlen pkt) = Inr (from_port (tpt_src pkt))"
    and "rd16 pkt (hlen pkt + 2) = Inr (from_port (tpt_dst pkt))"
  using assms by (simp_all add: translatable_def rd16_ok tpt_src_def tpt_dst_def)

lemma header_reads:
  assumes "translatable pkt"
  shows "rd_ip pkt 12 = Inr (ip_src pkt)" "rd_ip pkt 16 = Inr (ip_dst pkt)"
    "header_len pkt = Inr (hlen pkt)" "rd8 pkt 9 = Inr (ip_proto pkt)"
  using assms wf_pkt_length [of pkt]
  by (simp_all add: translatable_def rd_ip_ok rd8_ok header_len_wf ip_src_def ip_dst_def ip_proto_def)

lemma interface_get_ip_wan:
  "configured arr \<Longrightarrow> interface_get_ip arr interface_get_wan_id = Inr (interface_ip (arr ! 1))"
  using configured_length [of arr]
  by (simp add: interface_get_ip_def interface_get_config_def interface_get_wan_id_def)

lemma napt_out_handle_eq:
  assumes "translatable pkt" and "configured (interface_arr r)"
  shows "napt_out_handle r pkt =
    ebind (napt_public_port r (flow_key pkt) (ip_dst pkt) (tpt_dst pkt) (public_addr r)) (\<lambda>(r1, port).
      case port of
        None \<Rightarrow> Inr (r1, pkt)
      | Some p \<Rightarrow> send_ipv4 r1 (translate_out (public_addr r) p pkt))"
proof -
  have len: "20 \<le> hlen pkt" "hlen pkt + 4 \<le> length pkt" "ip_proto pkt = 6 \<or> ip_proto pkt = 17"
    using assms(1) by (auto simp: translatable_def wf_pkt_def)
  then have w: "wr_ip pkt 12 ip = Inr (splice 12 (ip_bytes ip) pkt)"
    "wr16 (splice 12 (ip_bytes ip) pkt) (hlen pkt) (from_port p) = Inr (translate_out ip p pkt)" for ip p
    by (simp_all add: wr_ip_ok wr16_put16 length_splice translate_out_def)
  show ?thesis
    using len(3) interface_get_ip_wan [OF assms(2)]
    by (auto simp: napt_out_handle_def header_reads [OF assms(1)] ports_ok [OF assms(1)] w
        flow_key_def public_addr_def
        simp del: add_2_eq_Suc' intro!: ebind_cong split: option.splits)
qed

text \<open>The state after a hit in the extern table: its mutex was unlocked once too often.\<close>

definition after_hit :: "router \<Rightarrow> router" where
  "after_hit r =
     (let h = napt_extern_hashmap r; m = hm_lock h
      in r\<lparr>napt_extern_hashmap := h\<lparr>hm_lock := m\<lparr>stray_unlocks := Suc (stray_unlocks m)\<rparr>\<rparr>\<rparr>)"

lemma napt_inc_handle_extern:
  assumes "translatable pkt" and "extern_ok r"
  shows "napt_inc_handle r pkt =
    (case extern_map r (reply_key pkt) of
       None \<Rightarrow> Inr (r, pkt)
     | Some e \<Rightarrow> send_ipv4 (after_hit r) (translate_in (lan_ip e) (lan_port e) pkt))"
proof -
  let ?x = "napt_extern_hashmap r"
  let ?h = "?x\<lparr>hm_lock := (hm_lock ?x)\<lparr>held := True\<rparr>\<rparr>"
  have len: "20 \<le> hlen pkt" "hlen pkt + 4 \<le> length pkt" "ip_proto pkt = 6 \<or> ip_proto pkt = 17"
    using assms(1) by (auto simp: translatable_def wf_pkt_def)
  have free: "\<not> held (hm_lock ?x)" and ok: "table_ok 9 ?h"
    using assms(2) by (simp_all add: extern_ok_def)
  have lock: "lock_extern r = Inr (r\<lparr>napt_extern_hashmap := ?h\<rparr>)"
    using free by (simp add: lock_extern_def hashmap_lock_free)
  have key: "\<lparr>ek_ip_dst = ip_src pkt, ek_port_src = tpt_dst pkt, ek_port_dst = tpt_src pkt,
      ek_protocol = ip_proto pkt\<rparr> = reply_key pkt" by (simp add: reply_key_def)
  note step = napt_inc_handle_def header_reads [OF assms(1)] ports_ok [OF assms(1)]
    key lock
  show ?thesis
  proof (cases "extern_map r (reply_key pkt)")
    case None
    then have "hashmap_get ?h (extern_key_bytes (reply_key pkt)) = Inr (?h, None)"
      by (intro napt_get_none [OF ok]) (simp add: extern_map_def)
    moreover have "unlock_extern (r\<lparr>napt_extern_hashmap := ?h\<rparr>) = r"
      using free by (simp add: unlock_extern_def hashmap_unlock_def)
    ultimately show ?thesis using len(3) None by (auto simp: step simp del: add_2_eq_Suc')
  next
    case (Some e)
    then have "napt_view extern_key_bytes ?h (reply_key pkt) = Some e" by (simp add: extern_map_def)
    from napt_get_entry [OF ok this] obtain p where
      p: "hashmap_get ?h (extern_key_bytes (reply_key pkt)) = Inr (hashmap_unlock ?h, Some p)"
        "rd_ip (data ?h) p = Inr (lan_ip e)" "rd16 (data ?h) (p + 4) = Inr (lan_port e)" by blast
    have d: "data (hashmap_unlock ?h) = data ?h" by (simp add: hashmap_unlock_def)
    have w: "wr_ip pkt 16 ip = Inr (splice 16 (ip_bytes ip) pkt)"
      "wr16 (splice 16 (ip_bytes ip) pkt) (hlen pkt + 2) (from_port q) = Inr (translate_in ip q pkt)" for ip q
      using len by (simp_all add: wr_ip_ok wr16_put16 length_splice translate_in_def)
    have "unlock_extern (r\<lparr>napt_extern_hashmap := hashmap_unlock ?h\<rparr>) = after_hit r"
      using free by (simp add: unlock_extern_def hashmap_unlock_def after_hit_def mutex_unlock_def Let_def)
    then show ?thesis using len(3) Some p d w by (auto simp: step simp del: add_2_eq_Suc')
  qed
qed

lemma extern_ok_napt: "napt_ok r \<Longrightarrow> extern_ok r"
  by (simp add: napt_ok_def extern_ok_def)

lemmas napt_inc_handle_eq = napt_inc_handle_extern [OF _ extern_ok_napt]

text \<open>The states the handlers are specified on.\<close>

definition router_ok :: "router \<Rightarrow> bool" where
  "router_ok r \<longleftrightarrow> configured (interface_arr r) \<and> devices_inv (macs r) \<and> timer_inv r \<and> napt_ok r"

lemma router_okD:
  assumes "router_ok r"
  shows "configured (interface_arr r)" "devices_inv (macs r)" "timer_inv r" "napt_ok r"
  using assms by (simp_all add: router_ok_def)

lemma router_ok_napt:
  assumes "router_ok r" and "napt_only r r'" and "napt_ok r'"
  shows "router_ok r'"
  using assms(1,3) napt_only_simps [OF assms(2)] by (simp add: router_ok_def timer_inv_def)

lemma router_ok_timer:
  assumes "router_ok r" and "timer_only r r'" and "timer_inv r'"
  shows "router_ok r'"
  using assms(1,3) timer_only_simps [OF assms(2)] by (simp add: router_ok_def napt_ok_def)

lemma after_hit_only: "napt_only r (after_hit r)"
  by (simp add: napt_only_def after_hit_def Let_def)

lemma after_hit_ok: "napt_ok r \<Longrightarrow> napt_ok (after_hit r)"
  by (simp add: napt_ok_def after_hit_def Let_def)

lemma after_hit_maps [simp]: "extern_map (after_hit r) = extern_map r" "intern_map (after_hit r) = intern_map r"
  by (simp_all add: extern_map_def intern_map_def after_hit_def Let_def)

lemma timer_only_maps:
  assumes "timer_only r r'"
  shows "extern_map r' = extern_map r" "intern_map r' = intern_map r" "napt_ok r' = napt_ok r"
    "public_addr r' = public_addr r" "tables_room m r' = tables_room m r"
  using timer_only_simps [OF assms]
  by (simp_all add: extern_map_def intern_map_def napt_ok_def public_addr_def tables_room_def)

text \<open>What a packet handed to \<open>send_ipv4\<close> leads to, in the form the properties use.\<close>

definition forwarded :: "router \<Rightarrow> buf \<Rightarrow> router \<Rightarrow> bool" where
  "forwarded r pkt r' \<longleftrightarrow>
     timer_inv r' \<and> timer_only r r' \<and>
     (let dst = ip_dst pkt; hop = next_hop (wan r) dst; int_id = lan_or_wan dst;
          bytes = take (total_len pkt) (with_checksums pkt)
      in case device_map (macs r) hop of
        Some mac \<Rightarrow>
          delta_list r' = delta_list r \<and>
          sent r' = sent r @ [(int_id, ether_frame mac (device_mac_addr (interface_arr r ! int_id)) 0x0800 bytes)]
      | None \<Rightarrow>
          waiting (delta_list r') = (waiting (delta_list r))(hop := waiting (delta_list r) hop @ [bytes]) \<and>
          sent r' = sent r @ (if hop \<in> dn_ip_addr ` set (delta_list r) then []
                              else [(int_id, request_frame r int_id hop)]))"

lemma send_forwards:
  assumes "router_ok r" and "wf_pkt pkt" and "transport_ok pkt"
  shows "\<exists>r'. send_ipv4 r pkt = Inr (r', with_checksums pkt) \<and> forwarded r pkt r' \<and> router_ok r' \<and>
    extern_map r' = extern_map r \<and> intern_map r' = intern_map r"
proof -
  note ok = router_okD [OF assms(1)]
  from send_ipv4_effect [OF assms(2,3) ok(1-3)] with_checksums_spec(1) [OF assms(2,3)] obtain r' where
    r': "send_ipv4 r pkt = Inr (r', with_checksums pkt)" "timer_inv r'" "timer_only r r'" "forwarded r pkt r'"
    unfolding forwarded_def by auto
  then show ?thesis
    using router_ok_timer [OF assms(1) r'(3,2)] timer_only_maps [OF r'(3)] by auto
qed

end
