(* ===== verification/Napt_Flows.thy ===== *)
theory Napt_Flows
  imports Napt
begin

text \<open>
  What translation does to flows: the behaviour of \<open>napt_out_handle\<close> and
  \<open>napt_inc_handle\<close> on every branch, over the abstract maps of the two tables, and the
  properties that follow for the packets of a connection.
\<close>

section \<open>Outbound packets\<close>

text \<open>The extern key a reply to a translated packet carries.\<close>

definition flow_extern_key :: "buf \<Rightarrow> port \<Rightarrow> napt_extern_key" where
  "flow_extern_key pkt p = extern_key_of (flow_key pkt) (ip_dst pkt) (tpt_dst pkt) p"

definition flow_entry :: "router \<Rightarrow> buf \<Rightarrow> port \<Rightarrow> napt_entry" where
  "flow_entry r pkt p = new_entry (flow_key pkt) (ip_dst pkt) (tpt_dst pkt) (public_addr r) p"

definition chosen_port :: "router \<Rightarrow> buf \<Rightarrow> port option" where
  "chosen_port r pkt = find (is_free r (flow_key pkt) (ip_dst pkt) (tpt_dst pkt)) (next_ports r 10)"

lemma flow_proto: "translatable pkt \<Longrightarrow> ik_protocol (flow_key pkt) \<noteq> 0"
  by (auto simp: translatable_def flow_key_def)

lemma flow_entry_simps [simp]:
  "lan_ip (flow_entry r pkt p) = ip_src pkt" "lan_port (flow_entry r pkt p) = tpt_src pkt"
  "public_port (flow_entry r pkt p) = p" "public_ip (flow_entry r pkt p) = public_addr r"
  by (simp_all add: flow_entry_def new_entry_def flow_key_def)

lemma send_translated:
  assumes "router_ok r1" and "translatable pkt" and "transport_ok pkt"
  shows "\<exists>r2. send_ipv4 r1 (translate_out ip p pkt) = Inr (r2, with_checksums (translate_out ip p pkt)) \<and>
    forwarded r1 (translate_out ip p pkt) r2 \<and> router_ok r2 \<and>
    extern_map r2 = extern_map r1 \<and> intern_map r2 = intern_map r1"
  using translate_out_fields(8,9) [OF assms(2), of ip p] assms by (intro send_forwards) simp_all

lemma napt_out_new:
  assumes ok: "router_ok r" and t: "translatable pkt" and tr: "transport_ok pkt"
    and new: "intern_map r (flow_key pkt) = None" and p: "chosen_port r pkt = Some p"
  shows "\<exists>r1 r2. napt_out_handle r pkt = Inr (r2, with_checksums (translate_out (public_addr r) p pkt)) \<and>
    napt_only r r1 \<and> forwarded r1 (translate_out (public_addr r) p pkt) r2 \<and> router_ok r2 \<and>
    extern_map r2 = (extern_base r)(flow_extern_key pkt p \<mapsto> flow_entry r pkt p) \<and>
    intern_map r2 = (intern_base r)(flow_key pkt \<mapsto> flow_entry r pkt p) \<and>
    (\<forall>m. tables_room (Suc m) r \<longrightarrow> tables_room m r2) \<and>
    moves (napt_extern_hashmap r) (napt_extern_hashmap r2)"
proof -
  note okD = router_okD [OF ok]
  from napt_public_port_new [OF okD(4) new flow_proto [OF t] p [unfolded chosen_port_def], of "public_addr r"]
  obtain r1 where r1: "napt_public_port r (flow_key pkt) (ip_dst pkt) (tpt_dst pkt) (public_addr r) = Inr (r1, Some p)"
      "napt_only r r1" "napt_ok r1"
      "extern_map r1 = (extern_base r)(flow_extern_key pkt p \<mapsto> flow_entry r pkt p)"
      "intern_map r1 = (intern_base r)(flow_key pkt \<mapsto> flow_entry r pkt p)"
      "\<forall>m. tables_room (Suc m) r \<longrightarrow> tables_room m r1" "moves (napt_extern_hashmap r) (napt_extern_hashmap r1)"
    unfolding flow_extern_key_def flow_entry_def by blast
  have ok1: "router_ok r1" by (rule router_ok_napt [OF ok r1(2,3)])
  from send_translated [OF ok1 t tr, of "public_addr r" p] obtain r2 where
    r2: "send_ipv4 r1 (translate_out (public_addr r) p pkt) =
          Inr (r2, with_checksums (translate_out (public_addr r) p pkt))"
      "forwarded r1 (translate_out (public_addr r) p pkt) r2" "router_ok r2"
      "extern_map r2 = extern_map r1" "intern_map r2 = intern_map r1" by blast
  have "napt_out_handle r pkt = Inr (r2, with_checksums (translate_out (public_addr r) p pkt))"
    using r1(1) r2(1) by (simp add: napt_out_handle_eq [OF t okD(1)])
  moreover have "tables_room m r2 = tables_room m r1" for m
    using r2(2) timer_only_maps(5) by (simp add: forwarded_def)
  moreover have "timer_only r1 r2" using r2(2) by (simp add: forwarded_def)
  then have "napt_extern_hashmap r2 = napt_extern_hashmap r1" by (rule timer_only_simps(5))
  ultimately show ?thesis using r1 r2 by auto
qed

text \<open>A handler leaves the configuration and the source of random numbers as they are.\<close>

lemma out_same:
  assumes "napt_only r r1" and "forwarded r1 pkt r2"
  shows "interface_arr r2 = interface_arr r" "wan r2 = wan r" "macs r2 = macs r"
    "rand_seq r2 = rand_seq r" "public_addr r2 = public_addr r"
proof -
  have t: "timer_only r1 r2" using assms(2) by (simp add: forwarded_def)
  show "interface_arr r2 = interface_arr r" "wan r2 = wan r" "macs r2 = macs r"
    "rand_seq r2 = rand_seq r" "public_addr r2 = public_addr r"
    using timer_only_simps [OF t] napt_only_simps [OF assms(1)] by (simp_all add: public_addr_def)
qed

lemma napt_out_known:
  assumes ok: "router_ok r" and t: "translatable pkt" and tr: "transport_ok pkt"
    and known: "intern_map r (flow_key pkt) = Some e"
  shows "\<exists>r1 r2. napt_out_handle r pkt = Inr (r2, with_checksums (translate_out (public_addr r) (public_port e) pkt)) \<and>
    napt_only r r1 \<and> forwarded r1 (translate_out (public_addr r) (public_port e) pkt) r2 \<and> router_ok r2 \<and>
    extern_map r2 = extern_map r \<and> intern_map r2 = intern_map r"
proof -
  note okD = router_okD [OF ok]
  from napt_public_port_known [OF okD(4) known, of "ip_dst pkt" "tpt_dst pkt" "public_addr r"]
  obtain r1 where r1: "napt_public_port r (flow_key pkt) (ip_dst pkt) (tpt_dst pkt) (public_addr r) =
        Inr (r1, Some (public_port e))"
      "napt_only r r1" "napt_ok r1" "extern_map r1 = extern_map r" "intern_map r1 = intern_map r" by blast
  have ok1: "router_ok r1" by (rule router_ok_napt [OF ok r1(2,3)])
  from send_translated [OF ok1 t tr, of "public_addr r" "public_port e"] obtain r2 where
    r2: "send_ipv4 r1 (translate_out (public_addr r) (public_port e) pkt) =
          Inr (r2, with_checksums (translate_out (public_addr r) (public_port e) pkt))"
      "forwarded r1 (translate_out (public_addr r) (public_port e) pkt) r2" "router_ok r2"
      "extern_map r2 = extern_map r1" "intern_map r2 = intern_map r1" by blast
  have "napt_out_handle r pkt = Inr (r2, with_checksums (translate_out (public_addr r) (public_port e) pkt))"
    using r1(1) r2(1) by (simp add: napt_out_handle_eq [OF t okD(1)])
  with r1 r2 show ?thesis by auto
qed

lemma napt_out_exhausted:
  assumes ok: "router_ok r" and t: "translatable pkt"
    and new: "intern_map r (flow_key pkt) = None" and p: "chosen_port r pkt = None"
  shows "\<exists>r1. napt_out_handle r pkt = Inr (r1, pkt) \<and> napt_only r r1 \<and> held (hm_lock (napt_intern_hashmap r1))"
proof -
  note okD = router_okD [OF ok]
  from napt_public_port_exhausted [OF okD(4) new flow_proto [OF t] p [unfolded chosen_port_def], of "public_addr r"]
  show ?thesis by (auto simp: napt_out_handle_eq [OF t okD(1)])
qed

section \<open>Inbound packets\<close>

lemma napt_inc_hit:
  assumes ok: "router_ok r" and t: "translatable pkt" and tr: "transport_ok pkt"
    and hit: "extern_map r (reply_key pkt) = Some e"
  shows "\<exists>r2. napt_inc_handle r pkt = Inr (r2, with_checksums (translate_in (lan_ip e) (lan_port e) pkt)) \<and>
    forwarded (after_hit r) (translate_in (lan_ip e) (lan_port e) pkt) r2 \<and> router_ok r2 \<and>
    extern_map r2 = extern_map r \<and> intern_map r2 = intern_map r"
proof -
  note okD = router_okD [OF ok]
  have ok1: "router_ok (after_hit r)"
    by (rule router_ok_napt [OF ok after_hit_only after_hit_ok [OF okD(4)]])
  have "\<exists>r2. send_ipv4 (after_hit r) (translate_in (lan_ip e) (lan_port e) pkt) =
        Inr (r2, with_checksums (translate_in (lan_ip e) (lan_port e) pkt)) \<and>
      forwarded (after_hit r) (translate_in (lan_ip e) (lan_port e) pkt) r2 \<and> router_ok r2 \<and>
      extern_map r2 = extern_map (after_hit r) \<and> intern_map r2 = intern_map (after_hit r)"
    using translate_in_fields(8,9) [OF t, of "lan_ip e" "lan_port e"] tr by (intro send_forwards ok1) simp_all
  with hit show ?thesis by (simp add: napt_inc_handle_eq [OF t okD(4)])
qed

lemma napt_inc_miss:
  assumes "translatable pkt" and "napt_ok r" and "extern_map r (reply_key pkt) = None"
  shows "napt_inc_handle r pkt = Inr (r, pkt)"
  using assms by (simp add: napt_inc_handle_eq)

lemma napt_other_protocol:
  assumes "wf_pkt pkt" and "ip_proto pkt \<noteq> 6" and "ip_proto pkt \<noteq> 17"
  shows "napt_inc_handle r pkt = Inr (r, pkt)" and "napt_out_handle r pkt = Inr (r, pkt)"
  using assms wf_pkt_length [OF assms(1)]
  by (simp_all add: napt_inc_handle_def napt_out_handle_def header_len_wf rd8_ok rd_ip_ok ip_proto_def)

lemma ip_dst_translated_in:
  assumes "translatable pkt" and "transport_ok pkt"
  shows "ip_dst (with_checksums (translate_in ip p pkt)) = ip"
proof -
  note f = translate_in_fields [OF assms(1), of ip p]
  from with_checksums_spec(2) [OF f(8) f(9) [OF assms(2)]] f(5) show ?thesis
    by (simp add: same_header_fields)
qed

section \<open>Dispatch\<close>

lemma ipv4_handle_wan:
  assumes "configured (interface_arr r)" and "20 \<le> length pkt"
  shows "ipv4_handle r pkt 1 =
    (if ip_dst pkt = IpAddr 0xff 0xff 0xff 0xff \<or> ip_dst pkt \<noteq> public_addr r then Inr (r, pkt)
     else napt_inc_handle r pkt)"
proof -
  have "interface_get_ip (interface_arr r) 1 = Inr (public_addr r)"
    using interface_get_ip_wan [OF assms(1)] by (simp add: interface_get_wan_id_def public_addr_def)
  then show ?thesis
    using interface_side_configured [OF assms(1)] assms(2)
    by (simp add: ipv4_handle_def rd_ip_ok ip_dst_def)
qed

lemma ipv4_handle_lan:
  assumes "configured (interface_arr r)" and "20 \<le> length pkt"
  shows "ipv4_handle r pkt 0 =
    (if ip_dst pkt = IpAddr 0xff 0xff 0xff 0xff \<or> on_lan (ip_dst pkt) then Inr (r, pkt)
     else napt_out_handle r pkt)"
proof -
  have "INT_SIDE_LAN \<noteq> INT_SIDE_WAN" by (simp add: INT_SIDE_LAN_def INT_SIDE_WAN_def)
  then show ?thesis
    using interface_side_configured [OF assms(1)] assms(2) outgoing_interface [OF assms(1), of "ip_dst pkt"]
    by (simp add: ipv4_handle_def rd_ip_ok ip_dst_def lan_or_wan_def)
qed

section \<open>A sample network\<close>

text \<open>The router as \<open>main\<close> starts it, on a machine whose \<open>rand()\<close> always returns 0.\<close>

definition fresh_router :: router where
  "fresh_router =
     napt_init (router_at_start (hashmap_init hashmap_cyclic_hash 9 24) (hashmap_init hashmap_cyclic_hash 7 24) (\<lambda>_. 0))"

definition udp_packet :: "ip_addr \<Rightarrow> port \<Rightarrow> ip_addr \<Rightarrow> port \<Rightarrow> buf" where
  "udp_packet src sport dst dport =
     [0x45, 0, 0, 30, 0, 1, 0, 0, 64, 17, 0, 0] @ ip_bytes src @ ip_bytes dst
     @ [hi8 sport, lo8 sport, hi8 dport, lo8 dport, 0, 10, 0xab, 0xcd, 1, 2]"

lemma udp_packet_nth:
  "udp_packet (IpAddr a b c d) sport (IpAddr e f g h) dport =
     [0x45, 0, 0, 30, 0, 1, 0, 0, 64, 17, 0, 0, a, b, c, d, e, f, g, h,
      hi8 sport, lo8 sport, hi8 dport, lo8 dport, 0, 10, 0xab, 0xcd, 1, 2]"
  by (simp add: udp_packet_def)

lemma udp_packet_hlen: "hlen (udp_packet src sport dst dport) = 20"
proof -
  have "udp_packet src sport dst dport ! 0 = 0x45" by (simp add: udp_packet_def)
  moreover have "unat ((0x45 :: u8) AND 0x0F) * 4 = 20" by code_simp
  ultimately show ?thesis by (simp only: hlen_def)
qed

lemma udp_packet_fields:
  "ip_src (udp_packet src sport dst dport) = src" "ip_dst (udp_packet src sport dst dport) = dst"
  "ip_proto (udp_packet src sport dst dport) = 17" "total_len (udp_packet src sport dst dport) = 30"
  "tpt_src (udp_packet src sport dst dport) = sport" "tpt_dst (udp_packet src sport dst dport) = dport"
  "length (udp_packet src sport dst dport) = 30" "udp_len (udp_packet src sport dst dport) = 10"
  by (cases src; cases dst; simp add: udp_packet_nth ip_src_def ip_dst_def ip_at_def ip_proto_def total_len_def
      tpt_src_def tpt_dst_def udp_len_def to_port_def udp_packet_hlen [of src sport dst dport, unfolded udp_packet_def]
      udp_packet_hlen [of "IpAddr _ _ _ _" sport "IpAddr _ _ _ _" dport, unfolded udp_packet_nth] unat_le16)+

lemma udp_packet_ok:
  "translatable (udp_packet src sport dst dport)" "transport_ok (udp_packet src sport dst dport)"
  using udp_packet_fields [of src sport dst dport] udp_packet_hlen [of src sport dst dport]
  by (simp_all add: translatable_def wf_pkt_def transport_ok_def segment_fits_def)

lemma udp_packet_keys:
  "flow_key (udp_packet src sport dst dport) = \<lparr>ik_ip_src = src, ik_port_src = sport, ik_protocol = 17\<rparr>"
  "flow_extern_key (udp_packet src sport dst dport) p =
     \<lparr>ek_ip_dst = dst, ek_port_src = p, ek_port_dst = dport, ek_protocol = 17\<rparr>"
  "reply_key (udp_packet src sport dst dport) =
     \<lparr>ek_ip_dst = src, ek_port_src = dport, ek_port_dst = sport, ek_protocol = 17\<rparr>"
  by (simp_all add: flow_key_def flow_extern_key_def extern_key_of_def reply_key_def udp_packet_fields)

lemma fresh_router_ok:
  "router_ok fresh_router" "extern_map fresh_router = Map.empty" "intern_map fresh_router = Map.empty"
  "public_addr fresh_router = IpAddr 192 168 0 2" "rand_seq fresh_router = (\<lambda>_. 0)"
proof -
  have same: "interface_arr (napt_init r) = interface_arr r" "macs (napt_init r) = macs r"
    "delta_list (napt_init r) = delta_list r" "timer_mutex (napt_init r) = timer_mutex r" for r
    by (simp_all add: napt_init_def)
  show "router_ok fresh_router"
    using napt_init_ok(1) by (simp add: fresh_router_def router_ok_def timer_inv_def same)
      (simp add: router_at_start_def delta_ok_def)
  show "extern_map fresh_router = Map.empty" "intern_map fresh_router = Map.empty"
    unfolding fresh_router_def by (rule napt_init_ok)+
  show "public_addr fresh_router = IpAddr 192 168 0 2" "rand_seq fresh_router = (\<lambda>_. 0)"
    by (simp_all add: fresh_router_def napt_init_def router_at_start_def public_addr_def init_interface_arr_def)
qed

lemma find_replicate: "find P (replicate (Suc n) x) = (if P x then Some x else None)"
  by (induction n) auto

lemma zero_rand_port:
  assumes "rand_seq r = (\<lambda>_. 0)"
  shows "chosen_port r pkt = (if extern_map r (flow_extern_key pkt 1024) = None then Some 1024 else None)"
proof -
  have "next_ports r 10 = replicate (Suc 9) 1024"
    using assms by (simp add: next_ports_def random_port_def map_replicate_const)
  then show ?thesis
    unfolding chosen_port_def by (simp only: find_replicate is_free_def flow_extern_key_def)
qed

lemma fresh_room: "tables_room 5 fresh_router"
  by (simp add: tables_room_def free_slots_def fresh_router_def napt_init_def hashmap_init_def Let_def
      HASHMAP_SIZE_INIT_def)

text \<open>The first packet of a flow, on a router with room that always draws port 1024.\<close>

lemma first_packet:
  assumes "router_ok r" and "rand_seq r = (\<lambda>_. 0)" and "tables_room (Suc m) r"
    and pkt: "pkt = udp_packet src sport dst dport"
    and "intern_map r (flow_key pkt) = None" and "extern_map r (flow_extern_key pkt 1024) = None"
  obtains r2 where "napt_out_handle r pkt = Inr (r2, with_checksums (translate_out (public_addr r) 1024 pkt))"
    and "router_ok r2" and "rand_seq r2 = (\<lambda>_. 0)" and "public_addr r2 = public_addr r" and "tables_room m r2"
    and "extern_map r2 = (extern_map r)(flow_extern_key pkt 1024 \<mapsto> flow_entry r pkt 1024)"
    and "intern_map r2 = (intern_map r)(flow_key pkt \<mapsto> flow_entry r pkt 1024)"
proof -
  have "chosen_port r pkt = Some 1024" using zero_rand_port [OF assms(2)] assms(6) by simp
  with napt_out_new [OF assms(1) udp_packet_ok assms(5) [unfolded pkt], folded pkt] obtain r1 r2 where
    r: "napt_out_handle r pkt = Inr (r2, with_checksums (translate_out (public_addr r) 1024 pkt))"
      "napt_only r r1" "forwarded r1 (translate_out (public_addr r) 1024 pkt) r2" "router_ok r2"
      "extern_map r2 = (extern_base r)(flow_extern_key pkt 1024 \<mapsto> flow_entry r pkt 1024)"
      "intern_map r2 = (intern_base r)(flow_key pkt \<mapsto> flow_entry r pkt 1024)"
      "\<forall>m. tables_room (Suc m) r \<longrightarrow> tables_room m r2" by blast
  with out_same [OF r(2,3)] assms(2,3) tables_room_base [OF assms(3)] show ?thesis
    by (intro that [of r2]) simp_all
qed

section \<open>Properties\<close>

text \<open>
  C6: a new connection and its replies. The first packet of a flow from the LAN leaves with
  the router's address, the first free of the drawn ports and nothing else changed but the
  checksums; every packet that comes back from that remote endpoint to that port, with the
  same protocol, goes to the address and port the flow came from. Neither handler faults.
\<close>

theorem napt_flow_roundtrip:
  assumes "router_ok r" and "translatable pkt" and "transport_ok pkt"
    and "intern_map r (flow_key pkt) = None" and "chosen_port r pkt = Some p"
  shows "\<exists>r1 r2. napt_out_handle r pkt = Inr (r2, with_checksums (translate_out (public_addr r) p pkt)) \<and>
    napt_only r r1 \<and> forwarded r1 (translate_out (public_addr r) p pkt) r2 \<and> router_ok r2 \<and>
    (\<forall>reply. translatable reply \<longrightarrow> transport_ok reply \<longrightarrow> reply_key reply = flow_extern_key pkt p \<longrightarrow>
      (\<exists>r3. napt_inc_handle r2 reply =
          Inr (r3, with_checksums (translate_in (ip_src pkt) (tpt_src pkt) reply)) \<and>
        forwarded (after_hit r2) (translate_in (ip_src pkt) (tpt_src pkt) reply) r3 \<and> router_ok r3))"
proof -
  from napt_out_new [OF assms] obtain r1 r2 where
    r: "napt_out_handle r pkt = Inr (r2, with_checksums (translate_out (public_addr r) p pkt))"
      "napt_only r r1" "forwarded r1 (translate_out (public_addr r) p pkt) r2" "router_ok r2"
      "extern_map r2 = (extern_base r)(flow_extern_key pkt p \<mapsto> flow_entry r pkt p)" by blast
  have "\<exists>r3. napt_inc_handle r2 reply = Inr (r3, with_checksums (translate_in (ip_src pkt) (tpt_src pkt) reply)) \<and>
        forwarded (after_hit r2) (translate_in (ip_src pkt) (tpt_src pkt) reply) r3 \<and> router_ok r3"
    if "translatable reply" "transport_ok reply" "reply_key reply = flow_extern_key pkt p" for reply
  proof -
    have "extern_map r2 (reply_key reply) = Some (flow_entry r pkt p)" using r(5) that(3) by simp
    from napt_inc_hit [OF r(4) that(1,2) this] show ?thesis by auto
  qed
  with r show ?thesis by blast
qed

theorem napt_flow_roundtrip_witness:
  "\<exists>r2 q. napt_out_handle fresh_router (udp_packet (IpAddr 192 168 1 50) 5000 (IpAddr 8 8 8 8) 53) = Inr (r2, q) \<and>
     q = with_checksums (translate_out (IpAddr 192 168 0 2) 1024 (udp_packet (IpAddr 192 168 1 50) 5000 (IpAddr 8 8 8 8) 53)) \<and>
     (\<exists>r3. napt_inc_handle r2 (udp_packet (IpAddr 8 8 8 8) 53 (IpAddr 192 168 0 2) 1024) =
        Inr (r3, with_checksums (translate_in (IpAddr 192 168 1 50) 5000
               (udp_packet (IpAddr 8 8 8 8) 53 (IpAddr 192 168 0 2) 1024))))"
proof -
  let ?pkt = "udp_packet (IpAddr 192 168 1 50) 5000 (IpAddr 8 8 8 8) 53"
  let ?reply = "udp_packet (IpAddr 8 8 8 8) 53 (IpAddr 192 168 0 2) 1024"
  have "intern_map fresh_router (flow_key ?pkt) = None" by (simp add: fresh_router_ok)
  moreover have "chosen_port fresh_router ?pkt = Some 1024"
    using zero_rand_port [of fresh_router] by (simp add: fresh_router_ok)
  moreover have "reply_key ?reply = flow_extern_key ?pkt 1024" by (simp add: udp_packet_keys)
  ultimately show ?thesis
    using napt_flow_roundtrip [OF fresh_router_ok(1) udp_packet_ok, of "IpAddr 192 168 1 50" 5000 "IpAddr 8 8 8 8" 53 1024]
      udp_packet_ok [of "IpAddr 8 8 8 8" 53 "IpAddr 192 168 0 2" 1024]
    by (fastforce simp: fresh_router_ok udp_packet_fields)
qed

text \<open>
  The firewall. A packet from the WAN changes nothing and goes nowhere unless it is
  addressed to the router's own address, carries TCP or UDP, and a connection for exactly its
  remote address, remote port, local port and protocol is in the table.
\<close>

theorem unsolicited_dropped:
  assumes "configured (interface_arr r)" and "napt_ok r" and "wf_pkt pkt"
    and "ip_dst pkt \<noteq> public_addr r \<or> ip_dst pkt = IpAddr 255 255 255 255 \<or>
      (ip_proto pkt \<noteq> 6 \<and> ip_proto pkt \<noteq> 17) \<or>
      (hlen pkt + 4 \<le> length pkt \<and> extern_map r (reply_key pkt) = None)"
  shows "ipv4_handle r pkt 1 = Inr (r, pkt)"
proof -
  note wan = ipv4_handle_wan [OF assms(1) wf_pkt_length [OF assms(3)]]
  consider "ip_dst pkt \<noteq> public_addr r \<or> ip_dst pkt = IpAddr 255 255 255 255"
    | "ip_proto pkt \<noteq> 6" "ip_proto pkt \<noteq> 17"
    | "translatable pkt" "extern_map r (reply_key pkt) = None"
    using assms(3,4) by (auto simp: translatable_def)
  then show ?thesis
  proof cases
    case 1
    then show ?thesis using wan by auto
  next
    case 2
    then show ?thesis using wan napt_other_protocol(1) [OF assms(3)] by auto
  next
    case 3
    then show ?thesis using wan napt_inc_miss [OF _ assms(2)] by auto
  qed
qed

theorem unsolicited_dropped_witness:
  "ipv4_handle fresh_router (udp_packet (IpAddr 8 8 8 8) 53 (IpAddr 192 168 0 2) 1024) 1 =
     Inr (fresh_router, udp_packet (IpAddr 8 8 8 8) 53 (IpAddr 192 168 0 2) 1024)"
proof -
  let ?pkt = "udp_packet (IpAddr 8 8 8 8) 53 (IpAddr 192 168 0 2) 1024"
  have "configured (interface_arr fresh_router)" "napt_ok fresh_router"
    using fresh_router_ok(1) by (simp_all add: router_ok_def)
  moreover have "wf_pkt ?pkt" using udp_packet_ok by (simp add: translatable_def)
  moreover have "extern_map fresh_router (reply_key ?pkt) = None" by (simp add: fresh_router_ok)
  moreover have "hlen ?pkt + 4 \<le> length ?pkt" by (simp add: udp_packet_hlen udp_packet_fields)
  ultimately show ?thesis using unsolicited_dropped by blast
qed

text \<open>
  C18: while the tables have room, a new connection disturbs no other: its port, between 1024
  and 59999, is one no connection to the same remote endpoint uses, all other entries of both
  tables stay, and only the entry of this flow is added.
\<close>

theorem new_flow_keeps_others:
  assumes "router_ok r" and "translatable pkt" and "transport_ok pkt"
    and "intern_map r (flow_key pkt) = None" and "chosen_port r pkt = Some p" and "tables_room 1 r"
  shows "\<exists>r2 q. napt_out_handle r pkt = Inr (r2, q) \<and> router_ok r2 \<and>
    1024 \<le> unat p \<and> unat p < 60000 \<and>
    extern_map r (flow_extern_key pkt p) = None \<and>
    extern_map r2 = (extern_map r)(flow_extern_key pkt p \<mapsto> flow_entry r pkt p) \<and>
    intern_map r2 = (intern_map r)(flow_key pkt \<mapsto> flow_entry r pkt p)"
proof -
  from assms(5) have "p \<in> set (next_ports r 10)" and free: "is_free r (flow_key pkt) (ip_dst pkt) (tpt_dst pkt) p"
    by (auto simp: chosen_port_def find_Some_iff)
  then have "\<exists>x. p = random_port x" by (auto simp: next_ports_def)
  then have "1024 \<le> unat p \<and> unat p < 60000" using random_port_bounds by auto
  with napt_out_new [OF assms(1-5)] tables_room_base [of 0 r] assms(6) free show ?thesis
    by (fastforce simp: is_free_def flow_extern_key_def)
qed

theorem new_flow_keeps_others_witness:
  "\<exists>r2 q. napt_out_handle fresh_router (udp_packet (IpAddr 192 168 1 50) 5000 (IpAddr 8 8 8 8) 53) = Inr (r2, q) \<and>
     extern_map r2 = [\<lparr>ek_ip_dst = IpAddr 8 8 8 8, ek_port_src = 1024, ek_port_dst = 53, ek_protocol = 17\<rparr> \<mapsto>
       flow_entry fresh_router (udp_packet (IpAddr 192 168 1 50) 5000 (IpAddr 8 8 8 8) 53) 1024]"
proof -
  let ?pkt = "udp_packet (IpAddr 192 168 1 50) 5000 (IpAddr 8 8 8 8) 53"
  have "intern_map fresh_router (flow_key ?pkt) = None" by (simp add: fresh_router_ok)
  moreover have "chosen_port fresh_router ?pkt = Some 1024"
    using zero_rand_port [of fresh_router] by (simp add: fresh_router_ok)
  moreover have "tables_room 1 fresh_router" using fresh_room by (simp add: tables_room_def free_slots_def)
  ultimately show ?thesis
    using new_flow_keeps_others [OF fresh_router_ok(1) udp_packet_ok, of "IpAddr 192 168 1 50" 5000 "IpAddr 8 8 8 8" 53 1024]
    by (fastforce simp: fresh_router_ok udp_packet_keys)
qed

text \<open>
  C25: one flow, two destinations. The intern table knows a flow by its LAN address, port and
  protocol only. A packet of a known flow to another destination leaves with the port of the
  first, without an entry for the second destination in the extern table; unless one is there
  by accident, every reply from the second destination is dropped.
\<close>

theorem second_destination_unreachable:
  assumes "router_ok r" and "translatable pkt" and "transport_ok pkt"
    and "intern_map r (flow_key pkt) = Some e"
    and "extern_map r (flow_extern_key pkt (public_port e)) = None"
  shows "\<exists>r2. napt_out_handle r pkt = Inr (r2, with_checksums (translate_out (public_addr r) (public_port e) pkt)) \<and>
    router_ok r2 \<and> extern_map r2 = extern_map r \<and>
    (\<forall>reply. translatable reply \<longrightarrow> reply_key reply = flow_extern_key pkt (public_port e) \<longrightarrow>
      napt_inc_handle r2 reply = Inr (r2, reply))"
proof -
  from napt_out_known [OF assms(1-4)] obtain r2 where
    r: "napt_out_handle r pkt = Inr (r2, with_checksums (translate_out (public_addr r) (public_port e) pkt))"
      "router_ok r2" "extern_map r2 = extern_map r" by blast
  then show ?thesis using assms(5) router_okD(4) [OF r(2)] napt_inc_miss by auto
qed

theorem second_destination_unreachable_witness:
  "\<exists>r1 q1 r2 q2. napt_out_handle fresh_router (udp_packet (IpAddr 192 168 1 50) 5000 (IpAddr 8 8 8 8) 53) = Inr (r1, q1) \<and>
     napt_out_handle r1 (udp_packet (IpAddr 192 168 1 50) 5000 (IpAddr 9 9 9 9) 53) = Inr (r2, q2) \<and>
     napt_inc_handle r2 (udp_packet (IpAddr 9 9 9 9) 53 (IpAddr 192 168 0 2) 1024) =
       Inr (r2, udp_packet (IpAddr 9 9 9 9) 53 (IpAddr 192 168 0 2) 1024)"
proof -
  let ?p1 = "udp_packet (IpAddr 192 168 1 50) 5000 (IpAddr 8 8 8 8) 53"
  let ?p2 = "udp_packet (IpAddr 192 168 1 50) 5000 (IpAddr 9 9 9 9) 53"
  let ?reply = "udp_packet (IpAddr 9 9 9 9) 53 (IpAddr 192 168 0 2) 1024"
  have room: "tables_room (Suc 0) fresh_router" using fresh_room by (simp add: tables_room_def free_slots_def)
  obtain r1 where r1: "napt_out_handle fresh_router ?p1 =
        Inr (r1, with_checksums (translate_out (public_addr fresh_router) 1024 ?p1))" "router_ok r1"
      "extern_map r1 = (extern_map fresh_router)(flow_extern_key ?p1 1024 \<mapsto> flow_entry fresh_router ?p1 1024)"
      "intern_map r1 = (intern_map fresh_router)(flow_key ?p1 \<mapsto> flow_entry fresh_router ?p1 1024)"
    by (rule first_packet [OF fresh_router_ok(1,5) room refl, of "IpAddr 192 168 1 50" 5000 "IpAddr 8 8 8 8" 53])
      (auto simp: fresh_router_ok)
  have "intern_map r1 (flow_key ?p2) = Some (flow_entry fresh_router ?p1 1024)"
    "extern_map r1 (flow_extern_key ?p2 (public_port (flow_entry fresh_router ?p1 1024))) = None"
    using r1(3,4) by (simp_all add: udp_packet_keys fresh_router_ok)
  from second_destination_unreachable [OF r1(2) udp_packet_ok this] obtain r2 q2 where
    "napt_out_handle r1 ?p2 = Inr (r2, q2)"
    "\<forall>reply. translatable reply \<longrightarrow> reply_key reply = flow_extern_key ?p2 1024 \<longrightarrow>
      napt_inc_handle r2 reply = Inr (r2, reply)" by auto
  moreover have "reply_key ?reply = flow_extern_key ?p2 1024" by (simp add: udp_packet_keys)
  ultimately show ?thesis using r1(1) udp_packet_ok(1) [of "IpAddr 9 9 9 9"] by blast
qed

text \<open>
  C27: ten collisions stop the router. When all ten drawn ports are taken for the remote
  endpoint, the packet is dropped as intended, but the intern table stays locked: every later
  packet from the LAN that needs translation blocks its thread for ever.
\<close>

theorem port_exhaustion_deadlocks:
  assumes "router_ok r" and "translatable pkt"
    and "intern_map r (flow_key pkt) = None" and "chosen_port r pkt = None"
  shows "\<exists>r1. napt_out_handle r pkt = Inr (r1, pkt) \<and>
    (\<forall>next. translatable next \<longrightarrow> napt_out_handle r1 next = Inl Blocked)"
proof -
  from napt_out_exhausted [OF assms] obtain r1 where
    r1: "napt_out_handle r pkt = Inr (r1, pkt)" "napt_only r r1" "held (hm_lock (napt_intern_hashmap r1))" by blast
  have "configured (interface_arr r1)"
    using router_okD(1) [OF assms(1)] napt_only_simps(1) [OF r1(2)] by simp
  moreover have "lock_intern r1 = Inl Blocked"
    using r1(3) by (simp add: lock_intern_def hashmap_lock_def mutex_lock_held)
  ultimately show ?thesis
    using r1(1) by (auto simp: napt_out_handle_eq napt_public_port_def)
qed

theorem port_exhaustion_deadlocks_witness:
  "\<exists>r1 q1 r2. napt_out_handle fresh_router (udp_packet (IpAddr 192 168 1 50) 5000 (IpAddr 8 8 8 8) 53) = Inr (r1, q1) \<and>
     napt_out_handle r1 (udp_packet (IpAddr 192 168 1 51) 5000 (IpAddr 8 8 8 8) 53) =
       Inr (r2, udp_packet (IpAddr 192 168 1 51) 5000 (IpAddr 8 8 8 8) 53) \<and>
     napt_out_handle r2 (udp_packet (IpAddr 192 168 1 50) 5000 (IpAddr 8 8 8 8) 53) = Inl Blocked"
proof -
  let ?p1 = "udp_packet (IpAddr 192 168 1 50) 5000 (IpAddr 8 8 8 8) 53"
  let ?p2 = "udp_packet (IpAddr 192 168 1 51) 5000 (IpAddr 8 8 8 8) 53"
  have room: "tables_room (Suc 0) fresh_router" using fresh_room by (simp add: tables_room_def free_slots_def)
  obtain r1 where r1: "napt_out_handle fresh_router ?p1 =
        Inr (r1, with_checksums (translate_out (public_addr fresh_router) 1024 ?p1))" "router_ok r1"
      "rand_seq r1 = (\<lambda>_. 0)"
      "extern_map r1 = (extern_map fresh_router)(flow_extern_key ?p1 1024 \<mapsto> flow_entry fresh_router ?p1 1024)"
      "intern_map r1 = (intern_map fresh_router)(flow_key ?p1 \<mapsto> flow_entry fresh_router ?p1 1024)"
    by (rule first_packet [OF fresh_router_ok(1,5) room refl, of "IpAddr 192 168 1 50" 5000 "IpAddr 8 8 8 8" 53])
      (auto simp: fresh_router_ok)
  have "intern_map r1 (flow_key ?p2) = None" "chosen_port r1 ?p2 = None"
    using r1(4,5) zero_rand_port [OF r1(3), of ?p2] by (simp_all add: udp_packet_keys fresh_router_ok)
  from port_exhaustion_deadlocks [OF r1(2) udp_packet_ok(1) this] r1(1) udp_packet_ok(1) show ?thesis
    by blast
qed

text \<open>
  C26: replies to the wrong host. The port of a known flow is used for a new destination
  without asking whether another host's connection to that destination already has it. Then
  the packet leaves with that connection's addresses and ports, and the replies go to the
  other host.
\<close>

theorem reused_port_misdelivers:
  assumes "router_ok r" and "translatable pkt" and "transport_ok pkt"
    and "intern_map r (flow_key pkt) = Some e"
    and "extern_map r (flow_extern_key pkt (public_port e)) = Some other" and "lan_ip other \<noteq> ip_src pkt"
  shows "\<exists>r2. napt_out_handle r pkt = Inr (r2, with_checksums (translate_out (public_addr r) (public_port e) pkt)) \<and>
    (\<forall>reply. translatable reply \<longrightarrow> transport_ok reply \<longrightarrow>
       reply_key reply = flow_extern_key pkt (public_port e) \<longrightarrow>
      (\<exists>r3. napt_inc_handle r2 reply =
          Inr (r3, with_checksums (translate_in (lan_ip other) (lan_port other) reply)) \<and>
        ip_dst (with_checksums (translate_in (lan_ip other) (lan_port other) reply)) \<noteq> ip_src pkt))"
proof -
  from napt_out_known [OF assms(1-4)] obtain r2 where
    r: "napt_out_handle r pkt = Inr (r2, with_checksums (translate_out (public_addr r) (public_port e) pkt))"
      "router_ok r2" "extern_map r2 = extern_map r" by blast
  with assms(5,6) show ?thesis by (metis napt_inc_hit ip_dst_translated_in)
qed

theorem reused_port_misdelivers_witness:
  "\<exists>r1 q1 r2 q2 r3 q3 r4 q4.
     napt_out_handle fresh_router (udp_packet (IpAddr 192 168 1 50) 5000 (IpAddr 8 8 8 8) 53) = Inr (r1, q1) \<and>
     napt_out_handle r1 (udp_packet (IpAddr 192 168 1 51) 6000 (IpAddr 9 9 9 9) 53) = Inr (r2, q2) \<and>
     napt_out_handle r2 (udp_packet (IpAddr 192 168 1 50) 5000 (IpAddr 9 9 9 9) 53) = Inr (r3, q3) \<and>
     napt_inc_handle r3 (udp_packet (IpAddr 9 9 9 9) 53 (IpAddr 192 168 0 2) 1024) = Inr (r4, q4) \<and>
     ip_dst q4 = IpAddr 192 168 1 51"
proof -
  let ?p1 = "udp_packet (IpAddr 192 168 1 50) 5000 (IpAddr 8 8 8 8) 53"
  let ?p2 = "udp_packet (IpAddr 192 168 1 51) 6000 (IpAddr 9 9 9 9) 53"
  let ?p3 = "udp_packet (IpAddr 192 168 1 50) 5000 (IpAddr 9 9 9 9) 53"
  let ?reply = "udp_packet (IpAddr 9 9 9 9) 53 (IpAddr 192 168 0 2) 1024"
  have room: "tables_room (Suc 1) fresh_router" using fresh_room by (simp add: tables_room_def free_slots_def)
  obtain r1 where r1: "napt_out_handle fresh_router ?p1 =
        Inr (r1, with_checksums (translate_out (public_addr fresh_router) 1024 ?p1))" "router_ok r1"
      "rand_seq r1 = (\<lambda>_. 0)" "public_addr r1 = public_addr fresh_router" "tables_room 1 r1"
      "extern_map r1 = (extern_map fresh_router)(flow_extern_key ?p1 1024 \<mapsto> flow_entry fresh_router ?p1 1024)"
      "intern_map r1 = (intern_map fresh_router)(flow_key ?p1 \<mapsto> flow_entry fresh_router ?p1 1024)"
    by (rule first_packet [OF fresh_router_ok(1,5) room refl, of "IpAddr 192 168 1 50" 5000 "IpAddr 8 8 8 8" 53])
      (auto simp: fresh_router_ok)
  have room1: "tables_room (Suc 0) r1" using r1(5) by simp
  obtain r2 where r2: "napt_out_handle r1 ?p2 =
        Inr (r2, with_checksums (translate_out (public_addr r1) 1024 ?p2))" "router_ok r2"
      "extern_map r2 = (extern_map r1)(flow_extern_key ?p2 1024 \<mapsto> flow_entry r1 ?p2 1024)"
      "intern_map r2 = (intern_map r1)(flow_key ?p2 \<mapsto> flow_entry r1 ?p2 1024)"
    by (rule first_packet [OF r1(2,3) room1 refl, of "IpAddr 192 168 1 51" 6000 "IpAddr 9 9 9 9" 53])
      (use r1(6,7) in \<open>auto simp: fresh_router_ok udp_packet_keys\<close>)
  let ?e = "flow_entry fresh_router ?p1 1024" and ?other = "flow_entry r1 ?p2 1024"
  have "intern_map r2 (flow_key ?p3) = Some ?e"
    "extern_map r2 (flow_extern_key ?p3 (public_port ?e)) = Some ?other" "lan_ip ?other \<noteq> ip_src ?p3"
    using r1(7) r2(3,4) by (simp_all add: udp_packet_keys udp_packet_fields)
  from reused_port_misdelivers [OF r2(2) udp_packet_ok this] obtain r3 where
    r3: "napt_out_handle r2 ?p3 = Inr (r3, with_checksums (translate_out (public_addr r2) (public_port ?e) ?p3))"
      "\<And>reply. translatable reply \<Longrightarrow> transport_ok reply \<Longrightarrow>
         reply_key reply = flow_extern_key ?p3 (public_port ?e) \<Longrightarrow>
         \<exists>r4. napt_inc_handle r3 reply =
           Inr (r4, with_checksums (translate_in (lan_ip ?other) (lan_port ?other) reply))" by blast
  have "reply_key ?reply = flow_extern_key ?p3 (public_port ?e)" by (simp add: udp_packet_keys)
  with r3(2) udp_packet_ok obtain r4 where
    r4: "napt_inc_handle r3 ?reply = Inr (r4, with_checksums (translate_in (IpAddr 192 168 1 51) 6000 ?reply))"
    by (fastforce simp: udp_packet_fields)
  have "ip_dst (with_checksums (translate_in (IpAddr 192 168 1 51) 6000 ?reply)) = IpAddr 192 168 1 51"
    by (rule ip_dst_translated_in [OF udp_packet_ok])
  with r1(1) r2(1) r3(1) r4 show ?thesis by blast
qed

text \<open>
  C23: the sixth connection cuts off the first five. Once the extern table is half full, the
  next new connection makes it grow, and growing forgets: of all connections with a real
  protocol only the new one is left, so every reply to an earlier one is dropped.
\<close>

theorem growth_cuts_connections:
  assumes "router_ok r" and "translatable pkt" and "transport_ok pkt"
    and "intern_map r (flow_key pkt) = None" and "chosen_port r pkt = Some p"
    and "\<not> free_slots 1 (napt_extern_hashmap r)"
  shows "\<exists>r2 q. napt_out_handle r pkt = Inr (r2, q) \<and> router_ok r2 \<and>
    (\<forall>k. ek_protocol k \<noteq> 0 \<longrightarrow> k \<noteq> flow_extern_key pkt p \<longrightarrow> extern_map r2 k = None) \<and>
    (\<forall>reply. translatable reply \<longrightarrow> reply_key reply \<noteq> flow_extern_key pkt p \<longrightarrow>
      napt_inc_handle r2 reply = Inr (r2, reply))"
proof -
  from napt_out_new [OF assms(1-5)] obtain r1 r2 where
    r: "napt_out_handle r pkt = Inr (r2, with_checksums (translate_out (public_addr r) p pkt))" "router_ok r2"
      "extern_map r2 = (extern_base r)(flow_extern_key pkt p \<mapsto> flow_entry r pkt p)" by blast
  have full: "\<not> hm_size (napt_extern_hashmap r) < size_allocated (napt_extern_hashmap r) div 2"
    using assms(6) by (simp add: free_slots_def)
  have gone: "extern_map r2 k = None" if "ek_protocol k \<noteq> 0" "k \<noteq> flow_extern_key pkt p" for k
    using napt_base_full [OF full, of extern_key_bytes k] that r(3) by (simp add: extern_base_def)
  have "napt_inc_handle r2 reply = Inr (r2, reply)"
    if "translatable reply" "reply_key reply \<noteq> flow_extern_key pkt p" for reply
  proof (rule napt_inc_miss [OF that(1) router_okD(4) [OF r(2)]])
    have "ek_protocol (reply_key reply) \<noteq> 0" using that(1) by (auto simp: reply_key_def translatable_def)
    with gone that(2) show "extern_map r2 (reply_key reply) = None" by blast
  qed
  with r gone show ?thesis by blast
qed

text \<open>Five connections to five hosts fill the table, the sixth clears it.\<close>

definition dns_query :: "u8 \<Rightarrow> buf" where
  "dns_query i = udp_packet (IpAddr 192 168 1 i) 5000 (IpAddr 8 8 8 8) (ucast i)"

definition five_flows :: "(napt_extern_key \<times> napt_entry) list" where
  "five_flows =
     map (\<lambda>i. (flow_extern_key (dns_query i) 1024, flow_entry fresh_router (dns_query i) 1024)) [1, 2, 3, 4, 5]"

lemma fill_flows:
  "table_ok 9 h \<Longrightarrow> hm_size h + length kvs \<le> size_allocated h div 2 \<Longrightarrow> distinct (map fst kvs) \<Longrightarrow>
   \<forall>k \<in> fst ` set kvs. ek_protocol k \<noteq> 0 \<and> napt_view extern_key_bytes h k = None \<Longrightarrow>
   \<exists>h'. put_all (napt_put extern_key_bytes) kvs h = Inr h' \<and> table_ok 9 h' \<and> hm_lock h' = hm_lock h \<and>
     hm_size h' = hm_size h + length kvs \<and> size_allocated h' = size_allocated h \<and>
     napt_view extern_key_bytes h' = napt_view extern_key_bytes h ++ map_of kvs"
proof (induction kvs arbitrary: h)
  case Nil
  then show ?case by simp
next
  case (Cons kv kvs)
  obtain k e where kv: "kv = (k, e)" by (cases kv)
  have room: "hm_size h < size_allocated h div 2" using Cons.prems(2) by simp
  have "napt_base extern_key_bytes h k = None"
    using Cons.prems(4) kv by (simp add: napt_base_room [OF room])
  from napt_put_spec [OF Cons.prems(1) _ extern_key_bytes_inj this, of e] obtain h1 where
    h1: "napt_put extern_key_bytes k e h = Inr h1" "table_ok 9 h1" "hm_lock h1 = hm_lock h"
      "napt_view extern_key_bytes h1 = (napt_view extern_key_bytes h)(k \<mapsto> e)"
    by (auto simp: napt_base_room [OF room])
  have size: "hm_size h1 = hm_size h + 1" "size_allocated h1 = size_allocated h"
    using insert_at_spec [of h "extern_key_bytes k" "entry_bytes e"] Cons.prems(1) room h1(1)
    unfolding napt_put_def hashmap_insert_room [OF room] by (auto simp: table_ok_def same_shape_def)
  have len: "hm_size h1 + length kvs \<le> size_allocated h1 div 2" using Cons.prems(2) size by simp
  have dist: "distinct (map fst kvs)" and new: "k \<notin> fst ` set kvs" using Cons.prems(3) kv by simp_all
  have none: "\<forall>k' \<in> fst ` set kvs. ek_protocol k' \<noteq> 0 \<and> napt_view extern_key_bytes h1 k' = None"
  proof
    fix k'
    assume k': "k' \<in> fst ` set kvs"
    then have "k' \<noteq> k" using new by blast
    moreover have "k' \<in> fst ` set (kv # kvs)" using k' by simp
    with Cons.prems(4) have "ek_protocol k' \<noteq> 0 \<and> napt_view extern_key_bytes h k' = None" by (rule bspec)
    ultimately show "ek_protocol k' \<noteq> 0 \<and> napt_view extern_key_bytes h1 k' = None"
      by (simp add: h1(4))
  qed
  obtain h2 where h2: "put_all (napt_put extern_key_bytes) kvs h1 = Inr h2" "table_ok 9 h2"
      "hm_lock h2 = hm_lock h1" "hm_size h2 = hm_size h1 + length kvs" "size_allocated h2 = size_allocated h1"
      "napt_view extern_key_bytes h2 = napt_view extern_key_bytes h1 ++ map_of kvs"
    using Cons.IH [OF h1(2) len dist none] by blast
  have "napt_view extern_key_bytes h2 = napt_view extern_key_bytes h ++ map_of (kv # kvs)"
    using new kv by (simp add: h2(6) h1(4) map_add_upd_left dom_map_of_conv_image_fst)
  moreover have "put_all (napt_put extern_key_bytes) (kv # kvs) h = Inr h2" using kv h1(1) h2(1) by simp
  ultimately show ?case using h1(3) h2(2-5) size
    by (intro exI [of _ h2] conjI) (simp_all del: map_of.simps)
qed

text \<open>The router whose extern table the five connections have filled.\<close>

lemma five_flows_filled:
  obtains he where
    "put_all (napt_put extern_key_bytes) five_flows (napt_extern_hashmap fresh_router) = Inr he"
    "router_ok (fresh_router\<lparr>napt_extern_hashmap := he\<rparr>)"
    "extern_map (fresh_router\<lparr>napt_extern_hashmap := he\<rparr>) = map_of five_flows"
    "chosen_port (fresh_router\<lparr>napt_extern_hashmap := he\<rparr>) (dns_query 6) = Some 1024"
    "intern_map (fresh_router\<lparr>napt_extern_hashmap := he\<rparr>) (flow_key (dns_query 6)) = None"
    "\<not> free_slots 1 he"
proof -
  have start: "table_ok 9 (napt_extern_hashmap fresh_router)" "hm_size (napt_extern_hashmap fresh_router) = 0"
    "size_allocated (napt_extern_hashmap fresh_router) = 11"
    "\<not> held (hm_lock (napt_extern_hashmap fresh_router))"
    using fresh_router_ok(1)
    by (simp_all add: router_ok_def napt_ok_def)
      (simp_all add: fresh_router_def napt_init_def hashmap_init_def Let_def HASHMAP_SIZE_INIT_def)
  have empty: "napt_view extern_key_bytes (napt_extern_hashmap fresh_router) = Map.empty"
    using fresh_router_ok(2) by (simp add: extern_map_def)
  have "distinct (map fst five_flows)" "\<forall>k \<in> fst ` set five_flows. ek_protocol k \<noteq> 0"
    "length five_flows = 5"
    by (simp_all add: five_flows_def dns_query_def udp_packet_keys)
  with fill_flows [OF start(1), of five_flows] start empty obtain he where
    he: "put_all (napt_put extern_key_bytes) five_flows (napt_extern_hashmap fresh_router) = Inr he" "table_ok 9 he"
      "hm_lock he = hm_lock (napt_extern_hashmap fresh_router)" "hm_size he = 5" "size_allocated he = 11"
      "napt_view extern_key_bytes he = map_of five_flows" by auto
  let ?r = "fresh_router\<lparr>napt_extern_hashmap := he\<rparr>"
  have em: "extern_map ?r = map_of five_flows" using he(6) by (simp add: extern_map_def)
  have "rand_seq ?r = (\<lambda>_. 0)" by (simp add: fresh_router_ok)
  then have "chosen_port ?r (dns_query 6) = Some 1024"
    using zero_rand_port [of ?r "dns_query 6"]
    by (simp add: em five_flows_def dns_query_def udp_packet_keys)
  moreover have "router_ok ?r"
    using fresh_router_ok(1) he(2,3) by (simp add: router_ok_def napt_ok_def timer_inv_def)
  moreover have "intern_map ?r (flow_key (dns_query 6)) = None" using fresh_router_ok(3) by (simp add: intern_map_def)
  moreover have "\<not> free_slots 1 he" using he(4,5) by (simp add: free_slots_def)
  ultimately show ?thesis using that he(1) em by blast
qed

theorem growth_cuts_connections_witness:
  "\<exists>he r2 q. put_all (napt_put extern_key_bytes) five_flows (napt_extern_hashmap fresh_router) = Inr he \<and>
     extern_map (fresh_router\<lparr>napt_extern_hashmap := he\<rparr>) (flow_extern_key (dns_query 1) 1024) \<noteq> None \<and>
     napt_out_handle (fresh_router\<lparr>napt_extern_hashmap := he\<rparr>) (dns_query 6) = Inr (r2, q) \<and>
     extern_map r2 (flow_extern_key (dns_query 1) 1024) = None"
proof -
  obtain he where he: "put_all (napt_put extern_key_bytes) five_flows (napt_extern_hashmap fresh_router) = Inr he"
      "router_ok (fresh_router\<lparr>napt_extern_hashmap := he\<rparr>)"
      "extern_map (fresh_router\<lparr>napt_extern_hashmap := he\<rparr>) = map_of five_flows"
      "chosen_port (fresh_router\<lparr>napt_extern_hashmap := he\<rparr>) (dns_query 6) = Some 1024"
      "intern_map (fresh_router\<lparr>napt_extern_hashmap := he\<rparr>) (flow_key (dns_query 6)) = None" "\<not> free_slots 1 he"
    by (rule five_flows_filled)
  let ?r = "fresh_router\<lparr>napt_extern_hashmap := he\<rparr>"
  obtain r2 q where r2: "napt_out_handle ?r (dns_query 6) = Inr (r2, q)"
      "\<And>k. ek_protocol k \<noteq> 0 \<Longrightarrow> k \<noteq> flow_extern_key (dns_query 6) 1024 \<Longrightarrow> extern_map r2 k = None"
    using growth_cuts_connections [OF he(2), of "dns_query 6" 1024] he(4-6) udp_packet_ok
    unfolding dns_query_def by auto
  have "extern_map r2 (flow_extern_key (dns_query 1) 1024) = None"
    by (rule r2(2)) (simp_all add: dns_query_def udp_packet_keys)
  moreover have "extern_map ?r (flow_extern_key (dns_query 1) 1024) \<noteq> None"
    by (simp add: he(3) five_flows_def)
  ultimately show ?thesis using he(1) r2(1) by blast
qed

end
