(* ===== verification/Ethernet.thy ===== *)
theory Ethernet
  imports Napt_Flows
begin

text \<open>
  Reception: the dispatch on the EtherType (\<open>ethernet_handle\<close> of \<open>src/ethernet.c\<close>)
  and one round of the receiving loop of \<open>thread_start\<close> in \<open>src/main.c\<close>, which reads
  every frame of an interface into the same buffer.
\<close>

section \<open>Dispatch\<close>

definition ETHERTYPE_IPV4 :: u16 where "ETHERTYPE_IPV4 = 0x0800"
definition ETHERTYPE_ARP :: u16 where "ETHERTYPE_ARP = 0x0806"

text \<open>
  The packet behind the header is handled in place; the result has the frame as it is then.
\<close>

definition ethernet_handle :: "router \<Rightarrow> buf \<Rightarrow> nat \<Rightarrow> (router \<times> buf) res" where
  "ethernet_handle r frame int_id =
     ebind (rd16 frame 12) (\<lambda>w.
       let ethertype = ntohs w in
       if ethertype = ETHERTYPE_IPV4 then
         ebind (rd_ip frame (14 + 12)) (\<lambda>sender_ip_addr.
         ebind (rd_mac frame 6) (\<lambda>sender_mac_addr.
         ebind (learn r sender_ip_addr sender_mac_addr) (\<lambda>r1.
         ebind (ipv4_handle r1 (drop 14 frame) int_id) (\<lambda>(r2, pkt).
           Inr (r2, take 14 frame @ pkt)))))
       else if ethertype = ETHERTYPE_ARP then
         ebind (rd_arp frame 14) (\<lambda>pkt.
         ebind (rd_mac frame 6) (\<lambda>_.
         ebind (arp_handle r pkt int_id) (\<lambda>r1.
           Inr (r1, frame))))
       else Inr (r, frame))"

section \<open>The receiving loop\<close>

definition ETHER_MTU :: nat where "ETHER_MTU = 1518"

text \<open>
  \<open>read\<close> stores at most \<open>ETHER_MTU\<close> bytes of the frame at the start of the buffer and
  returns their number, or fails and stores nothing (\<open>None\<close>).  The loop ignores what it
  returns: it handles the buffer, whatever it holds.
\<close>

definition read_into :: "buf \<Rightarrow> buf option \<Rightarrow> buf" where
  "read_into buffer incoming =
     (case incoming of None \<Rightarrow> buffer | Some frame \<Rightarrow> splice 0 (take ETHER_MTU frame) buffer)"

definition receive :: "router \<Rightarrow> buf \<Rightarrow> buf option \<Rightarrow> nat \<Rightarrow> (router \<times> buf) res" where
  "receive r buffer incoming int_id = ethernet_handle r (read_into buffer incoming) int_id"

section \<open>Frames by type\<close>

definition frame_type :: "buf \<Rightarrow> u16" where
  "frame_type frame = ntohs (le16 (frame ! 12) (frame ! 13))"

definition frame_mac :: "buf \<Rightarrow> mac_addr" where
  "frame_mac frame = mac_at frame 6"

lemma length_read_into [simp]: "length buffer = ETHER_MTU \<Longrightarrow> length (read_into buffer incoming) = ETHER_MTU"
  by (cases incoming) (simp_all add: read_into_def length_splice)

lemma frame_ip_src: "34 \<le> length frame \<Longrightarrow> ip_at frame 26 = ip_src (drop 14 frame)"
  by (simp add: ip_src_def ip_at_def)

lemma ethernet_handle_other:
  assumes "34 \<le> length frame" and "frame_type frame \<noteq> ETHERTYPE_IPV4" and "frame_type frame \<noteq> ETHERTYPE_ARP"
  shows "ethernet_handle r frame int_id = Inr (r, frame)"
proof -
  have "rd16 frame 12 = Inr (le16 (frame ! 12) (frame ! 13))" using assms(1) by (simp add: rd16_ok)
  then show ?thesis using assms(2,3) by (simp add: ethernet_handle_def frame_type_def)
qed

lemma ethernet_handle_ipv4:
  assumes "34 \<le> length frame" and "frame_type frame = ETHERTYPE_IPV4"
  shows "ethernet_handle r frame int_id =
    ebind (learn r (ip_src (drop 14 frame)) (frame_mac frame)) (\<lambda>r1.
    ebind (ipv4_handle r1 (drop 14 frame) int_id) (\<lambda>(r2, pkt). Inr (r2, take 14 frame @ pkt)))"
proof -
  have "rd16 frame 12 = Inr (le16 (frame ! 12) (frame ! 13))" using assms(1) by (simp add: rd16_ok)
  then show ?thesis
    using assms by (simp add: ethernet_handle_def frame_type_def rd_ip_ok rd_mac_ok frame_mac_def frame_ip_src)
qed

lemma ethernet_handle_arp:
  assumes "42 \<le> length frame" and "frame_type frame = ETHERTYPE_ARP"
  shows "ethernet_handle r frame int_id =
    ebind (arp_handle r (arp_of_bytes frame 14) int_id) (\<lambda>r1. Inr (r1, frame))"
proof -
  have "rd16 frame 12 = Inr (le16 (frame ! 12) (frame ! 13))" using assms(1) by (simp add: rd16_ok)
  moreover have "ETHERTYPE_ARP \<noteq> ETHERTYPE_IPV4" by (simp add: ETHERTYPE_ARP_def ETHERTYPE_IPV4_def)
  ultimately show ?thesis
    using assms by (simp add: ethernet_handle_def frame_type_def rd_arp_def rd_mac_ok)
qed

end
