(* ===== verification/Reactive.thy ===== *)
theory Reactive
  imports Prelude
begin

text \<open>
  Programs that react to events: runs, the contract of a safety invariant and the contract
  of faultless processing.  The router and the DHCP server are both run this way.
\<close>

section \<open>Reactive systems\<close>

text \<open>A run handles a list of events one after the other and stops at the first fault.\<close>

fun run_events :: "('s \<Rightarrow> 'e \<Rightarrow> 's res) \<Rightarrow> 'e list \<Rightarrow> 's \<Rightarrow> 's res" where
  "run_events react [] s = Inr s"
| "run_events react (e # es) s = ebind (react s e) (run_events react es)"

text \<open>Safety: an invariant every completed step keeps.\<close>

locale safe_system =
  fixes react :: "'s \<Rightarrow> 'e \<Rightarrow> 's res" and sound :: "'s \<Rightarrow> bool"
  assumes step_sound: "sound s \<Longrightarrow> react s e = Inr s' \<Longrightarrow> sound s'"
begin

lemma run_sound: "sound s \<Longrightarrow> run_events react es s = Inr s' \<Longrightarrow> sound s'"
proof (induction es arbitrary: s)
  case Nil
  then show ?case by simp
next
  case (Cons e es)
  then obtain s1 where "react s e = Inr s1" "run_events react es s1 = Inr s'"
    by (auto elim: ebind_InrE)
  with Cons.IH step_sound Cons.prems(1) show ?case by blast
qed

end

text \<open>
  Absence of faults: from a good state, a fair event is handled to the end, and the state is
  good again.  A run is fair when each of its events is, in the state it meets.
\<close>

fun fair_run :: "('s \<Rightarrow> 'e \<Rightarrow> 's res) \<Rightarrow> ('s \<Rightarrow> 'e \<Rightarrow> bool) \<Rightarrow> 'e list \<Rightarrow> 's \<Rightarrow> bool" where
  "fair_run react fair [] s = True"
| "fair_run react fair (e # es) s =
     (fair s e \<and> (case react s e of Inl _ \<Rightarrow> True | Inr s' \<Rightarrow> fair_run react fair es s'))"

locale faultless_system =
  fixes react :: "'s \<Rightarrow> 'e \<Rightarrow> 's res" and good :: "'s \<Rightarrow> bool" and fair :: "'s \<Rightarrow> 'e \<Rightarrow> bool"
  assumes step_good: "good s \<Longrightarrow> fair s e \<Longrightarrow> \<exists>s'. react s e = Inr s' \<and> good s'"
begin

lemma run_good: "good s \<Longrightarrow> fair_run react fair es s \<Longrightarrow> \<exists>s'. run_events react es s = Inr s' \<and> good s'"
proof (induction es arbitrary: s)
  case Nil
  then show ?case by simp
next
  case (Cons e es)
  from Cons.prems step_good [of s e] obtain s1 where s1: "react s e = Inr s1" "good s1" by auto
  with Cons.prems(2) have "fair_run react fair es s1" by simp
  with Cons.IH [OF s1(2)] s1(1) show ?case by simp
qed

end

end
