(* ===== verification/System.thy ===== *)
theory System
  imports Ethernet Reactive
begin

text \<open>
  The running router: its global state, the receive buffer of each interface, and the events
  it reacts to, each handled by the code of the other theories.  A handler runs as one step;
  their interleaving is the subject of \<open>Threads\<close>.
\<close>

section \<open>The router as a reactive system\<close>

text \<open>
  \<open>handled\<close> is a ghost: the buffers handled so far with their interfaces, oldest first.
\<close>

record system =
  core :: router
  rx :: "buf list"
  handled :: "(nat \<times> buf) list"

text \<open>
  A frame (or a failed read) on an interface; the expiry of the timer; the passing of time on
  the running timer, down to what is then left of it.
\<close>

datatype event = Frame nat "buf option" | Expire | Elapse "nat \<times> nat"

definition less_left :: "nat \<times> nat \<Rightarrow> nat \<times> nat \<Rightarrow> bool" where
  "less_left left cur \<longleftrightarrow>
     left \<noteq> (0, 0) \<and> (fst left < fst cur \<or> fst left = fst cur \<and> snd left \<le> snd cur)"

fun react :: "system \<Rightarrow> event \<Rightarrow> system res" where
  "react s (Frame int_id incoming) =
     (if int_id < length (rx s) then
        let b = read_into (rx s ! int_id) incoming in
        ebind (receive (core s) (rx s ! int_id) incoming int_id) (\<lambda>(r, b').
          Inr (s\<lparr>core := r, rx := (rx s)[int_id := b'], handled := handled s @ [(int_id, b)]\<rparr>))
      else Inr s)"
| "react s Expire =
     (if timer_left (core s) = (0, 0) then Inr s
      else ebind (timer_handler ((core s)\<lparr>timer_left := (0, 0)\<rparr>)) (\<lambda>r. Inr (s\<lparr>core := r\<rparr>)))"
| "react s (Elapse left) =
     (if less_left left (timer_left (core s)) then Inr (s\<lparr>core := (core s)\<lparr>timer_left := left\<rparr>\<rparr>)
      else Inr s)"

text \<open>
  The state when the receiving threads start: empty tables, fresh buffers (their bytes are
  whatever \<open>malloc\<close> left there, a parameter), any sequence of random numbers.
\<close>

definition start_router :: "(nat \<Rightarrow> nat) \<Rightarrow> router" where
  "start_router rands =
     napt_init (router_at_start (hashmap_init hashmap_cyclic_hash 9 24) (hashmap_init hashmap_cyclic_hash 7 24) rands)"

definition start_system :: "(nat \<Rightarrow> nat) \<Rightarrow> buf \<Rightarrow> buf \<Rightarrow> system" where
  "start_system rands buf0 buf1 =
     \<lparr>core = start_router rands, rx = [buf0, buf1], handled = []\<rparr>"

section \<open>Connections in the table stem from packets of the LAN\<close>

definition asked_for :: "napt_extern_key \<Rightarrow> napt_entry \<Rightarrow> buf \<Rightarrow> bool" where
  "asked_for k e pkt \<longleftrightarrow>
     ip_src pkt = lan_ip e \<and> tpt_src pkt = lan_port e \<and> ip_dst pkt = ek_ip_dst k \<and>
     tpt_dst pkt = ek_port_dst k \<and> ip_proto pkt = ek_protocol k"

definition asked :: "(nat \<times> buf) list \<Rightarrow> napt_extern_key \<Rightarrow> napt_entry \<Rightarrow> bool" where
  "asked hs k e \<longleftrightarrow>
     (\<exists>b. (0, b) \<in> set hs \<and> frame_type b = ETHERTYPE_IPV4 \<and> asked_for k e (drop 14 b))"

definition tables_ok :: "router \<Rightarrow> bool" where
  "tables_ok r \<longleftrightarrow> configured (interface_arr r) \<and> extern_ok r \<and> table_ok 7 (napt_intern_hashmap r)"

definition fw_sound :: "system \<Rightarrow> bool" where
  "fw_sound s \<longleftrightarrow> tables_ok (core s) \<and>
     (\<forall>k e. ek_protocol k \<noteq> 0 \<longrightarrow> extern_map (core s) k = Some e \<longrightarrow> asked (handled s) k e)"

text \<open>What leaves the tables and the configuration alone.\<close>

definition same_tables :: "router \<Rightarrow> router \<Rightarrow> bool" where
  "same_tables r r' \<longleftrightarrow>
     interface_arr r' = interface_arr r \<and> napt_extern_hashmap r' = napt_extern_hashmap r \<and>
     napt_intern_hashmap r' = napt_intern_hashmap r"

lemma same_tables_trans: "same_tables r r1 \<Longrightarrow> same_tables r1 r2 \<Longrightarrow> same_tables r r2"
  by (simp add: same_tables_def)

lemma same_tables_keep:
  assumes "same_tables r r'"
  shows "extern_map r' = extern_map r" "tables_ok r' = tables_ok r"
  using assms by (simp_all add: same_tables_def extern_map_def tables_ok_def extern_ok_def)

named_theorems keeps_tables \<open>completed calls that leave the translation tables alone\<close>

lemma send_arp_keeps [keeps_tables]: "send_arp r a i = Inr r' \<Longrightarrow> same_tables r r'"
  by (auto simp: send_arp_def write_frame_def ebind_Inr_iff same_tables_def split: if_splits)

lemma timer_add_keeps [keeps_tables]: "timer_add_packet r pkt i dst = Inr r' \<Longrightarrow> same_tables r r'"
  by (auto simp: timer_add_packet_def lock_timer_def unlock_timer_def ebind_Inr_iff Let_def same_tables_def
      split: option.splits if_splits prod.splits dest!: send_arp_keeps)

lemma send_ipv4_keeps [keeps_tables]: "send_ipv4 r pkt = Inr (r', q) \<Longrightarrow> same_tables r r'"
  unfolding send_ipv4_def Let_def
  by (auto simp: write_frame_def same_tables_def split: if_splits elim!: ebind_InrE dest!: timer_add_keeps)

lemma send_packets_keeps [keeps_tables]: "send_packets pkts r = Inr r' \<Longrightarrow> same_tables r r'"
proof (induction pkts arbitrary: r)
  case Nil
  then show ?case by (simp add: same_tables_def)
next
  case (Cons p ps)
  then obtain r1 q where "send_ipv4 r p = Inr (r1, q)" "send_packets ps r1 = Inr r'"
    by (auto simp: ebind_Inr_iff)
  with Cons.IH send_ipv4_keeps show ?case by (blast intro: same_tables_trans)
qed

lemma learn_keeps [keeps_tables]: "learn r ip mac = Inr r' \<Longrightarrow> same_tables r r'"
  by (auto simp: learn_def ebind_Inr_iff same_tables_def)

lemma timer_update_keeps [keeps_tables]: "timer_update_packets r dst = Inr r' \<Longrightarrow> same_tables r r'"
  by (auto simp: timer_update_packets_def lock_timer_def unlock_timer_def ebind_Inr_iff same_tables_def
      split: option.splits prod.splits dest!: send_packets_keeps)

lemma arp_handle_keeps [keeps_tables]: "arp_handle r pkt i = Inr r' \<Longrightarrow> same_tables r r'"
  by (auto simp: arp_handle_def ebind_Inr_iff split: if_splits
      dest!: learn_keeps timer_update_keeps intro: same_tables_trans) (simp_all add: same_tables_def)

lemma handler_step_keeps [keeps_tables]: "handler_step r = Inr r' \<Longrightarrow> same_tables r r'"
  by (auto simp: handler_step_def ebind_Inr_iff Let_def same_tables_def
      split: list.splits if_splits dest!: send_arp_keeps)

lemma handler_loop_keeps [keeps_tables]: "handler_loop r = Inr r' \<Longrightarrow> same_tables r r'"
proof (induction r rule: handler_loop.induct)
  case (1 r)
  show ?case
  proof (cases "delta_list r \<noteq> [] \<and> msec (hd (delta_list r)) = 0")
    case True
    with "1.prems" obtain r1 where r1: "handler_step r = Inr r1" "handler_loop r1 = Inr r'"
      by (subst (asm) handler_loop.simps) (auto simp: ebind_Inr_iff)
    with "1.IH" [OF True r1(1)] handler_step_keeps show ?thesis by (blast intro: same_tables_trans)
  next
    case False
    with "1.prems" show ?thesis by (subst (asm) handler_loop.simps) (auto simp: same_tables_def)
  qed
qed

lemma timer_handler_keeps [keeps_tables]:
  assumes "timer_handler r = Inr r'"
  shows "same_tables r r'"
proof -
  from assms obtain r1 where r1: "lock_timer r = Inr r1"
      "(case delta_list r1 of [] \<Rightarrow> Inr (unlock_timer r1)
        | n # ns \<Rightarrow> ebind (handler_loop (r1\<lparr>delta_list := n\<lparr>msec := 0\<rparr> # ns\<rparr>)) (\<lambda>r1. Inr (unlock_timer (arm_timer r1)))) = Inr r'"
    unfolding timer_handler_def by (rule ebind_InrE)
  have "same_tables r r1" using r1(1) by (auto simp: lock_timer_def ebind_Inr_iff same_tables_def)
  moreover have "same_tables r1 r'"
  proof (cases "delta_list r1")
    case Nil
    with r1(2) show ?thesis by (auto simp: unlock_timer_def same_tables_def)
  next
    case (Cons n ns)
    with r1(2) obtain r2 where r2: "handler_loop (r1\<lparr>delta_list := n\<lparr>msec := 0\<rparr> # ns\<rparr>) = Inr r2"
        "r' = unlock_timer (arm_timer r2)" by (auto simp: ebind_Inr_iff)
    from handler_loop_keeps [OF r2(1)] r2(2) show ?thesis
      by (simp add: same_tables_def unlock_timer_def arm_timer_def)
  qed
  ultimately show ?thesis by (rule same_tables_trans)
qed

section \<open>What translation adds to the table\<close>

text \<open>\<open>grown P r r'\<close>: the extern table has no new entries of a real protocol but those in \<open>P\<close>.\<close>

definition grown :: "(napt_extern_key \<Rightarrow> napt_entry \<Rightarrow> bool) \<Rightarrow> router \<Rightarrow> router \<Rightarrow> bool" where
  "grown P r r' \<longleftrightarrow> tables_ok r' \<and>
     (\<forall>k e. ek_protocol k \<noteq> 0 \<longrightarrow> extern_map r' k = Some e \<longrightarrow> extern_map r k = Some e \<or> P k e)"

lemma grown_same: "tables_ok r \<Longrightarrow> same_tables r r' \<Longrightarrow> grown P r r'"
  by (simp add: grown_def same_tables_keep)

lemma grown_then_same: "grown P r r1 \<Longrightarrow> same_tables r1 r' \<Longrightarrow> grown P r r'"
  by (simp add: grown_def same_tables_keep)

lemma same_then_grown: "same_tables r r1 \<Longrightarrow> grown P r1 r' \<Longrightarrow> grown P r r'"
  by (simp add: grown_def same_tables_keep)

lemma grown_mono: "grown P r r' \<Longrightarrow> (\<And>k e. P k e \<Longrightarrow> Q k e) \<Longrightarrow> grown Q r r'"
  unfolding grown_def by blast

lemma base_below_map:
  "ek_protocol k \<noteq> 0 \<Longrightarrow> extern_base r k = Some e \<Longrightarrow> extern_map r k = Some e"
  unfolding extern_base_def extern_map_def
  by (cases "hm_size (napt_extern_hashmap r) < size_allocated (napt_extern_hashmap r) div 2")
    (simp_all add: napt_base_room napt_base_full)

lemma napt_public_port_grows:
  assumes "tables_ok r" and "ik_protocol ikey \<noteq> 0"
    and res: "napt_public_port r ikey dst_addr port_dst pub_ip = Inr (r', port)"
  shows "grown (\<lambda>k e. \<exists>p. k = extern_key_of ikey dst_addr port_dst p \<and>
      e = new_entry ikey dst_addr port_dst pub_ip p) r r'"
proof -
  have "\<not> held (hm_lock (napt_intern_hashmap r))"
    using res by (auto simp: napt_public_port_def lock_intern_def hashmap_lock_def ebind_Inr_iff mutex_lock_Inr_iff)
  then have ok: "napt_ok r" and conf: "configured (interface_arr r)"
    using assms(1) by (simp_all add: tables_ok_def extern_ok_def napt_ok_def)
  have *: "tables_ok r1" if "napt_only r r1" "napt_ok r1" for r1
    using that conf napt_only_simps(1) [OF that(1)] by (simp add: tables_ok_def extern_ok_def napt_ok_def)
  show ?thesis
  proof (cases "intern_map r ikey")
    case (Some e)
    from napt_public_port_known [OF ok Some, of dst_addr port_dst pub_ip] res * show ?thesis
      by (auto simp: grown_def)
  next
    case None
    show ?thesis
    proof (cases "find (is_free r ikey dst_addr port_dst) (next_ports r 10)")
      case no: None
      from napt_public_port_exhausted [OF ok None assms(2) no, of pub_ip] res conf napt_only_simps(1) show ?thesis
        by (fastforce simp: grown_def tables_ok_def)
    next
      case (Some p)
      from napt_public_port_new [OF ok None assms(2) Some, of pub_ip] res have
        r': "napt_only r r'" "napt_ok r'" "extern_map r' =
          (extern_base r)(extern_key_of ikey dst_addr port_dst p \<mapsto> new_entry ikey dst_addr port_dst pub_ip p)"
        by auto
      with * base_below_map show ?thesis by (auto simp: grown_def split: if_splits)
    qed
  qed
qed

lemma header_len_result: "header_len pkt = Inr tp \<Longrightarrow> tp = hlen pkt"
  by (auto simp: header_len_def hlen_def ebind_Inr_iff rd8_Inr_iff)

lemma napt_out_handle_result:
  assumes res: "napt_out_handle r pkt = Inr (r', q)" and proto: "ip_proto pkt = 6 \<or> ip_proto pkt = 17"
  shows "\<exists>pub_ip r1 port.
    napt_public_port r (flow_key pkt) (ip_dst pkt) (tpt_dst pkt) pub_ip = Inr (r1, port) \<and>
    (port = None \<and> r' = r1 \<or> (\<exists>pkt2. send_ipv4 r1 pkt2 = Inr (r', q)))"
proof -
  have len: "20 \<le> length pkt"
    using res by (auto simp: napt_out_handle_def ebind_Inr_iff rd_ip_Inr_iff)
  then obtain tp where "header_len pkt = Inr tp"
    using res by (auto simp: napt_out_handle_def ebind_Inr_iff)
  then have reads: "rd_ip pkt 12 = Inr (ip_src pkt)" "rd_ip pkt 16 = Inr (ip_dst pkt)"
    "header_len pkt = Inr (hlen pkt)" "rd8 pkt 9 = Inr (ip_proto pkt)"
    using len by (simp_all add: rd_ip_ok rd8_ok ip_src_def ip_dst_def ip_proto_def header_len_result)
  have res': "ebind (rd16 pkt (hlen pkt)) (\<lambda>psrc. ebind (rd16 pkt (hlen pkt + 2)) (\<lambda>pdst.
      ebind (interface_get_ip (interface_arr r) interface_get_wan_id) (\<lambda>pub_ip.
      ebind (napt_public_port r \<lparr>ik_ip_src = ip_src pkt, ik_port_src = to_port psrc, ik_protocol = ip_proto pkt\<rparr>
               (ip_dst pkt) (to_port pdst) pub_ip) (\<lambda>(r1, port).
        case port of None \<Rightarrow> Inr (r1, pkt)
        | Some new_port_src \<Rightarrow> ebind (wr_ip pkt 12 pub_ip) (\<lambda>pkt1.
            ebind (wr16 pkt1 (hlen pkt) (from_port new_port_src)) (\<lambda>pkt2. send_ipv4 r1 pkt2)))))) = Inr (r', q)"
    using res proto by (auto simp: napt_out_handle_def reads)
  then obtain psrc pdst pub_ip r1 port where
    p: "rd16 pkt (hlen pkt) = Inr psrc" "rd16 pkt (hlen pkt + 2) = Inr pdst"
      "napt_public_port r \<lparr>ik_ip_src = ip_src pkt, ik_port_src = to_port psrc, ik_protocol = ip_proto pkt\<rparr>
               (ip_dst pkt) (to_port pdst) pub_ip = Inr (r1, port)"
    and rest: "(case port of None \<Rightarrow> Inr (r1, pkt)
        | Some new_port_src \<Rightarrow> ebind (wr_ip pkt 12 pub_ip) (\<lambda>pkt1.
            ebind (wr16 pkt1 (hlen pkt) (from_port new_port_src)) (\<lambda>pkt2. send_ipv4 r1 pkt2))) = Inr (r', q)"
    by (elim ebind_InrE) (simp split: prod.splits)
  have "to_port psrc = tpt_src pkt" "to_port pdst = tpt_dst pkt"
    using p(1,2) by (simp_all add: rd16_Inr_iff tpt_src_def tpt_dst_def)
  with p(3) have "napt_public_port r (flow_key pkt) (ip_dst pkt) (tpt_dst pkt) pub_ip = Inr (r1, port)"
    by (simp add: flow_key_def)
  moreover have "port = None \<and> r' = r1 \<or> (\<exists>pkt2. send_ipv4 r1 pkt2 = Inr (r', q))"
    using rest by (cases port) (auto simp: ebind_Inr_iff)
  ultimately show ?thesis by blast
qed

lemma napt_out_grows:
  assumes "tables_ok r" and res: "napt_out_handle r pkt = Inr (r', q)"
  shows "grown (\<lambda>k e. asked_for k e pkt) r r'"
proof (cases "ip_proto pkt = 6 \<or> ip_proto pkt = 17")
  case False
  with res have "r' = r"
    by (auto simp: napt_out_handle_def ebind_Inr_iff rd8_Inr_iff ip_proto_def split: if_splits)
  with assms(1) show ?thesis by (simp add: grown_def)
next
  case True
  from napt_out_handle_result [OF res True] obtain pub_ip r1 port where
    r1: "napt_public_port r (flow_key pkt) (ip_dst pkt) (tpt_dst pkt) pub_ip = Inr (r1, port)"
      "port = None \<and> r' = r1 \<or> (\<exists>pkt2. send_ipv4 r1 pkt2 = Inr (r', q))" by blast
  have "ik_protocol (flow_key pkt) \<noteq> 0" using True by (auto simp: flow_key_def)
  from napt_public_port_grows [OF assms(1) this r1(1)] have "grown (\<lambda>k e. asked_for k e pkt) r r1"
    by (rule grown_mono) (auto simp: asked_for_def extern_key_of_def new_entry_def flow_key_def)
  with r1(2) send_ipv4_keeps show ?thesis by (blast intro: grown_then_same)
qed

lemma hashmap_get_lock: "hashmap_get h key = Inr (h', p) \<Longrightarrow> h' = h \<or> h' = hashmap_unlock h"
  by (auto simp: hashmap_get_def ebind_Inr_iff split: option.splits)

lemma napt_inc_grows:
  assumes "tables_ok r" and res: "napt_inc_handle r pkt = Inr (r', q)"
  shows "grown (\<lambda>k e. False) r r'"
proof -
  have unlocked: "tables_ok (r\<lparr>napt_extern_hashmap := h\<rparr>)" "extern_map (r\<lparr>napt_extern_hashmap := h\<rparr>) = extern_map r"
    if "h = hashmap_unlock h1" "h1 = h2 \<or> h1 = hashmap_unlock h2"
      "h2 = (napt_extern_hashmap r)\<lparr>hm_lock := m\<rparr>" for h h1 h2 m
    using that assms(1) by (auto simp: tables_ok_def extern_ok_def extern_map_def)
  from res consider "r' = r" | h h1 h2 m pkt2 where "h = hashmap_unlock h1" "h1 = h2 \<or> h1 = hashmap_unlock h2"
      "h2 = (napt_extern_hashmap r)\<lparr>hm_lock := m\<rparr>"
      "r' = r\<lparr>napt_extern_hashmap := h\<rparr> \<or> send_ipv4 (r\<lparr>napt_extern_hashmap := h\<rparr>) pkt2 = Inr (r', q)"
    by (auto simp: napt_inc_handle_def lock_extern_def hashmap_lock_def unlock_extern_def ebind_Inr_iff Let_def
        split: if_splits option.splits dest!: hashmap_get_lock) metis+
  then show ?thesis
  proof cases
    case 1
    with assms(1) show ?thesis by (simp add: grown_def)
  next
    case 2
    have "grown (\<lambda>k e. False) r (r\<lparr>napt_extern_hashmap := h\<rparr>)"
      using unlocked [OF 2(1-3)] by (simp add: grown_def)
    with 2(4) show ?thesis by (blast intro: grown_then_same send_ipv4_keeps)
  qed
qed

lemma ipv4_handle_grows:
  assumes "tables_ok r" and res: "ipv4_handle r pkt int_id = Inr (r', q)"
  shows "grown (\<lambda>k e. int_id = 0 \<and> asked_for k e pkt) r r'"
proof -
  have len: "int_id < 2" if "interface_get_side (interface_arr r) int_id = Inr s" for s
    using that assms(1) configured_length [of "interface_arr r"]
    by (auto simp: tables_ok_def interface_get_side_def interface_get_config_def split: if_splits)
  have side1: "interface_get_side (interface_arr r) 1 = Inr INT_SIDE_WAN"
    using assms(1) interface_side_configured by (simp add: tables_ok_def)
  from res consider "r' = r" | "napt_inc_handle r pkt = Inr (r', q)" | "send_ipv4 r pkt = Inr (r', q)"
    | "napt_out_handle r pkt = Inr (r', q)" "int_id = 0"
    using side1 len
    by (auto simp: ipv4_handle_def ebind_Inr_iff less_2_cases_iff split: if_splits)
  then show ?thesis
  proof cases
    case 1
    with assms(1) show ?thesis by (simp add: grown_def)
  next
    case 2
    from napt_inc_grows [OF assms(1) 2] show ?thesis by (rule grown_mono) simp
  next
    case 3
    from grown_same [OF assms(1) send_ipv4_keeps [OF 3]] show ?thesis .
  next
    case 4
    from napt_out_grows [OF assms(1) 4(1)] show ?thesis by (rule grown_mono) (use 4(2) in simp)
  qed
qed

lemma ethernet_handle_grows:
  assumes "tables_ok r" and res: "ethernet_handle r frame int_id = Inr (r', frame')"
  shows "grown (\<lambda>k e. int_id = 0 \<and> frame_type frame = ETHERTYPE_IPV4 \<and> asked_for k e (drop 14 frame)) r r'"
proof -
  from res consider "r' = r" | a where "arp_handle r a int_id = Inr r'"
    | ip mac r1 pkt where "frame_type frame = ETHERTYPE_IPV4" "learn r ip mac = Inr r1"
        "ipv4_handle r1 (drop 14 frame) int_id = Inr (r', pkt)"
    by (auto simp: ethernet_handle_def ebind_Inr_iff Let_def frame_type_def rd16_Inr_iff eval_nat_numeral
        split: if_splits)
  then show ?thesis
  proof cases
    case 1
    with assms(1) show ?thesis by (simp add: grown_def)
  next
    case 2
    from grown_same [OF assms(1) arp_handle_keeps [OF 2]] show ?thesis .
  next
    case 3
    have "tables_ok r1" using assms(1) same_tables_keep(2) [OF learn_keeps [OF 3(2)]] by simp
    from same_then_grown [OF learn_keeps [OF 3(2)] ipv4_handle_grows [OF this 3(3)]] show ?thesis
      by (rule grown_mono) (use 3(1) in simp)
  qed
qed

lemma fw_sound_step:
  assumes "fw_sound s" and "react s ev = Inr s'"
  shows "fw_sound s'"
proof -
  have ok: "tables_ok (core s)"
    and old: "\<And>k e. ek_protocol k \<noteq> 0 \<Longrightarrow> extern_map (core s) k = Some e \<Longrightarrow> asked (handled s) k e"
    using assms(1) by (auto simp: fw_sound_def)
  have more: "asked hs k e \<Longrightarrow> asked (hs @ hs') k e" for hs hs' k e by (auto simp: asked_def)
  show ?thesis
  proof (cases ev)
    case (Frame i inc)
    show ?thesis
    proof (cases "i < length (rx s)")
      case False
      with assms Frame show ?thesis by simp
    next
      case True
      let ?b = "read_into (rx s ! i) inc"
      from assms(2) Frame True obtain r b' where
        r: "ethernet_handle (core s) ?b i = Inr (r, b')"
          "s' = s\<lparr>core := r, rx := (rx s)[i := b'], handled := handled s @ [(i, ?b)]\<rparr>"
        by (auto simp: receive_def ebind_Inr_iff Let_def)
      note g = ethernet_handle_grows [OF ok r(1)]
      have "asked (handled s @ [(i, ?b)]) k e"
        if k: "ek_protocol k \<noteq> 0" "extern_map r k = Some e" for k e
      proof -
        from g k have "extern_map (core s) k = Some e \<or>
            i = 0 \<and> frame_type ?b = ETHERTYPE_IPV4 \<and> asked_for k e (drop 14 ?b)"
          unfolding grown_def by blast
        then show ?thesis
        proof
          assume "extern_map (core s) k = Some e"
          from more [OF old [OF k(1) this]] show ?thesis .
        next
          assume "i = 0 \<and> frame_type ?b = ETHERTYPE_IPV4 \<and> asked_for k e (drop 14 ?b)"
          then show ?thesis unfolding asked_def by auto
        qed
      qed
      with g show ?thesis unfolding r(2) by (simp add: fw_sound_def grown_def)
    qed
  next
    case Expire
    show ?thesis
    proof (cases "timer_left (core s) = (0, 0)")
      case True
      with assms Expire show ?thesis by simp
    next
      case False
      with assms(2) Expire have "ebind (timer_handler ((core s)\<lparr>timer_left := (0, 0)\<rparr>))
          (\<lambda>r. Inr (s\<lparr>core := r\<rparr>)) = (Inr s' :: system res)" by simp
      then obtain r where r: "timer_handler ((core s)\<lparr>timer_left := (0, 0)\<rparr>) = Inr r" "Inr (s\<lparr>core := r\<rparr>) = (Inr s' :: system res)"
        by (rule ebind_InrE)
      then have core': "core s' = r" "handled s' = handled s" by auto
      have "same_tables (core s) r"
        using timer_handler_keeps [OF r(1)] by (simp add: same_tables_def)
      note keep = same_tables_keep [OF this]
      show ?thesis unfolding fw_sound_def core' keep using ok old by blast
    qed
  next
    case (Elapse left)
    have "same_tables (core s) ((core s)\<lparr>timer_left := left\<rparr>)" by (simp add: same_tables_def)
    note keep = same_tables_keep [OF this]
    show ?thesis
    proof (cases "less_left left (timer_left (core s))")
      case True
      with assms(2) Elapse have "s' = s\<lparr>core := (core s)\<lparr>timer_left := left\<rparr>\<rparr>" by simp
      then have core': "core s' = (core s)\<lparr>timer_left := left\<rparr>" "handled s' = handled s" by simp_all
      show ?thesis unfolding fw_sound_def core' keep using ok old by blast
    next
      case False
      with assms Elapse show ?thesis by simp
    qed
  qed
qed

interpretation firewall: safe_system react fw_sound
  by unfold_locales (rule fw_sound_step)

text \<open>
  From the start: a packet from the WAN leaves the router as it is, or the LAN has sent a
  packet of the same connection before and the packet is handed on to its sender.
\<close>

lemma start_router_ok: "router_ok (start_router rands)" "extern_map (start_router rands) = Map.empty"
  "intern_map (start_router rands) = Map.empty" "timer_left (start_router rands) = (0, 0)"
  "delta_list (start_router rands) = []" "wan (start_router rands) = init_wan"
proof -
  have same: "interface_arr (napt_init r) = interface_arr r" "macs (napt_init r) = macs r"
    "delta_list (napt_init r) = delta_list r" "timer_mutex (napt_init r) = timer_mutex r"
    "timer_left (napt_init r) = timer_left r" "wan (napt_init r) = wan r" for r
    by (simp_all add: napt_init_def)
  show "router_ok (start_router rands)"
    using napt_init_ok(1) by (simp add: start_router_def router_ok_def timer_inv_def same)
      (simp add: router_at_start_def delta_ok_def)
  show "extern_map (start_router rands) = Map.empty" "intern_map (start_router rands) = Map.empty"
    unfolding start_router_def by (rule napt_init_ok)+
  show "timer_left (start_router rands) = (0, 0)" "delta_list (start_router rands) = []"
    "wan (start_router rands) = init_wan"
    by (simp_all add: start_router_def same) (simp_all add: router_at_start_def)
qed

lemma start_sound: "fw_sound (start_system rands b0 b1)"
  using start_router_ok(1,2)
  by (simp add: fw_sound_def start_system_def tables_ok_def router_ok_def napt_ok_def extern_ok_def)

lemma firewall_run:
  assumes "fw_sound s0" and run: "run_events react es s0 = Inr s" and t: "translatable pkt"
  shows "ipv4_handle (core s) pkt 1 = Inr (core s, pkt) \<or>
    (\<exists>b. (0, b) \<in> set (handled s) \<and> frame_type b = ETHERTYPE_IPV4 \<and>
      ip_dst (drop 14 b) = ip_src pkt \<and> tpt_dst (drop 14 b) = tpt_src pkt \<and>
      ip_proto (drop 14 b) = ip_proto pkt \<and>
      ipv4_handle (core s) pkt 1 =
        send_ipv4 (after_hit (core s)) (translate_in (ip_src (drop 14 b)) (tpt_src (drop 14 b)) pkt))"
proof -
  have sound: "fw_sound s" using firewall.run_sound [OF assms(1) run] .
  then have ok: "tables_ok (core s)" by (simp add: fw_sound_def)
  have proto: "ek_protocol (reply_key pkt) \<noteq> 0" using t by (auto simp: reply_key_def translatable_def)
  have len: "20 \<le> length pkt" using t wf_pkt_length by (simp add: translatable_def)
  from ok have conf: "configured (interface_arr (core s))" and eok: "extern_ok (core s)"
    by (simp_all add: tables_ok_def)
  note wan = ipv4_handle_wan [OF conf len] and inc = napt_inc_handle_extern [OF t eok]
  show ?thesis
  proof (cases "extern_map (core s) (reply_key pkt)")
    case None
    then have "ipv4_handle (core s) pkt 1 = Inr (core s, pkt)" unfolding wan inc by simp
    then show ?thesis ..
  next
    case (Some e)
    then have handed: "ipv4_handle (core s) pkt 1 = Inr (core s, pkt) \<or>
        ipv4_handle (core s) pkt 1 = send_ipv4 (after_hit (core s)) (translate_in (lan_ip e) (lan_port e) pkt)"
      unfolding wan inc by simp
    from Some sound proto obtain b where b: "(0, b) \<in> set (handled s)" "frame_type b = ETHERTYPE_IPV4"
        "asked_for (reply_key pkt) e (drop 14 b)"
      by (auto simp: fw_sound_def asked_def)
    then have "ip_dst (drop 14 b) = ip_src pkt" "tpt_dst (drop 14 b) = tpt_src pkt"
      "ip_proto (drop 14 b) = ip_proto pkt" "lan_ip e = ip_src (drop 14 b)" "lan_port e = tpt_src (drop 14 b)"
      by (simp_all add: asked_for_def reply_key_def)
    with handed b(1,2) show ?thesis by metis
  qed
qed

end
