(* ===== verification/Clean_Runs.thy ===== *)
theory Clean_Runs
  imports System
begin

text \<open>
  Runs without faults: which frames the router handles to the end whatever else happens, and
  that a run of such frames, of expiries and of passing time never faults, blocks or loops.
\<close>

section \<open>Packets that can be queued\<close>

text \<open>
  \<open>send_ipv4\<close> may copy the packet into a block of exactly its total length and process the
  copy again later, so everything the checksum code touches must lie within that length.
\<close>

definition sealed :: "buf \<Rightarrow> bool" where
  "sealed pkt \<longleftrightarrow> wf_pkt pkt \<and> transport_ok (take (total_len pkt) pkt)"

lemma take_fields:
  assumes "wf_pkt pkt"
  shows "hlen (take (total_len pkt) pkt) = hlen pkt" "total_len (take (total_len pkt) pkt) = total_len pkt"
    "ip_proto (take (total_len pkt) pkt) = ip_proto pkt" "ip_dst (take (total_len pkt) pkt) = ip_dst pkt"
    "wf_pkt (take (total_len pkt) pkt)" "length (take (total_len pkt) pkt) = total_len pkt"
proof -
  have len: "20 \<le> total_len pkt" "total_len pkt \<le> length pkt" using assms by (auto simp: wf_pkt_def)
  then show same: "hlen (take (total_len pkt) pkt) = hlen pkt"
      "total_len (take (total_len pkt) pkt) = total_len pkt" "length (take (total_len pkt) pkt) = total_len pkt"
    and "ip_proto (take (total_len pkt) pkt) = ip_proto pkt" "ip_dst (take (total_len pkt) pkt) = ip_dst pkt"
    by (simp_all add: hlen_def ip_proto_def ip_dst_def ip_at_def)
      (simp add: total_len_def)
  then show "wf_pkt (take (total_len pkt) pkt)" using assms by (simp add: wf_pkt_def)
qed

lemma take_udp:
  assumes "wf_pkt pkt" and "hlen pkt + 8 \<le> total_len pkt"
  shows "udp_len (take (total_len pkt) pkt) = udp_len pkt" "udp_cksum (take (total_len pkt) pkt) = udp_cksum pkt"
  using assms by (simp_all add: udp_len_def udp_cksum_def take_fields)

lemma sealed_iff:
  "sealed pkt \<longleftrightarrow> wf_pkt pkt \<and>
     (ip_proto pkt = 17 \<longrightarrow> hlen pkt + 8 \<le> total_len pkt \<and>
        (udp_cksum pkt \<noteq> 0 \<longrightarrow> 8 \<le> udp_len pkt \<and> hlen pkt + udp_len pkt + udp_len pkt mod 2 \<le> total_len pkt)) \<and>
     (ip_proto pkt = 6 \<longrightarrow> 18 \<le> tcp_len pkt \<and> even (tcp_len pkt))"
proof (cases "wf_pkt pkt")
  case True
  have tcp: "tcp_len (take (total_len pkt) pkt) = tcp_len pkt" using True by (simp add: tcp_len_def take_fields)
  have "hlen pkt + tcp_len pkt + tcp_len pkt mod 2 \<le> total_len pkt \<longleftrightarrow> even (tcp_len pkt)"
    if "18 \<le> tcp_len pkt" using that True by (auto simp: tcp_len_def wf_pkt_def)
  moreover have "total_len pkt \<le> length pkt" using True by (simp add: wf_pkt_def)
  ultimately show ?thesis
    using True tcp take_udp [OF True]
    by (auto simp: sealed_def transport_ok_def segment_fits_def take_fields)
qed (simp add: sealed_def)

lemma sealed_ok:
  assumes "sealed pkt"
  shows "wf_pkt pkt" "transport_ok pkt" "ip_proto pkt = 6 \<or> ip_proto pkt = 17 \<Longrightarrow> translatable pkt"
proof -
  show wf: "wf_pkt pkt" using assms by (simp add: sealed_def)
  then have len: "total_len pkt \<le> length pkt" by (simp add: wf_pkt_def)
  have "hlen pkt + tcp_len pkt + tcp_len pkt mod 2 \<le> length pkt" if "even (tcp_len pkt)"
    using that wf by (auto simp: tcp_len_def wf_pkt_def)
  with assms len show "transport_ok pkt"
    by (auto simp: sealed_iff transport_ok_def segment_fits_def)
  show "translatable pkt" if "ip_proto pkt = 6 \<or> ip_proto pkt = 17"
    using that assms len wf by (auto simp: sealed_iff translatable_def tcp_len_def)
qed

lemma sealed_same:
  assumes "sealed p" and "wf_pkt q" and "hlen q = hlen p" "total_len q = total_len p" "ip_proto q = ip_proto p"
    and "ip_proto p = 17 \<Longrightarrow> udp_cksum q = 0 \<longleftrightarrow> udp_cksum p = 0"
    and "ip_proto p = 17 \<Longrightarrow> udp_cksum p \<noteq> 0 \<Longrightarrow> udp_len q = udp_len p"
  shows "sealed q"
  using assms by (auto simp: sealed_iff tcp_len_def)

lemma sealed_with_checksums:
  assumes "sealed p"
  shows "sealed (with_checksums p)"
proof -
  note ok = sealed_ok(1,2) [OF assms]
  from fill_checksums_spec [OF ok] obtain q where
    q: "fill_checksums p = Inr q" "same_header p q" "\<forall>i. i \<notin> checksum_bytes p \<longrightarrow> q ! i = p ! i"
      "ip_proto p = 17 \<longrightarrow> (udp_cksum q = 0 \<longleftrightarrow> udp_cksum p = 0)" by blast
  note f = same_header_fields [OF q(2)]
  have "udp_len q = udp_len p" if "ip_proto p = 17" "udp_cksum p \<noteq> 0"
  proof -
    have "20 \<le> hlen p" "8 \<le> udp_len p" using assms that by (auto simp: sealed_iff wf_pkt_def)
    then have "hlen p + 4 \<notin> checksum_bytes p" "hlen p + 5 \<notin> checksum_bytes p"
      using that by (auto simp: checksum_bytes_def)
    with q(3) f(1) show ?thesis by (simp add: udp_len_def)
  qed
  then have "sealed q" using q(4) f(1-4) ok(1) by (intro sealed_same [OF assms]) auto
  then show ?thesis using q(1) by (simp add: with_checksums_def)
qed

lemma sealed_translate:
  assumes "sealed p" and t: "translatable p"
  shows "sealed (translate_out ip port p)" and "sealed (translate_in ip port p)"
proof -
  have u: "hlen p + 8 \<le> length p" "20 \<le> hlen p" if "ip_proto p = 17"
    using assms(1) that by (auto simp: sealed_iff wf_pkt_def)
  note out = translate_out_nth(2) [OF t, of _ ip port] and inc = translate_in_nth(2) [OF t, of _ ip port]
  show "sealed (translate_out ip port p)"
    by (rule sealed_same [OF assms(1)])
      (use u out translate_out_fields [OF t, of ip port] in \<open>simp_all add: udp_len_def udp_cksum_def\<close>)
  show "sealed (translate_in ip port p)"
    by (rule sealed_same [OF assms(1)])
      (use u inc translate_in_fields [OF t, of ip port] in \<open>simp_all add: udp_len_def udp_cksum_def\<close>)
qed

section \<open>The queues stay processable\<close>

text \<open>\<open>clean r\<close>: the handlers' invariants and queues that can be sent.\<close>

definition clean :: "router \<Rightarrow> bool" where
  "clean r \<longleftrightarrow> router_ok r \<and> queue_ready r"

lemma ready_copy:
  assumes "sealed p"
  shows "ready_for w (next_hop w (ip_dst p)) (take (total_len p) (with_checksums p))"
proof -
  let ?q = "with_checksums p"
  have q: "sealed ?q" by (rule sealed_with_checksums [OF assms])
  note f = same_header_fields [OF with_checksums_spec(2) [OF sealed_ok(1,2) [OF assms]]]
  have "total_len p = total_len ?q" "ip_dst p = ip_dst ?q" using f by simp_all
  with q show ?thesis
    by (simp add: ready_for_def sealed_def take_fields)
qed

lemma forwarded_queue:
  assumes "forwarded r p r'" and "sealed p" and "queue_ready r"
  shows "queue_ready r'"
proof -
  let ?hop = "next_hop (wan r) (ip_dst p)"
  let ?b = "take (total_len p) (with_checksums p)"
  have t: "timer_only r r'" using assms(1) by (simp add: forwarded_def)
  note same = timer_only_simps [OF t]
  have "delta_list r' = delta_list r \<or>
      waiting (delta_list r') = (waiting (delta_list r))(?hop := waiting (delta_list r) ?hop @ [?b])"
    using assms(1) by (auto simp: forwarded_def Let_def split: option.splits)
  then show ?thesis
  proof
    assume "delta_list r' = delta_list r"
    with assms(3) same show ?thesis by (simp add: queue_ready_def)
  next
    assume w: "waiting (delta_list r') = (waiting (delta_list r))(?hop := waiting (delta_list r) ?hop @ [?b])"
    show ?thesis
      using assms(3) ready_copy [OF assms(2), of "wan r"] unfolding queue_ready_def w same(2)
      by auto
  qed
qed

lemma clean_same:
  assumes "queue_ready r" and "delta_list r' = delta_list r" and "wan r' = wan r"
  shows "queue_ready r'"
  using assms by (simp add: queue_ready_def)

section \<open>Handlers keep it\<close>

text \<open>The packets the router forwards, and what one must satisfy to be handled to the end.\<close>

definition passes :: "router \<Rightarrow> nat \<Rightarrow> buf \<Rightarrow> bool" where
  "passes r int_id pkt \<longleftrightarrow>
     ip_dst pkt \<noteq> IpAddr 0xff 0xff 0xff 0xff \<and>
     (if int_id = 0 then \<not> on_lan (ip_dst pkt) else ip_dst pkt = public_addr r) \<and>
     (ip_proto pkt = 6 \<or> ip_proto pkt = 17)"

definition fair_packet :: "router \<Rightarrow> nat \<Rightarrow> buf \<Rightarrow> bool" where
  "fair_packet r int_id pkt \<longleftrightarrow> (passes r int_id pkt \<longrightarrow> sealed pkt \<and>
     (int_id = 0 \<longrightarrow> intern_map r (flow_key pkt) = None \<longrightarrow> chosen_port r pkt \<noteq> None))"

lemma other_protocol:
  assumes "20 \<le> length pkt" and "ip_proto pkt \<noteq> 6" and "ip_proto pkt \<noteq> 17"
  shows "napt_inc_handle r pkt = Inr (r, pkt)" and "napt_out_handle r pkt = Inr (r, pkt)"
proof -
  have "9 < length pkt" "0 < length pkt" using assms(1) by linarith+
  then have "rd8 pkt 9 = Inr (ip_proto pkt)" "rd8 pkt 0 = Inr (pkt ! 0)" by (simp_all add: rd8_def ip_proto_def)
  with assms show "napt_inc_handle r pkt = Inr (r, pkt)" "napt_out_handle r pkt = Inr (r, pkt)"
    by (simp_all add: napt_inc_handle_def napt_out_handle_def header_len_def rd_ip_ok)
qed

lemma not_passing:
  assumes "configured (interface_arr r)" and "20 \<le> length pkt" and "int_id < 2" and "\<not> passes r int_id pkt"
  shows "ipv4_handle r pkt int_id = Inr (r, pkt)"
proof (cases "ip_proto pkt = 6 \<or> ip_proto pkt = 17")
  case False
  then have o: "napt_inc_handle r pkt = Inr (r, pkt)" "napt_out_handle r pkt = Inr (r, pkt)"
    using other_protocol [OF assms(2)] by auto
  from assms(3) consider "int_id = 0" | "int_id = 1" by linarith
  then show ?thesis
  proof cases
    case 1
    then show ?thesis using ipv4_handle_lan [OF assms(1,2)] o by simp
  next
    case 2
    show ?thesis unfolding 2 ipv4_handle_wan [OF assms(1,2)] using o by simp
  qed
next
  case True
  from assms(3) consider "int_id = 0" | "int_id = 1" by linarith
  then show ?thesis
  proof cases
    case 1
    then show ?thesis using ipv4_handle_lan [OF assms(1,2)] True assms(4) by (auto simp: passes_def)
  next
    case 2
    have "ip_dst pkt = IpAddr 0xff 0xff 0xff 0xff \<or> ip_dst pkt \<noteq> public_addr r"
      using True assms(4) unfolding 2 by (auto simp: passes_def)
    then show ?thesis unfolding 2 ipv4_handle_wan [OF assms(1,2)] by (rule if_P)
  qed
qed

lemma length_with_checksums: "sealed p \<Longrightarrow> length (with_checksums p) = length p"
  using same_header_fields(8) [OF with_checksums_spec(2) [OF sealed_ok(1,2)]] by simp

lemma napt_only_queue: "napt_only r r1 \<Longrightarrow> queue_ready r \<Longrightarrow> queue_ready r1"
  by (rule clean_same) (simp_all add: napt_only_simps)

lemma out_clean:
  assumes "clean r" and "sealed pkt" and proto: "ip_proto pkt = 6 \<or> ip_proto pkt = 17"
    and port: "intern_map r (flow_key pkt) = None \<Longrightarrow> chosen_port r pkt \<noteq> None"
  shows "\<exists>r' q. napt_out_handle r pkt = Inr (r', q) \<and> clean r' \<and> length q = length pkt"
proof -
  note ok = sealed_ok(2) [OF assms(2)] sealed_ok(3) [OF assms(2) proto]
  have r: "router_ok r" "queue_ready r" using assms(1) by (simp_all add: clean_def)
  have "\<exists>r1 r2 p. napt_out_handle r pkt = Inr (r2, with_checksums (translate_out (public_addr r) p pkt)) \<and>
      napt_only r r1 \<and> forwarded r1 (translate_out (public_addr r) p pkt) r2 \<and> router_ok r2"
  proof (cases "intern_map r (flow_key pkt)")
    case None
    with port obtain p where "chosen_port r pkt = Some p" by auto
    from napt_out_new [OF r(1) ok(2,1) None this] show ?thesis by blast
  next
    case (Some e)
    from napt_out_known [OF r(1) ok(2,1) Some] show ?thesis by blast
  qed
  then obtain r1 r2 p where
    r2: "napt_out_handle r pkt = Inr (r2, with_checksums (translate_out (public_addr r) p pkt))"
      "napt_only r r1" "forwarded r1 (translate_out (public_addr r) p pkt) r2" "router_ok r2" by blast
  note s = sealed_translate(1) [OF assms(2) ok(2), of "public_addr r" p]
  from forwarded_queue [OF r2(3) s napt_only_queue [OF r2(2) r(2)]] r2(1,4) show ?thesis
    by (simp add: clean_def length_with_checksums [OF s] translate_out_nth(1) [OF ok(2)])
qed

lemma inc_clean:
  assumes "clean r" and "sealed pkt" and proto: "ip_proto pkt = 6 \<or> ip_proto pkt = 17"
  shows "\<exists>r' q. napt_inc_handle r pkt = Inr (r', q) \<and> clean r' \<and> length q = length pkt"
proof -
  note ok = sealed_ok(2) [OF assms(2)] sealed_ok(3) [OF assms(2) proto]
  have r: "router_ok r" "queue_ready r" using assms(1) by (simp_all add: clean_def)
  show ?thesis
  proof (cases "extern_map r (reply_key pkt)")
    case None
    from napt_inc_miss [OF ok(2) router_okD(4) [OF r(1)] None] assms(1) show ?thesis by simp
  next
    case (Some e)
    from napt_inc_hit [OF r(1) ok(2,1) Some] obtain r2 where
      r2: "napt_inc_handle r pkt = Inr (r2, with_checksums (translate_in (lan_ip e) (lan_port e) pkt))"
        "forwarded (after_hit r) (translate_in (lan_ip e) (lan_port e) pkt) r2" "router_ok r2" by blast
    note s = sealed_translate(2) [OF assms(2) ok(2), of "lan_ip e" "lan_port e"]
    from forwarded_queue [OF r2(2) s napt_only_queue [OF after_hit_only r(2)]] r2(1,3) show ?thesis
      by (simp add: clean_def length_with_checksums [OF s] translate_in_nth(1) [OF ok(2)])
  qed
qed

lemma ipv4_handle_clean:
  assumes "clean r" and "20 \<le> length pkt" and "int_id < 2" and "fair_packet r int_id pkt"
  shows "\<exists>r' q. ipv4_handle r pkt int_id = Inr (r', q) \<and> clean r' \<and> length q = length pkt"
proof (cases "passes r int_id pkt")
  case False
  have "configured (interface_arr r)" using assms(1) by (simp add: clean_def router_ok_def)
  from not_passing [OF this assms(2,3) False] assms(1) show ?thesis by simp
next
  case True
  have conf: "configured (interface_arr r)" using assms(1) by (simp add: clean_def router_ok_def)
  have p: "ip_proto pkt = 6 \<or> ip_proto pkt = 17" "sealed pkt" using True assms(4) by (auto simp: passes_def fair_packet_def)
  from assms(3) consider "int_id = 0" | "int_id = 1" by linarith
  then show ?thesis
  proof cases
    case 1
    have "ipv4_handle r pkt int_id = napt_out_handle r pkt"
      using True ipv4_handle_lan [OF conf assms(2)] by (simp add: 1 passes_def)
    moreover have "intern_map r (flow_key pkt) = None \<Longrightarrow> chosen_port r pkt \<noteq> None"
      using True assms(4) 1 by (simp add: fair_packet_def)
    ultimately show ?thesis using out_clean [OF assms(1) p(2,1)] by simp
  next
    case 2
    have "ipv4_handle r pkt int_id = napt_inc_handle r pkt"
      using True unfolding 2 ipv4_handle_wan [OF conf assms(2)] by (auto simp: passes_def)
    with inc_clean [OF assms(1) p(2,1)] show ?thesis by simp
  qed
qed

section \<open>Frames\<close>

definition fair_frame :: "router \<Rightarrow> nat \<Rightarrow> buf \<Rightarrow> bool" where
  "fair_frame r int_id b \<longleftrightarrow>
     (frame_type b = ETHERTYPE_IPV4 \<longrightarrow> fair_packet r int_id (drop 14 b)) \<and>
     (frame_type b = ETHERTYPE_ARP \<longrightarrow> delta_list r = [] \<or> snd (timer_left r) \<noteq> 0)"

lemma learned:
  assumes "clean r" and "devices_inv d"
  shows "clean (r\<lparr>macs := d\<rparr>)" "fair_packet (r\<lparr>macs := d\<rparr>) i pkt = fair_packet r i pkt"
proof -
  show "clean (r\<lparr>macs := d\<rparr>)"
    using assms by (simp add: clean_def router_ok_def timer_inv_def napt_ok_def queue_ready_def)
  have maps: "intern_map (r\<lparr>macs := d\<rparr>) = intern_map r" "extern_map (r\<lparr>macs := d\<rparr>) = extern_map r"
    by (simp_all add: intern_map_def extern_map_def)
  have "chosen_port (r\<lparr>macs := d\<rparr>) pkt = chosen_port r pkt"
    unfolding chosen_port_def is_free_def maps by (simp add: next_ports_def)
  then show "fair_packet (r\<lparr>macs := d\<rparr>) i pkt = fair_packet r i pkt"
    unfolding fair_packet_def maps by (simp add: passes_def public_addr_def)
qed

lemma arp_handle_clean:
  assumes "clean r" and "int_id < 2" and "delta_list r = [] \<or> snd (timer_left r) \<noteq> 0"
  shows "\<exists>r'. arp_handle r a int_id = Inr r' \<and> clean r'"
proof (cases "protocol_type a = htons 0x0800 \<and> hardware_type a = htons 0x0001 \<and> sender_ip a \<noteq> IpAddr 0 0 0 0")
  case False
  then have "arp_handle r a int_id = Inr r"
    by (auto simp: arp_handle_def ntohs_eq_iff)
  with assms(1) show ?thesis by simp
next
  case True
  have r: "router_ok r" "queue_ready r" using assms(1) by (simp_all add: clean_def)
  note ok = router_okD [OF r(1)]
  from arp_handle_spec [OF ok(3,1,2) r(2) assms(3,2)] True obtain r' where
    r': "arp_handle r a int_id = Inr r'" "timer_inv r'" "devices_inv (macs r')"
      "timer_only (r\<lparr>macs := macs r'\<rparr>) r'"
      "waiting (delta_list r') = (waiting (delta_list r))(sender_ip a := [])" by blast
  note same = timer_only_simps [OF r'(4)]
  have "router_ok r'" using ok r'(2,3) same by (simp add: router_ok_def napt_ok_def)
  moreover have "queue_ready r'" using r(2) r'(5) same by (simp add: queue_ready_def)
  ultimately show ?thesis using r'(1) by (simp add: clean_def)
qed

lemma ethernet_handle_clean:
  assumes "clean r" and "length b = ETHER_MTU" and "int_id < 2" and "fair_frame r int_id b"
  shows "\<exists>r' b'. ethernet_handle r b int_id = Inr (r', b') \<and> clean r' \<and> length b' = ETHER_MTU"
proof -
  have len: "34 \<le> length b" "42 \<le> length b" using assms(2) by (simp_all add: ETHER_MTU_def)
  consider "frame_type b = ETHERTYPE_IPV4" | "frame_type b = ETHERTYPE_ARP"
    | "frame_type b \<noteq> ETHERTYPE_IPV4" "frame_type b \<noteq> ETHERTYPE_ARP" by blast
  then show ?thesis
  proof cases
    case 1
    have "devices_inv (macs r)" using assms(1) by (simp add: clean_def router_ok_def)
    from learn_spec [OF this] obtain d where
      d: "learn r (ip_src (drop 14 b)) (frame_mac b) = Inr (r\<lparr>macs := d\<rparr>)" "devices_inv d" by blast
    have "fair_packet (r\<lparr>macs := d\<rparr>) int_id (drop 14 b)"
      using assms(4) 1 learned(2) [OF assms(1) d(2)] by (simp add: fair_frame_def)
    moreover have "20 \<le> length (drop 14 b)" using len by simp
    ultimately obtain r' q where
      "ipv4_handle (r\<lparr>macs := d\<rparr>) (drop 14 b) int_id = Inr (r', q)" "clean r'" "length q = length (drop 14 b)"
      using ipv4_handle_clean [OF learned(1) [OF assms(1) d(2)] _ assms(3)] by blast
    then show ?thesis using d(1) len assms(2) by (simp add: ethernet_handle_ipv4 [OF len(1) 1])
  next
    case 2
    have "delta_list r = [] \<or> snd (timer_left r) \<noteq> 0" using assms(4) 2 by (simp add: fair_frame_def)
    from arp_handle_clean [OF assms(1,3) this, of "arp_of_bytes b 14"] assms(2) show ?thesis
      by (auto simp: ethernet_handle_arp [OF len(2) 2])
  next
    case 3
    from ethernet_handle_other [OF len(1) 3] assms(1,2) show ?thesis by simp
  qed
qed

section \<open>Runs\<close>

definition good_system :: "system \<Rightarrow> bool" where
  "good_system s \<longleftrightarrow> clean (core s) \<and> length (rx s) = 2 \<and> (\<forall>b \<in> set (rx s). length b = ETHER_MTU)"

fun fair_event :: "system \<Rightarrow> event \<Rightarrow> bool" where
  "fair_event s (Frame int_id incoming) \<longleftrightarrow>
     (int_id < 2 \<longrightarrow> fair_frame (core s) int_id (read_into (rx s ! int_id) incoming))"
| "fair_event s _ \<longleftrightarrow> True"

lemma timer_handler_clean:
  assumes "clean r"
  shows "\<exists>r'. timer_handler (r\<lparr>timer_left := (0, 0)\<rparr>) = Inr r' \<and> clean r'"
proof -
  let ?r = "r\<lparr>timer_left := (0, 0)\<rparr>"
  have ok: "router_ok r" "queue_ready r" using assms by (simp_all add: clean_def)
  then have t: "delta_ok (delta_list ?r)" "\<not> held (timer_mutex ?r)" "configured (interface_arr ?r)"
    by (simp_all add: router_ok_def timer_inv_def)
  from timer_handler_expired [OF t] obtain r' where
    r': "timer_handler ?r = Inr r'" "timer_inv r'" "timer_only ?r r'"
      "delta_list r' = after_expiry (head_expired (delta_list r))" by auto
  note same = timer_only_simps [OF r'(3)]
  have "router_ok r'" using ok(1) r'(2) same by (simp add: router_ok_def napt_ok_def)
  moreover have "set (waiting (delta_list r') ip) \<subseteq> set (waiting (delta_list r) ip)" for ip
    using t(1) by (simp add: r'(4) waiting_after_expiry delta_ok_def)
  then have "queue_ready r'" using ok(2) same unfolding queue_ready_def by fastforce
  ultimately show ?thesis using r'(1) by (simp add: clean_def)
qed

lemma good_step:
  assumes "good_system s" and "fair_event s ev"
  shows "\<exists>s'. react s ev = Inr s' \<and> good_system s'"
proof (cases ev)
  case (Frame i inc)
  show ?thesis
  proof (cases "i < 2")
    case True
    have i: "length (rx s ! i) = ETHER_MTU" "i < length (rx s)" using assms(1) True by (simp_all add: good_system_def)
    let ?b = "read_into (rx s ! i) inc"
    have "fair_frame (core s) i ?b" using assms(2) Frame True by simp
    from ethernet_handle_clean [OF _ length_read_into [OF i(1)] True this] assms(1) obtain r' b' where
      r': "ethernet_handle (core s) ?b i = Inr (r', b')" "clean r'" "length b' = ETHER_MTU"
      by (auto simp: good_system_def)
    have "react s ev = Inr (s\<lparr>core := r', rx := (rx s)[i := b'], handled := handled s @ [(i, ?b)]\<rparr>)"
      using i(2) r'(1) by (simp add: Frame receive_def Let_def)
    moreover have "\<forall>b \<in> set ((rx s)[i := b']). length b = ETHER_MTU"
      using assms(1) r'(3) set_update_subset_insert [of "rx s" i b'] by (auto simp: good_system_def)
    ultimately show ?thesis using assms(1) r'(2) by (simp add: good_system_def)
  next
    case False
    with assms(1) Frame show ?thesis by (simp add: good_system_def)
  qed
next
  case Expire
  have "clean (core s)" using assms(1) by (simp add: good_system_def)
  from timer_handler_clean [OF this] obtain r' where
    r': "timer_handler ((core s)\<lparr>timer_left := (0, 0)\<rparr>) = Inr r'" "clean r'" by blast
  show ?thesis
  proof (cases "timer_left (core s) = (0, 0)")
    case True
    with assms(1) Expire show ?thesis by simp
  next
    case False
    have "react s ev = Inr (s\<lparr>core := r'\<rparr>)" using False r'(1) by (simp add: Expire)
    moreover have "good_system (s\<lparr>core := r'\<rparr>)" using assms(1) r'(2) by (simp add: good_system_def)
    ultimately show ?thesis by blast
  qed
next
  case (Elapse left)
  show ?thesis
  proof (cases "less_left left (timer_left (core s))")
    case True
    have "left \<noteq> (0, 0)" using True unfolding less_left_def by (rule conjunct1)
    then have "clean ((core s)\<lparr>timer_left := left\<rparr>)"
      using assms(1) by (auto simp: good_system_def clean_def router_ok_def timer_inv_def napt_ok_def queue_ready_def)
    then have "good_system (s\<lparr>core := (core s)\<lparr>timer_left := left\<rparr>\<rparr>)" using assms(1) by (simp add: good_system_def)
    then show ?thesis using True Elapse by simp
  next
    case False
    with assms(1) Elapse show ?thesis by simp
  qed
qed

interpretation clean_run: faultless_system react good_system fair_event
  by unfold_locales (rule good_step)

lemma start_good:
  assumes "length buf0 = ETHER_MTU" and "length buf1 = ETHER_MTU"
  shows "good_system (start_system rands buf0 buf1)"
  using assms start_router_ok [of rands]
  by (simp add: good_system_def start_system_def clean_def queue_ready_def)

section \<open>A sample run\<close>

text \<open>A DNS query of a host on the LAN, in an Ethernet frame.\<close>

definition sample_frame :: buf where
  "sample_frame = ether_frame (MacAddr 2 0 0 0 0 1) (MacAddr 2 0 0 0 0 50) 0x0800
     (udp_packet (IpAddr 192 168 1 50) 5000 (IpAddr 8 8 8 8) 53)"

definition blank :: buf where
  "blank = replicate ETHER_MTU 0"

text \<open>The fields of a packet do not depend on what follows it in the buffer.\<close>

lemma packet_in_buffer:
  assumes "p = udp_packet src sport dst dport"
  shows "hlen (p @ z) = 20" "total_len (p @ z) = 30" "ip_proto (p @ z) = 17" "ip_dst (p @ z) = dst"
    "ip_src (p @ z) = src" "tpt_src (p @ z) = sport" "tpt_dst (p @ z) = dport" "sealed (p @ z)"
proof -
  have len: "length p = 30" and h: "hlen p = 20" using assms udp_packet_fields(7) udp_packet_hlen by simp_all
  have n: "(p @ z) ! i = p ! i" if "i < 30" for i using that len by (simp add: nth_append)
  show hl: "hlen (p @ z) = 20" using n [of 0] h by (simp add: hlen_def)
  show tl: "total_len (p @ z) = 30" using n [of 2] n [of 3] udp_packet_fields(4) assms by (simp add: total_len_def)
  show pr: "ip_proto (p @ z) = 17" using n [of 9] udp_packet_fields(3) assms by (simp add: ip_proto_def)
  show "ip_dst (p @ z) = dst"
    using n [of 16] n [of 17] n [of 18] n [of 19] udp_packet_fields(2) [of src sport dst dport] assms
    by (simp add: ip_dst_def ip_at_def)
  show "ip_src (p @ z) = src"
    using n [of 12] n [of 13] n [of 14] n [of 15] udp_packet_fields(1) [of src sport dst dport] assms
    by (simp add: ip_src_def ip_at_def)
  show "tpt_src (p @ z) = sport"
    using n [of 20] n [of 21] udp_packet_fields(5) [of src sport dst dport] assms h hl by (simp add: tpt_src_def)
  show "tpt_dst (p @ z) = dport"
    using n [of 22] n [of 23] udp_packet_fields(6) [of src sport dst dport] assms h hl by (simp add: tpt_dst_def)
  have "udp_len (p @ z) = 10"
    using n [of 24] n [of 25] udp_packet_fields(8) [of src sport dst dport] assms h hl by (simp add: udp_len_def)
  then show "sealed (p @ z)" using hl tl pr len by (simp add: sealed_iff wf_pkt_def)
qed

lemma read_sample:
  "read_into blank (Some sample_frame) = sample_frame @ replicate 1474 0"
  "drop 14 (sample_frame @ z) = udp_packet (IpAddr 192 168 1 50) 5000 (IpAddr 8 8 8 8) 53 @ z"
  "frame_type (sample_frame @ z) = ETHERTYPE_IPV4"
proof -
  have len: "length sample_frame = 44" by (simp add: sample_frame_def ether_frame_def udp_packet_fields(7))
  then show "read_into blank (Some sample_frame) = sample_frame @ replicate 1474 0"
    by (simp add: read_into_def blank_def splice_def ETHER_MTU_def)
  show "drop 14 (sample_frame @ z) = udp_packet (IpAddr 192 168 1 50) 5000 (IpAddr 8 8 8 8) 53 @ z"
    by (simp add: sample_frame_def ether_frame_def)
  have "frame_type (sample_frame @ z) = ntohs (htons 0x0800)"
    by (simp add: sample_frame_def ether_frame_def frame_type_def numeral_eq_Suc)
  then show "frame_type (sample_frame @ z) = ETHERTYPE_IPV4" by (simp add: ETHERTYPE_IPV4_def)
qed

lemma start_port: "chosen_port (start_router rands) pkt \<noteq> None"
  using start_router_ok(2) [of rands]
  by (simp add: chosen_port_def is_free_def next_ports_def find_None_iff)

lemma sample_fair: "fair_run react fair_event [Frame 0 (Some sample_frame)] (start_system (\<lambda>_. 0) blank blank)"
proof -
  have "fair_frame (start_router (\<lambda>_. 0)) 0 (read_into blank (Some sample_frame))"
    unfolding fair_frame_def fair_packet_def read_sample
    using packet_in_buffer(8) [OF refl] start_port by (simp add: start_router_ok)
  then show ?thesis by (simp add: start_system_def split: sum.split)
qed

end
