(* ===== verification/Startup.thy ===== *)
theory Startup
  imports Outgoing "HOL-Library.Sublist"
begin

text \<open>
  What \<open>main\<close> and its threads do before the first frame (\<open>src/main.c\<close>, \<open>timer_init\<close> of
  \<open>src/timer.c\<close>): the scan of the machine's addresses that configures the WAN side and the
  MAC addresses, the creation of the timer, and the storing of the sockets on which the
  receiving threads wait for each other.
\<close>

section \<open>The scan of the addresses\<close>

text \<open>
  An entry of the list \<open>getifaddrs\<close> returns: the name of an interface and, if there is one,
  an address: of IPv4 with its netmask, of the link layer, or of a family \<open>main\<close> ignores.
  Names are C strings without their final NUL.
\<close>

datatype if_address = Inet ip_addr "ip_addr option" | Link mac_addr | Other_Family

record ifaddr =
  ifa_name :: string
  ifa_addr :: "if_address option"

text \<open>\<open>strncmp(a, b, strlen(a)) = 0\<close>: the second name starts with the first.\<close>

definition strncmp_eq :: "string \<Rightarrow> string \<Rightarrow> bool" where
  "strncmp_eq a b \<longleftrightarrow> prefix a b"

text \<open>The inner loop: the first interface of that name gets the MAC address.\<close>

fun set_device_mac :: "string \<Rightarrow> mac_addr \<Rightarrow> interface_table \<Rightarrow> interface_table" where
  "set_device_mac name mac [] = []"
| "set_device_mac name mac (c # cs) =
     (if name \<noteq> if_name c then c # set_device_mac name mac cs else c\<lparr>device_mac_addr := mac\<rparr> # cs)"

definition scan_address :: "interface_table \<times> wan_config \<Rightarrow> ifaddr \<Rightarrow> (interface_table \<times> wan_config) res" where
  "scan_address aw a =
     (let (arr, w) = aw in
      case ifa_addr a of
        None \<Rightarrow> Inr (arr, w)
      | Some Other_Family \<Rightarrow> Inr (arr, w)
      | Some (Link mac) \<Rightarrow> Inr (set_device_mac (ifa_name a) mac arr, w)
      | Some (Inet ip netmask) \<Rightarrow>
          ebind (interface_get_config arr interface_get_wan_id) (\<lambda>wan_c.
            if \<not> strncmp_eq (if_name wan_c) (ifa_name a) then Inr (arr, w)
            else case netmask of
              None \<Rightarrow> Inl NullDeref
            | Some msk \<Rightarrow>
                let ip_network = apply_mask msk ip;
                    ip_gateway = ip_set ip_network 3 (ip_byte ip_network 3 OR 1)
                in ebind (prefix_len_get msk) (\<lambda>prefix_len.
                     Inr (arr[interface_get_wan_id := wan_c\<lparr>interface_ip := ip\<rparr>],
                          \<lparr>wan_network_ip = ip_network, wan_cidr_prefix_len = prefix_len,
                           wan_gateway_ip = ip_gateway\<rparr>))))"

fun scan_addresses :: "ifaddr list \<Rightarrow> interface_table \<times> wan_config \<Rightarrow> (interface_table \<times> wan_config) res" where
  "scan_addresses [] aw = Inr aw"
| "scan_addresses (a # as) aw = ebind (scan_address aw a) (scan_addresses as)"

section \<open>Timer and sockets\<close>

text \<open>
  \<open>timer_init\<close>, by whether \<open>timer_create\<close> succeeds; starting the timer thread changes
  nothing of the state.
\<close>

definition timer_init :: "router \<Rightarrow> bool \<Rightarrow> router res" where
  "timer_init r created =
     ebind (lock_timer r) (\<lambda>r1. if \<not> created then Inr r1 else Inr (unlock_timer r1))"

text \<open>
  A thread stores its socket in a field of 5 bits; then it waits until every descriptor it
  finds in the table is not 0.  Nothing resets a descriptor, and a thread writes its own only.
\<close>

definition store_socket :: "nat \<Rightarrow> nat \<Rightarrow> interface_table \<Rightarrow> interface_table res" where
  "store_socket int_id sockfd arr =
     ebind (interface_get_config arr int_id) (\<lambda>c. Inr (arr[int_id := c\<lparr>fd := of_nat sockfd\<rparr>]))"

fun wait_for_sockets :: "interface_table \<Rightarrow> unit res" where
  "wait_for_sockets [] = Inr ()"
| "wait_for_sockets (c # cs) = (if fd c = 0 then Inl Diverges else wait_for_sockets cs)"

text \<open>All threads have stored their sockets; the wait of each of them.\<close>

fun store_sockets :: "nat \<Rightarrow> nat list \<Rightarrow> interface_table \<Rightarrow> interface_table res" where
  "store_sockets i [] arr = Inr arr"
| "store_sockets i (s # ss) arr = ebind (store_socket i s arr) (store_sockets (i + 1) ss)"

section \<open>What the scan leaves\<close>

text \<open>
  Specification: the WAN addresses of a list, and a list on which the scan is defined (each
  WAN address comes with a contiguous mask other than the full one).
\<close>

definition wan_inet :: "string \<Rightarrow> ifaddr \<Rightarrow> (ip_addr \<times> ip_addr) option" where
  "wan_inet name a =
     (case ifa_addr a of
        Some (Inet ip (Some msk)) \<Rightarrow> if prefix name (ifa_name a) then Some (ip, msk) else None
      | _ \<Rightarrow> None)"

definition scannable :: "string \<Rightarrow> ifaddr \<Rightarrow> bool" where
  "scannable name a \<longleftrightarrow>
     (case ifa_addr a of
        Some (Inet ip netmask) \<Rightarrow> prefix name (ifa_name a) \<longrightarrow> (\<exists>n < 32. netmask = Some (cidr_mask n))
      | _ \<Rightarrow> True)"

definition wan_of :: "ip_addr \<Rightarrow> nat \<Rightarrow> wan_config" where
  "wan_of ip n =
     (let net = apply_mask (cidr_mask n) ip in
      \<lparr>wan_network_ip = net, wan_cidr_prefix_len = n, wan_gateway_ip = ip_set net 3 (ip_byte net 3 OR 1)\<rparr>)"

lemma set_device_mac_map:
  "map route_of (set_device_mac name mac arr) = map route_of arr"
  "map if_name (set_device_mac name mac arr) = map if_name arr"
  "map interface_ip (set_device_mac name mac arr) = map interface_ip arr"
  by (induction arr) (simp_all add: route_of_def)

lemma length_set_device_mac [simp]: "length (set_device_mac name mac arr) = length arr"
  by (induction arr) simp_all

lemma device_mac_set:
  assumes "distinct (map if_name arr)" and "i < length arr"
  shows "device_mac_addr (set_device_mac name mac arr ! i) =
    (if if_name (arr ! i) = name then mac else device_mac_addr (arr ! i))"
  using assms
proof (induction arr arbitrary: i)
  case Nil
  then show ?case by simp
next
  case (Cons c cs)
  show ?case
  proof (cases i)
    case 0
    then show ?thesis by simp
  next
    case (Suc j)
    then have j: "j < length cs" "if_name (cs ! j) \<in> set (map if_name cs)" using Cons.prems(2) by auto
    moreover have "if_name c \<notin> set (map if_name cs)" using Cons.prems(1) by simp
    ultimately have "if_name (cs ! j) \<noteq> if_name c" by metis
    with Suc j(1) Cons.IH [of j] Cons.prems(1) show ?thesis by auto
  qed
qed

text \<open>The MAC address an interface has at the end: the last one listed under its name.\<close>

definition scanned_mac :: "string \<Rightarrow> ifaddr \<Rightarrow> mac_addr \<Rightarrow> mac_addr" where
  "scanned_mac name a mac =
     (case ifa_addr a of Some (Link m) \<Rightarrow> if ifa_name a = name then m else mac | _ \<Rightarrow> mac)"

fun last_mac :: "string \<Rightarrow> ifaddr list \<Rightarrow> mac_addr \<Rightarrow> mac_addr" where
  "last_mac name [] mac = mac"
| "last_mac name (a # as) mac = last_mac name as (scanned_mac name a mac)"

fun wan_inets :: "string \<Rightarrow> ifaddr list \<Rightarrow> (ip_addr \<times> ip_addr) list" where
  "wan_inets name [] = []"
| "wan_inets name (a # as) = (case wan_inet name a of None \<Rightarrow> wan_inets name as | Some x \<Rightarrow> x # wan_inets name as)"

text \<open>One entry, then the list.\<close>

definition table_named :: "string list \<Rightarrow> interface_table \<Rightarrow> bool" where
  "table_named names arr \<longleftrightarrow> configured arr \<and> map if_name arr = names \<and> distinct names"

lemma table_named_length: "table_named names arr \<Longrightarrow> length arr = 2 \<and> length names = 2"
  using configured_length by (auto simp: table_named_def)

lemma scan_address_spec:
  assumes named: "table_named names arr" and "scannable (names ! 1) a"
  shows "\<exists>arr' w'. scan_address (arr, w) a = Inr (arr', w') \<and> table_named names arr' \<and>
    (\<forall>i < 2. device_mac_addr (arr' ! i) = scanned_mac (names ! i) a (device_mac_addr (arr ! i))) \<and>
    (case wan_inet (names ! 1) a of
       None \<Rightarrow> w' = w \<and> interface_ip (arr' ! 1) = interface_ip (arr ! 1)
     | Some (ip, msk) \<Rightarrow> interface_ip (arr' ! 1) = ip \<and> (\<exists>n < 32. msk = cidr_mask n \<and> w' = wan_of ip n))"
proof -
  have len: "length arr = 2" "length names = 2" using table_named_length [OF named] by simp_all
  have name: "if_name (arr ! i) = names ! i" if "i < 2" for i
    using named len that by (auto simp: table_named_def)
  have wan_c: "interface_get_config arr interface_get_wan_id = Inr (arr ! 1)"
    using len by (simp add: interface_get_config_def interface_get_wan_id_def)
  show ?thesis
  proof (cases "ifa_addr a")
    case None
    then show ?thesis using named by (simp add: scan_address_def wan_inet_def scanned_mac_def)
  next
    case (Some addr)
    show ?thesis
    proof (cases addr)
      case Other_Family
      with Some show ?thesis using named by (simp add: scan_address_def wan_inet_def scanned_mac_def)
    next
      case (Link mac)
      let ?arr = "set_device_mac (ifa_name a) mac arr"
      have "distinct (map if_name arr)" using named by (simp add: table_named_def)
      from device_mac_set [OF this] name len have
        "\<forall>i < 2. device_mac_addr (?arr ! i) = (if names ! i = ifa_name a then mac else device_mac_addr (arr ! i))"
        by simp
      moreover have "table_named names ?arr"
        using named by (simp add: table_named_def configured_def set_device_mac_map)
      moreover have "interface_ip (?arr ! 1) = interface_ip (arr ! 1)"
      proof -
        have "map interface_ip ?arr ! 1 = map interface_ip arr ! 1" by (simp only: set_device_mac_map)
        then show ?thesis using len by simp
      qed
      ultimately show ?thesis
        using Some Link by (auto simp: scan_address_def wan_inet_def scanned_mac_def)
    next
      case (Inet ip netmask)
      have mac: "scanned_mac nm a m = m" for nm m using Some Inet by (simp add: scanned_mac_def)
      show ?thesis
      proof (cases "prefix (names ! 1) (ifa_name a)")
        case False
        then have "wan_inet (names ! 1) a = None" using Some Inet by (simp add: wan_inet_def split: option.split)
        with False Some Inet wan_c name [of 1] named show ?thesis
          by (simp add: scan_address_def strncmp_eq_def mac)
      next
        case True
        with assms(2) Some Inet obtain n where n: "n < 32" "netmask = Some (cidr_mask n)"
          by (auto simp: scannable_def)
        let ?c = "(arr ! 1)\<lparr>interface_ip := ip\<rparr>"
        let ?arr = "arr[1 := ?c]"
        have "scan_address (arr, w) a = Inr (?arr, wan_of ip n)"
          using Some Inet n True wan_c name [of 1]
          by (simp add: scan_address_def strncmp_eq_def Let_def prefix_len_get_cidr wan_of_def interface_get_wan_id_def)
        note scanned = this
        have "route_of ?c = route_of (arr ! 1)" by (simp add: route_of_def)
        then have "configured ?arr" using named len by (intro configured_update) (simp_all add: table_named_def)
        moreover have "map if_name ?arr = map if_name arr"
          using len by (intro nth_equalityI) (auto simp: nth_list_update)
        ultimately have "table_named names ?arr" using named by (simp add: table_named_def)
        moreover have "\<forall>i < 2. device_mac_addr (?arr ! i) = device_mac_addr (arr ! i)"
          using len by (auto simp: nth_list_update)
        moreover have "wan_inet (names ! 1) a = Some (ip, cidr_mask n)" using Some Inet True n by (simp add: wan_inet_def)
        ultimately show ?thesis using scanned n(1) len by (auto simp: mac)
      qed
    qed
  qed
qed

lemma scan_addresses_spec:
  assumes "table_named names arr" and "\<forall>a \<in> set as. scannable (names ! 1) a"
  shows "\<exists>arr' w'. scan_addresses as (arr, w) = Inr (arr', w') \<and> table_named names arr' \<and>
    (\<forall>i < 2. device_mac_addr (arr' ! i) = last_mac (names ! i) as (device_mac_addr (arr ! i))) \<and>
    (if wan_inets (names ! 1) as = [] then w' = w \<and> interface_ip (arr' ! 1) = interface_ip (arr ! 1)
     else interface_ip (arr' ! 1) = fst (last (wan_inets (names ! 1) as)) \<and>
       (\<exists>n < 32. snd (last (wan_inets (names ! 1) as)) = cidr_mask n \<and>
          w' = wan_of (fst (last (wan_inets (names ! 1) as))) n))"
  using assms
proof (induction as arbitrary: arr w)
  case Nil
  then show ?case by simp
next
  case (Cons a as)
  from scan_address_spec [OF Cons.prems(1), of a w] Cons.prems(2) obtain arr1 w1 where
    one: "scan_address (arr, w) a = Inr (arr1, w1)" "table_named names arr1"
      "\<forall>i < 2. device_mac_addr (arr1 ! i) = scanned_mac (names ! i) a (device_mac_addr (arr ! i))"
      "case wan_inet (names ! 1) a of
         None \<Rightarrow> w1 = w \<and> interface_ip (arr1 ! 1) = interface_ip (arr ! 1)
       | Some (ip, msk) \<Rightarrow> interface_ip (arr1 ! 1) = ip \<and> (\<exists>n < 32. msk = cidr_mask n \<and> w1 = wan_of ip n)"
    by auto
  from Cons.IH [OF one(2), of w1] Cons.prems(2) obtain arr' w' where
    rest: "scan_addresses as (arr1, w1) = Inr (arr', w')" "table_named names arr'"
      "\<forall>i < 2. device_mac_addr (arr' ! i) = last_mac (names ! i) as (device_mac_addr (arr1 ! i))"
      "if wan_inets (names ! 1) as = [] then w' = w1 \<and> interface_ip (arr' ! 1) = interface_ip (arr1 ! 1)
       else interface_ip (arr' ! 1) = fst (last (wan_inets (names ! 1) as)) \<and>
         (\<exists>n < 32. snd (last (wan_inets (names ! 1) as)) = cidr_mask n \<and>
            w' = wan_of (fst (last (wan_inets (names ! 1) as))) n)"
    by auto
  show ?case
    using one rest by (cases "wan_inet (names ! 1) a") (auto split: if_splits)
qed

section \<open>The configured WAN network\<close>

lemma cidr_mask_inj: "n < 32 \<Longrightarrow> m < 32 \<Longrightarrow> cidr_mask n = cidr_mask m \<Longrightarrow> n = m"
  by (metis prefix_len_get_cidr sum.inject(2))

lemma last_octet_table: "\<forall>n \<in> set [0..<25]. oct3 (cidr_mask n) = 0"
  by code_simp

lemma u8_and_absorb [simp]: "(m :: u8) AND (m AND x) = m AND x"
  by (rule bit_word_eqI) (auto simp: bit_and_iff)

lemma gateway_in_network:
  assumes "n \<le> 24"
  shows "in_network ip n (wan_gateway_ip (wan_of ip n))"
proof -
  have "n \<in> set [0..<25]" using assms by simp
  then have zero: "oct3 (cidr_mask n) = 0" using last_octet_table by blast
  have set3: "ip_set (IpAddr e f g h) 3 v = IpAddr e f g v" for e f g h v by (simp add: numeral_eq_Suc)
  obtain a b c d where m: "cidr_mask n = IpAddr a b c d" by (cases "cidr_mask n")
  have "apply_mask (cidr_mask n) (wan_gateway_ip (wan_of ip n)) = apply_mask (cidr_mask n) ip"
    using zero by (cases ip) (simp add: wan_of_def Let_def m apply_mask_def set3)
  then show ?thesis using apply_cidr_mask_eq_iff [of n "wan_gateway_ip (wan_of ip n)" ip] assms by simp
qed

lemma wan_of_link:
  assumes "n \<le> 24"
  shows "on_wan_link (wan_of ip n) dst \<longleftrightarrow> in_network ip n dst"
proof -
  have "unat (of_nat n :: u8) = n" using assms by (simp add: unsigned_of_nat take_bit_nat_eq_self)
  then have "create_subnet_mask (of_nat n) = cidr_mask n"
    using create_subnet_mask_short [of "of_nat n"] assms by simp
  then show ?thesis
    using apply_cidr_mask_eq_iff [of n dst ip] assms by (simp add: on_wan_link_def wan_of_def Let_def)
qed

section \<open>Properties\<close>


definition sample_addresses :: "ifaddr list" where
  "sample_addresses =
     [\<lparr>ifa_name = ''lo'', ifa_addr = Some (Inet (IpAddr 127 0 0 1) (Some (IpAddr 255 0 0 0)))\<rparr>,
      \<lparr>ifa_name = ''veth-router'', ifa_addr = Some (Link (MacAddr 2 0 0 0 0 1))\<rparr>,
      \<lparr>ifa_name = ''veth-hostroute'', ifa_addr = Some (Inet (IpAddr 10 0 7 9) (Some (IpAddr 255 255 0 0)))\<rparr>,
      \<lparr>ifa_name = ''tun0'', ifa_addr = None\<rparr>]"


text \<open>
  The descriptor of a socket is stored modulo 32.  Once both threads have stored theirs
  the wait ends exactly if neither descriptor is a multiple of 32; otherwise every receiving
  thread spins for ever.
\<close>

theorem socket_field_truncates:
  assumes "length arr = 2"
  shows "\<exists>arr'. store_sockets 0 [s0, s1] arr = Inr arr' \<and>
    unat (fd (arr' ! 0)) = s0 mod 32 \<and> unat (fd (arr' ! 1)) = s1 mod 32 \<and>
    wait_for_sockets arr' = (if s0 mod 32 \<noteq> 0 \<and> s1 mod 32 \<noteq> 0 then Inr () else Inl Diverges)"
proof -
  obtain a b where arr: "arr = [a, b]" using assms by (auto simp: numeral_2_eq_2 length_Suc_conv)
  have u: "unat (of_nat s :: 5 word) = s mod 32" for s
    by (simp add: unsigned_of_nat take_bit_eq_mod)
  have z: "(of_nat s :: 5 word) = 0 \<longleftrightarrow> s mod 32 = 0" for s
    using u [of s] by (metis unsigned_0 word_unat_eq_iff)
  have "store_sockets 0 [s0, s1] arr = Inr [a\<lparr>fd := of_nat s0\<rparr>, b\<lparr>fd := of_nat s1\<rparr>]"
    by (simp add: arr store_socket_def interface_get_config_def)
  then show ?thesis by (simp add: u z)
qed

theorem socket_field_truncates_witness:
  "\<exists>arr'. store_sockets 0 [5, 64] init_interface_arr = Inr arr' \<and> wait_for_sockets arr' = Inl Diverges"
proof -
  have "length init_interface_arr = 2" by (simp add: init_interface_arr_def)
  from socket_field_truncates [OF this, of 5 64] show ?thesis by auto
qed

text \<open>
  If the timer cannot be created, \<open>timer_init\<close> returns with its mutex held: no packet can be
  queued any more.
\<close>

lemma timer_create_failure_blocks:
  assumes "\<not> held (timer_mutex r)"
  shows "timer_init r True = Inr r" and
    "\<exists>r'. timer_init r False = Inr r' \<and> timer_add_packet r' pkt int_id dst = Inl Blocked \<and>
       timer_handler r' = Inl Blocked"
  using assms
  by (simp_all add: timer_init_def lock_timer_def unlock_timer_def mutex_lock_free timer_add_packet_def
      timer_handler_def mutex_lock_held)

end
