(* ===== verification/Boot.thy ===== *)
theory Boot
  imports Clean_Runs Startup
begin

text \<open>
  The whole start of the program (\<open>main\<close> and \<open>thread_start\<close> of \<open>src/main.c\<close>), up to the
  state in which both receiving threads read their first frame, and what runs from that state
  guarantee.  The outcome of \<open>timer_create\<close>, the list \<open>getifaddrs\<close> returns, the sockets (or
  the failure to open and bind one) and the contents of fresh memory are inputs.
\<close>

section \<open>The start\<close>

definition main_setup :: "(nat \<Rightarrow> nat) \<Rightarrow> bool \<Rightarrow> ifaddr list \<Rightarrow> router res" where
  "main_setup rands timer_created addrs =
     ebind (timer_init (start_router rands) timer_created) (\<lambda>r.
     ebind (scan_addresses addrs (interface_arr r, wan r)) (\<lambda>(arr, w).
       Inr (r\<lparr>interface_arr := arr, wan := w\<rparr>)))"

text \<open>A thread whose socket cannot be opened or bound returns and stores nothing.\<close>

fun open_sockets :: "nat \<Rightarrow> nat option list \<Rightarrow> interface_table \<Rightarrow> interface_table res" where
  "open_sockets i [] arr = Inr arr"
| "open_sockets i (None # ss) arr = open_sockets (i + 1) ss arr"
| "open_sockets i (Some s # ss) arr = ebind (store_socket i s arr) (open_sockets (i + 1) ss)"

definition boot :: "(nat \<Rightarrow> nat) \<Rightarrow> bool \<Rightarrow> ifaddr list \<Rightarrow> nat option list \<Rightarrow> buf \<Rightarrow> buf \<Rightarrow> system res" where
  "boot rands timer_created addrs socks buf0 buf1 =
     ebind (main_setup rands timer_created addrs) (\<lambda>r.
     ebind (open_sockets 0 socks (interface_arr r)) (\<lambda>arr.
     ebind (wait_for_sockets arr) (\<lambda>_.
       Inr \<lparr>core = r\<lparr>interface_arr := arr\<rparr>, rx = [buf0, buf1], handled = []\<rparr>)))"

text \<open>A socket that serves: opened, and its number survives the field of 5 bits.\<close>

definition usable :: "nat option \<Rightarrow> bool" where
  "usable s \<longleftrightarrow> (case s of None \<Rightarrow> False | Some n \<Rightarrow> n mod 32 \<noteq> 0)"

section \<open>The state it reaches\<close>

text \<open>A router that differs from the initial one in its configuration only.\<close>

definition reconfigured :: "router \<Rightarrow> interface_table \<Rightarrow> wan_config \<Rightarrow> router" where
  "reconfigured r arr w = r\<lparr>interface_arr := arr, wan := w\<rparr>"

lemma reconfigured_simps [simp]:
  "interface_arr (reconfigured r arr w) = arr" "wan (reconfigured r arr w) = w"
  "macs (reconfigured r arr w) = macs r" "delta_list (reconfigured r arr w) = delta_list r"
  "timer_mutex (reconfigured r arr w) = timer_mutex r" "timer_left (reconfigured r arr w) = timer_left r"
  "napt_extern_hashmap (reconfigured r arr w) = napt_extern_hashmap r"
  "napt_intern_hashmap (reconfigured r arr w) = napt_intern_hashmap r"
  by (simp_all add: reconfigured_def)

lemma reconfigured_again [simp]: "(reconfigured r arr w)\<lparr>interface_arr := arr'\<rparr> = reconfigured r arr' w"
  by (simp add: reconfigured_def)

lemma reconfigured_clean:
  assumes "configured arr" and "length b0 = ETHER_MTU" and "length b1 = ETHER_MTU"
    and s: "s = \<lparr>core = reconfigured (start_router rands) arr w, rx = [b0, b1], handled = []\<rparr>"
  shows "good_system s" and "fw_sound s"
proof -
  let ?r = "start_router rands" and ?q = "reconfigured (start_router rands) arr w"
  note ok = router_okD [OF start_router_ok(1), of rands]
  have napt: "napt_ok ?q" "extern_map ?q = Map.empty"
    using ok(4) start_router_ok(2) [of rands] by (simp_all add: napt_ok_def extern_map_def)
  have "router_ok ?q" using assms(1) ok napt(1) by (simp add: router_ok_def timer_inv_def)
  then show "good_system s"
    using assms(2,3) start_router_ok(5) [of rands]
    by (simp add: s good_system_def clean_def queue_ready_def waiting_def)
  show "fw_sound s"
    using napt assms(1) by (simp add: s fw_sound_def tables_ok_def napt_ok_def extern_ok_def)
qed

lemma timer_init_free: "\<not> held (timer_mutex r) \<Longrightarrow> timer_init r True = Inr r"
  by (rule timer_create_failure_blocks(1))

text \<open>The scan touches no descriptor, so all are still 0.\<close>

lemma map_fd_set_device_mac [simp]: "map fd (set_device_mac name mac arr) = map fd arr"
  by (induction arr) simp_all

lemma map_fd_scan_address:
  assumes "scan_address (arr, w) a = Inr (arr', w')"
  shows "map fd arr' = map fd arr"
proof -
  have "map fd (arr[i := (arr ! i)\<lparr>interface_ip := ip\<rparr>]) = map fd arr" if "i < length arr" for i ip
    using that by (intro nth_equalityI) (simp_all add: nth_list_update)
  then show ?thesis
    using assms
    by (auto simp: scan_address_def interface_get_config_def Let_def elim!: ebind_InrE
        split: option.splits if_address.splits if_splits)
qed

lemma map_fd_scan_addresses:
  "scan_addresses as (arr, w) = Inr (arr', w') \<Longrightarrow> map fd arr' = map fd arr"
proof (induction as arbitrary: arr w)
  case Nil
  then show ?case by simp
next
  case (Cons a as)
  then obtain arr1 w1 where "scan_address (arr, w) a = Inr (arr1, w1)" "scan_addresses as (arr1, w1) = Inr (arr', w')"
    by (auto elim!: ebind_InrE)
  with Cons.IH map_fd_scan_address show ?case by metis
qed

lemma main_setup_spec:
  assumes "\<forall>a \<in> set addrs. scannable ''veth-hostroute'' a"
  shows "\<exists>arr w. main_setup rands True addrs = Inr (reconfigured (start_router rands) arr w) \<and>
    configured arr \<and> map fd arr = [0, 0]"
proof -
  let ?r = "start_router rands"
  have free: "timer_init ?r True = Inr ?r"
    using router_okD(3) [OF start_router_ok(1), of rands] by (intro timer_init_free) (simp add: timer_inv_def)
  have arr: "interface_arr ?r = init_interface_arr"
    by (simp add: start_router_def napt_init_def router_at_start_def)
  have named: "table_named [''veth-router'', ''veth-hostroute''] init_interface_arr"
    by (simp add: table_named_def) (simp add: init_interface_arr_def)
  from scan_addresses_spec [OF named, of addrs "wan ?r"] assms obtain arr w where
    "scan_addresses addrs (init_interface_arr, wan ?r) = Inr (arr, w)"
    "table_named [''veth-router'', ''veth-hostroute''] arr" by auto
  moreover from this(1) have "map fd arr = [0, 0]"
    using map_fd_scan_addresses by (simp add: init_interface_arr_def)
  ultimately show ?thesis
    by (auto simp: main_setup_def free arr reconfigured_def table_named_def)
qed

lemma open_sockets_spec:
  assumes "configured arr" and "map fd arr = [0, 0]"
  shows "\<exists>arr'. open_sockets 0 [s0, s1] arr = Inr arr' \<and> configured arr' \<and>
    wait_for_sockets arr' = (if usable s0 \<and> usable s1 then Inr () else Inl Diverges)"
proof -
  obtain a b where arr: "arr = [a, b]" "fd a = 0" "fd b = 0" using assms(2) by (auto simp: Cons_eq_map_conv map_eq_Cons_conv)
  have z: "(of_nat n :: 5 word) = 0 \<longleftrightarrow> n mod 32 = 0" for n
    by (simp add: word_unat_eq_iff unsigned_of_nat take_bit_eq_mod)
  have route: "route_of (c\<lparr>fd := x\<rparr>) = route_of c" for c x by (simp add: route_of_def)
  show ?thesis
    using assms(1) arr(2,3)
    by (cases s0; cases s1)
      (simp_all add: arr(1) store_socket_def interface_get_config_def usable_def z configured_def route)
qed

lemma boot_spec:
  assumes "\<forall>a \<in> set addrs. scannable ''veth-hostroute'' a"
    and "length buf0 = ETHER_MTU" and "length buf1 = ETHER_MTU"
  obtains s0 arr w where "boot rands True addrs [sock0, sock1] buf0 buf1 =
      (if usable sock0 \<and> usable sock1 then Inr s0 else Inl Diverges)"
    and "s0 = \<lparr>core = reconfigured (start_router rands) arr w, rx = [buf0, buf1], handled = []\<rparr>"
    and "good_system s0" and "fw_sound s0"
proof -
  from main_setup_spec [OF assms(1), of rands] obtain arr w where
    ready: "main_setup rands True addrs = Inr (reconfigured (start_router rands) arr w)"
      "configured arr" "map fd arr = [0, 0]" by (elim exE conjE) (rule that)
  from open_sockets_spec [OF ready(2,3), of sock0 sock1] obtain arr' where
    opened: "open_sockets 0 [sock0, sock1] arr = Inr arr'" "configured arr'"
      "wait_for_sockets arr' = (if usable sock0 \<and> usable sock1 then Inr () else Inl Diverges)" by blast
  define s0 where "s0 = \<lparr>core = reconfigured (start_router rands) arr' w, rx = [buf0, buf1], handled = []\<rparr>"
  have "boot rands True addrs [sock0, sock1] buf0 buf1 =
      (if usable sock0 \<and> usable sock1 then Inr s0 else Inl Diverges)"
    by (simp add: boot_def ready(1) opened(1,3) s0_def del: open_sockets.simps)
  from this s0_def reconfigured_clean [OF opened(2) assms(2,3) s0_def] show ?thesis by (rule that)
qed

text \<open>A packet of the WAN goes nowhere, or to the host on the LAN that asked for it.\<close>

definition only_replies :: "system \<Rightarrow> buf \<Rightarrow> bool" where
  "only_replies s pkt \<longleftrightarrow>
     ipv4_handle (core s) pkt 1 = Inr (core s, pkt) \<or>
     (\<exists>b. (0, b) \<in> set (handled s) \<and> frame_type b = ETHERTYPE_IPV4 \<and>
        ip_dst (drop 14 b) = ip_src pkt \<and> tpt_dst (drop 14 b) = tpt_src pkt \<and>
        ip_proto (drop 14 b) = ip_proto pkt \<and>
        ipv4_handle (core s) pkt 1 =
          send_ipv4 (after_hit (core s)) (translate_in (ip_src (drop 14 b)) (tpt_src (drop 14 b)) pkt))"

text \<open>The sample addresses can be scanned.\<close>

lemma sample_scannable: "\<forall>a \<in> set sample_addresses. scannable ''veth-hostroute'' a"
proof -
  have "cidr_mask 16 = IpAddr 255 255 0 0" by code_simp
  then show ?thesis by (auto simp: sample_addresses_def scannable_def intro!: exI [of _ 16])
qed

lemma sample_sockets: "usable (Some 5) \<and> usable (Some 6)"
  by (simp add: usable_def)

end
