(* ===== verification/Dhcp_Options.thy ===== *)
theory Dhcp_Options
  imports Prelude
begin

text \<open>
  The options of a DHCP message as \<open>src/dhcp.c\<close> reads them: the loop shared by
  \<open>handle_dhcp_packet\<close> and \<open>extract_requested_ip\<close>, and what it finds in a well-formed
  list of options.
\<close>

definition DHCP_BUFFER_SIZE :: nat where "DHCP_BUFFER_SIZE = 1024"
definition DHCP_OPTION_MESSAGE_TYPE :: u8 where "DHCP_OPTION_MESSAGE_TYPE = 53"
definition DHCP_OPTION_REQUESTED_IP :: u8 where "DHCP_OPTION_REQUESTED_IP = 50"
definition DHCP_OPTION_LEASE_TIME :: u8 where "DHCP_OPTION_LEASE_TIME = 51"
definition DHCP_OPTION_SUBNET_MASK :: u8 where "DHCP_OPTION_SUBNET_MASK = 1"
definition DHCP_OPTION_ROUTER :: u8 where "DHCP_OPTION_ROUTER = 3"
definition DHCP_OPTION_DNS :: u8 where "DHCP_OPTION_DNS = 6"
definition DHCP_END :: u8 where "DHCP_END = 255"

lemmas dhcp_options = DHCP_OPTION_MESSAGE_TYPE_def DHCP_OPTION_REQUESTED_IP_def DHCP_OPTION_LEASE_TIME_def
  DHCP_OPTION_SUBNET_MASK_def DHCP_OPTION_ROUTER_def DHCP_OPTION_DNS_def DHCP_END_def

section \<open>The scan\<close>

text \<open>
  From offset \<open>off\<close> of the buffer on: the offset of the first option of type \<open>code\<close>, if
  one comes before an end option and before \<open>limit\<close>.  The byte at \<open>off\<close> is read before
  \<open>off\<close> is compared with the limit, and the length byte before the type is tested.
\<close>

function scan_option :: "buf \<Rightarrow> nat \<Rightarrow> u8 \<Rightarrow> nat \<Rightarrow> nat option res" where
  "scan_option b limit code off =
     ebind (rd8 b off) (\<lambda>option_type.
       if option_type \<noteq> DHCP_END \<and> off < limit then
         ebind (rd8 b (off + 1)) (\<lambda>option_len.
           if option_type = code then Inr (Some off)
           else scan_option b limit code (off + 2 + unat option_len))
       else Inr None)"
  by pat_completeness auto
termination
  by (relation "measure (\<lambda>(b, _, _, off). length b - off)") (auto simp: rd8_Inr_iff)

declare scan_option.simps [simp del]

text \<open>One round of the loop, by the byte at hand.\<close>

lemma scan_stop: "off < length b \<Longrightarrow> b ! off = DHCP_END \<or> limit \<le> off \<Longrightarrow> scan_option b limit code off = Inr None"
  by (subst scan_option.simps) (auto simp: rd8_ok)

lemma scan_hit:
  "Suc off < length b \<Longrightarrow> off < limit \<Longrightarrow> b ! off = code \<Longrightarrow> code \<noteq> DHCP_END \<Longrightarrow>
   scan_option b limit code off = Inr (Some off)"
  by (subst scan_option.simps) (simp add: rd8_ok)

lemma scan_next:
  "Suc off < length b \<Longrightarrow> off < limit \<Longrightarrow> b ! off \<noteq> code \<Longrightarrow> b ! off \<noteq> DHCP_END \<Longrightarrow>
   scan_option b limit code off = scan_option b limit code (off + 2 + unat (b ! Suc off))"
  by (subst scan_option.simps) (simp add: rd8_ok)

lemma scan_outside: "length b \<le> off \<Longrightarrow> scan_option b limit code off = Inl OutOfBounds"
  by (subst scan_option.simps) (simp add: rd8_def)

lemma scan_no_length:
  "Suc off = length b \<Longrightarrow> off < limit \<Longrightarrow> b ! off \<noteq> DHCP_END \<Longrightarrow> scan_option b limit code off = Inl OutOfBounds"
  by (subst scan_option.simps) (simp add: rd8_def)

text \<open>Zero bytes are read as options of type and length 0.\<close>

lemma scan_zeros:
  assumes "code \<noteq> 0" and "off + 2 * n \<le> length b" and "off + 2 * n \<le> limit"
    and "\<forall>i. off \<le> i \<and> i < off + 2 * n \<longrightarrow> b ! i = 0"
  shows "scan_option b limit code off = scan_option b limit code (off + 2 * n)"
  using assms
proof (induction n arbitrary: off)
  case 0
  then show ?case by simp
next
  case (Suc n)
  have z: "b ! off = 0" "b ! Suc off = 0" using Suc.prems(4) by simp_all
  have "scan_option b limit code off = scan_option b limit code (off + 2 + unat (b ! Suc off))"
    by (rule scan_next) (use Suc.prems z in \<open>simp_all add: DHCP_END_def\<close>)
  also have "\<dots> = scan_option b limit code (off + 2 + 2 * n)"
    using Suc.IH [of "off + 2"] Suc.prems z by simp
  finally show ?case by (simp add: algebra_simps)
qed

section \<open>Well-formed options\<close>

type_synonym dhcp_option = "u8 \<times> buf"

definition encode_option :: "dhcp_option \<Rightarrow> buf" where
  "encode_option opt = fst opt # of_nat (length (snd opt)) # snd opt"

definition encode_options :: "dhcp_option list \<Rightarrow> buf" where
  "encode_options opts = concat (map encode_option opts)"

definition option_ok :: "dhcp_option \<Rightarrow> bool" where
  "option_ok opt \<longleftrightarrow> fst opt \<noteq> DHCP_END \<and> length (snd opt) < 256"

text \<open>Where the first option of a type starts, and its value.\<close>

definition first_option :: "u8 \<Rightarrow> dhcp_option list \<Rightarrow> (nat \<times> buf) option" where
  "first_option code opts =
     map_option (\<lambda>opt. (length (encode_options (takeWhile (\<lambda>o'. fst o' \<noteq> code) opts)), snd opt))
       (find (\<lambda>opt. fst opt = code) opts)"

lemma encode_options_simps [simp]:
  "encode_options [] = []" "encode_options (opt # opts) = encode_option opt @ encode_options opts"
  by (simp_all add: encode_options_def)

lemma length_encode_option [simp]: "length (encode_option opt) = length (snd opt) + 2"
  by (simp add: encode_option_def)

lemma first_option_simps:
  "first_option code [] = None"
  "first_option code (opt # opts) =
     (if fst opt = code then Some (0, snd opt)
      else map_option (\<lambda>(k, v). (length (encode_option opt) + k, v)) (first_option code opts))"
  by (simp_all add: first_option_def option.map_comp o_def)

lemma scan_encoded:
  assumes "\<forall>opt \<in> set opts. option_ok opt" and "code \<noteq> DHCP_END"
    and "b = pre @ encode_options opts @ DHCP_END # rest" and "length pre + length (encode_options opts) \<le> limit"
  shows "scan_option b limit code (length pre) =
    Inr (map_option (\<lambda>(k, v). length pre + k) (first_option code opts))"
  using assms
proof (induction opts arbitrary: pre)
  case Nil
  then have "scan_option b limit code (length pre) = Inr None" by (intro scan_stop) simp_all
  then show ?case by (simp add: first_option_simps)
next
  case (Cons opt opts)
  let ?off = "length pre"
  have b: "b = pre @ fst opt # of_nat (length (snd opt)) # snd opt @ encode_options opts @ DHCP_END # rest"
    using Cons.prems(3) by (simp add: encode_option_def)
  have at: "b ! ?off = fst opt" "b ! Suc ?off = of_nat (length (snd opt))" "Suc ?off < length b"
    unfolding b by (simp_all add: nth_append)
  have lim: "?off < limit" using Cons.prems(4) by simp
  have ok: "fst opt \<noteq> DHCP_END" "length (snd opt) < 256" using Cons.prems(1) by (simp_all add: option_ok_def)
  show ?case
  proof (cases "fst opt = code")
    case True
    with scan_hit [OF at(3) lim] at(1) Cons.prems(2) show ?thesis by (simp add: first_option_simps)
  next
    case False
    have len: "unat (of_nat (length (snd opt)) :: u8) = length (snd opt)"
      using ok(2) by (simp add: unsigned_of_nat take_bit_nat_eq_self)
    have "scan_option b limit code ?off = scan_option b limit code (?off + 2 + unat (b ! Suc ?off))"
      by (rule scan_next) (use at lim False ok in auto)
    also have "?off + 2 + unat (b ! Suc ?off) = length (pre @ encode_option opt)" by (simp add: at len)
    also have "scan_option b limit code (length (pre @ encode_option opt)) =
        Inr (map_option (\<lambda>(k, v). length (pre @ encode_option opt) + k) (first_option code opts))"
      by (rule Cons.IH) (use Cons.prems in simp_all)
    finally show ?thesis
      using False by (cases "first_option code opts") (auto simp: first_option_simps)
  qed
qed

lemma first_option_at:
  "first_option code opts = Some (k, v) \<Longrightarrow>
   \<exists>rest. drop k (encode_options opts) = code # of_nat (length v) # v @ rest"
proof (induction opts arbitrary: k)
  case Nil
  then show ?case by (simp add: first_option_simps)
next
  case (Cons opt opts)
  show ?case
  proof (cases "fst opt = code")
    case True
    with Cons.prems show ?thesis by (auto simp: first_option_simps encode_option_def)
  next
    case False
    with Cons.prems obtain k' where "first_option code opts = Some (k', v)" "k = length (encode_option opt) + k'"
      by (auto simp: first_option_simps)
    with Cons.IH show ?thesis by simp
  qed
qed

section \<open>Bounds\<close>

text \<open>
  A scan that starts inside the limit steps at most 256 bytes past its last byte.
\<close>

lemma scan_in_bounds:
  assumes "limit + 256 < length b" and "off \<le> limit + 256"
  shows "\<exists>r. scan_option b limit code off = Inr r \<and> (\<forall>k. r = Some k \<longrightarrow> off \<le> k \<and> k < limit)"
  using assms(2)
proof (induction "length b - off" arbitrary: off rule: less_induct)
  case less
  have off: "off < length b" using less.prems assms(1) by linarith
  show ?case
  proof (cases "b ! off = DHCP_END \<or> limit \<le> off")
    case True
    with scan_stop [OF off] show ?thesis by simp
  next
    case False
    then have lim: "off < limit" "b ! off \<noteq> DHCP_END" by auto
    have len: "Suc off < length b" using lim(1) assms(1) by linarith
    show ?thesis
    proof (cases "b ! off = code")
      case True
      with scan_hit [OF len lim(1)] lim show ?thesis by auto
    next
      case no: False
      let ?o = "off + 2 + unat (b ! Suc off)"
      have "unat (b ! Suc off) < 256" by (rule unat_u8_less)
      then have "?o \<le> limit + 256" "length b - ?o < length b - off" using lim(1) off by linarith+
      from less.hyps [OF this(2,1)] obtain r where
        "scan_option b limit code ?o = Inr r" "\<forall>k. r = Some k \<longrightarrow> ?o \<le> k \<and> k < limit" by blast
      with scan_next [OF len lim(1) no lim(2)] show ?thesis by force
    qed
  qed
qed

end
