(* ===== verification/Dhcp_Leases.thy ===== *)
theory Dhcp_Leases
  imports Prelude
begin

text \<open>
  The lease table of \<open>src/dhcp.c\<close>: the pool, its tests, expiry and the choice of an address.
  An \<open>in_addr\<close> is its \<open>s_addr\<close>, the four bytes of the address read as a little-endian
  integer.  What \<open>time(NULL)\<close> returns is a sequence, of which \<open>clock_pos\<close> values have
  been read.
\<close>

section \<open>State\<close>

definition MAX_LEASES :: nat where "MAX_LEASES = 10"

record dhcp_lease =
  lease_ip :: u32
  lease_mac :: buf
  lease_start :: int
  lease_expiry :: int
  allocated :: bool

text \<open>\<open>dhcp_sent\<close> lists the datagrams passed to \<open>sendto\<close>, oldest first.\<close>

record dhcp_state =
  lease_table :: "dhcp_lease list"
  dhcp_pool_start :: u32
  dhcp_pool_end :: u32
  clock_seq :: "nat \<Rightarrow> int"
  clock_pos :: nat
  dhcp_sent :: "buf list"

definition inet_addr :: "u8 \<Rightarrow> u8 \<Rightarrow> u8 \<Rightarrow> u8 \<Rightarrow> u32" where
  "inet_addr a b c d = le32 a b c d"

text \<open>The static table is zero-initialised.\<close>

definition no_lease :: dhcp_lease where
  "no_lease = \<lparr>lease_ip = 0, lease_mac = replicate 6 0, lease_start = 0, lease_expiry = 0, allocated = False\<rparr>"

definition dhcp_at_start :: "(nat \<Rightarrow> int) \<Rightarrow> dhcp_state" where
  "dhcp_at_start clock =
     \<lparr>lease_table = replicate MAX_LEASES no_lease, dhcp_pool_start = 0, dhcp_pool_end = 0,
      clock_seq = clock, clock_pos = 0, dhcp_sent = []\<rparr>"

definition init_dhcp_pool :: "dhcp_state \<Rightarrow> dhcp_state" where
  "init_dhcp_pool s =
     s\<lparr>dhcp_pool_start := inet_addr 192 168 1 100, dhcp_pool_end := inet_addr 192 168 1 110\<rparr>"

definition time_now :: "dhcp_state \<Rightarrow> int \<times> dhcp_state" where
  "time_now s = (clock_seq s (clock_pos s), s\<lparr>clock_pos := clock_pos s + 1\<rparr>)"

section \<open>Tests\<close>

definition is_ip_in_pool :: "dhcp_state \<Rightarrow> u32 \<Rightarrow> bool" where
  "is_ip_in_pool s ip \<longleftrightarrow> ip \<ge> dhcp_pool_start s \<and> ip \<le> dhcp_pool_end s"

fun available_loop :: "dhcp_lease list \<Rightarrow> u32 \<Rightarrow> dhcp_state \<Rightarrow> bool \<times> dhcp_state" where
  "available_loop [] ip s = (True, s)"
| "available_loop (l # ls) ip s =
     (if allocated l \<and> lease_ip l = ip then
        let (now, s1) = time_now s in
        if now < lease_expiry l then (False, s1) else available_loop ls ip s1
      else available_loop ls ip s)"

definition is_ip_available :: "dhcp_state \<Rightarrow> u32 \<Rightarrow> bool \<times> dhcp_state" where
  "is_ip_available s ip = available_loop (lease_table s) ip s"

section \<open>Expiry and allocation\<close>

definition expire_lease :: "int \<Rightarrow> dhcp_lease \<Rightarrow> dhcp_lease" where
  "expire_lease now l =
     (if allocated l \<and> lease_expiry l \<le> now
      then l\<lparr>allocated := False, lease_start := 0, lease_expiry := 0, lease_ip := 0\<rparr> else l)"

definition cleanup_expired_leases :: "dhcp_state \<Rightarrow> dhcp_state" where
  "cleanup_expired_leases s =
     (let (now, s1) = time_now s in s1\<lparr>lease_table := map (expire_lease now) (lease_table s1)\<rparr>)"

fun first_free :: "dhcp_lease list \<Rightarrow> nat \<Rightarrow> nat option" where
  "first_free [] i = None"
| "first_free (l # ls) i = (if \<not> allocated l then Some i else first_free ls (i + 1))"

definition get_available_ip :: "dhcp_state \<Rightarrow> u32 \<times> dhcp_state" where
  "get_available_ip s0 =
     (let s = cleanup_expired_leases s0 in
      case first_free (lease_table s) 0 of
        None \<Rightarrow> (inet_addr 0 0 0 0, s)
      | Some i \<Rightarrow>
          let (now, s1) = time_now s;
              ip = ntohl (ntohl (dhcp_pool_start s1) + of_nat i);
              l = (lease_table s1 ! i)\<lparr>allocated := True, lease_start := now,
                    lease_expiry := now + 180000, lease_ip := ip\<rparr>
          in (ip, s1\<lparr>lease_table := (lease_table s1)[i := l]\<rparr>))"

section \<open>The table as a map\<close>

text \<open>The address of a slot, and the leases that run at a time, by their address.\<close>

definition pool_addr :: "nat \<Rightarrow> u32" where
  "pool_addr i = inet_addr 192 168 1 (100 + of_nat i)"

definition running :: "int \<Rightarrow> dhcp_lease \<Rightarrow> bool" where
  "running now l \<longleftrightarrow> allocated l \<and> now < lease_expiry l"

definition leased :: "dhcp_state \<Rightarrow> int \<Rightarrow> u32 \<Rightarrow> bool" where
  "leased s now ip \<longleftrightarrow> (\<exists>l \<in> set (lease_table s). running now l \<and> lease_ip l = ip)"

text \<open>Every slot hands out its own address.\<close>

definition lease_inv :: "dhcp_state \<Rightarrow> bool" where
  "lease_inv s \<longleftrightarrow> length (lease_table s) = MAX_LEASES \<and>
     dhcp_pool_start s = inet_addr 192 168 1 100 \<and> dhcp_pool_end s = inet_addr 192 168 1 110 \<and>
     (\<forall>i < MAX_LEASES. allocated (lease_table s ! i) \<longrightarrow> lease_ip (lease_table s ! i) = pool_addr i)"

lemma less_MAX_LEASES: "i < MAX_LEASES \<longleftrightarrow> i \<in> {0, 1, 2, 3, 4, 5, 6, 7, 8, 9}"
  by (auto simp: MAX_LEASES_def)

lemma slot_octet:
  assumes "i < MAX_LEASES"
  shows "unat (100 + of_nat i :: u8) = 100 + i"
  using assms unfolding less_MAX_LEASES by (elim insertE) simp_all

lemma pool_addr_inj:
  assumes "i < MAX_LEASES" and "j < MAX_LEASES" and "pool_addr i = pool_addr j"
  shows "i = j"
proof -
  have "(100 + of_nat i :: u8) = 100 + of_nat j"
    using assms(3) unfolding pool_addr_def inet_addr_def le32_eq_iff by blast
  then have "unat (100 + of_nat i :: u8) = unat (100 + of_nat j :: u8)" by (rule arg_cong)
  then show ?thesis unfolding slot_octet [OF assms(1)] slot_octet [OF assms(2)] by simp
qed

lemma next_pool_addr:
  assumes "i < MAX_LEASES"
  shows "ntohl (ntohl (inet_addr 192 168 1 100) + of_nat i) = pool_addr i"
proof -
  have "le32 100 1 168 192 + of_nat i = (le32 (100 + of_nat i) 1 168 192 :: u32)"
  proof (rule unsigned_word_eqI)
    have "unat (le32 100 1 168 192 :: u32) = 100 + 256 * 1 + 65536 * 168 + 16777216 * 192"
      unfolding unat_le32 by simp
    moreover have "unat (of_nat i :: u32) = i"
      using assms by (simp add: unsigned_of_nat take_bit_nat_eq_self MAX_LEASES_def)
    ultimately have "unat (le32 100 1 168 192 + of_nat i :: u32) = 100 + 256 * 1 + 65536 * 168 + 16777216 * 192 + i"
      using assms by (simp add: unat_word_ariths MAX_LEASES_def)
    then show "unat (le32 100 1 168 192 + of_nat i :: u32) = unat (le32 (100 + of_nat i) 1 168 192 :: u32)"
      unfolding unat_le32 slot_octet [OF assms] by simp
  qed
  then show ?thesis by (simp add: pool_addr_def inet_addr_def)
qed

section \<open>Availability\<close>

lemma filter_single:
  assumes "\<And>i j. i < length xs \<Longrightarrow> j < length xs \<Longrightarrow> P (xs ! i) \<Longrightarrow> P (xs ! j) \<Longrightarrow> i = j"
  shows "filter P xs = [] \<or> (\<exists>i < length xs. filter P xs = [xs ! i] \<and> P (xs ! i))"
  using assms
proof (induction xs)
  case Nil
  then show ?case by simp
next
  case (Cons x xs)
  show ?case
  proof (cases "P x")
    case True
    have "\<not> P y" if "y \<in> set xs" for y
    proof
      assume "P y"
      from that obtain j where "j < length xs" "xs ! j = y" by (auto simp: in_set_conv_nth)
      with Cons.prems [of 0 "Suc j"] True \<open>P y\<close> show False by simp
    qed
    then have "filter P xs = []" by (simp add: filter_empty_conv)
    with True show ?thesis by (intro disjI2 exI [of _ 0]) simp
  next
    case False
    have "filter P xs = [] \<or> (\<exists>i < length xs. filter P xs = [xs ! i] \<and> P (xs ! i))"
    proof (rule Cons.IH)
      fix i j
      assume "i < length xs" "j < length xs" "P (xs ! i)" "P (xs ! j)"
      then show "i = j" using Cons.prems [of "Suc i" "Suc j"] by simp
    qed
    then show ?thesis using False by auto
  qed
qed

definition lease_for :: "u32 \<Rightarrow> dhcp_lease \<Rightarrow> bool" where
  "lease_for ip l \<longleftrightarrow> allocated l \<and> lease_ip l = ip"

lemma lease_unique:
  assumes "lease_inv s"
  shows "filter (lease_for ip) (lease_table s) = [] \<or>
    (\<exists>i < MAX_LEASES. filter (lease_for ip) (lease_table s) = [lease_table s ! i] \<and>
       lease_for ip (lease_table s ! i) \<and> ip = pool_addr i)"
proof -
  have len: "length (lease_table s) = MAX_LEASES" using assms by (simp add: lease_inv_def)
  have addr: "ip = pool_addr i" if "i < MAX_LEASES" "lease_for ip (lease_table s ! i)" for i
    using that assms by (auto simp: lease_inv_def lease_for_def)
  have "filter (lease_for ip) (lease_table s) = [] \<or>
      (\<exists>i < length (lease_table s). filter (lease_for ip) (lease_table s) = [lease_table s ! i] \<and>
        lease_for ip (lease_table s ! i))"
    by (rule filter_single) (use addr len pool_addr_inj in metis)
  with addr len show ?thesis by auto
qed

lemma available_loop_none: "filter (lease_for ip) ls = [] \<Longrightarrow> available_loop ls ip s = (True, s)"
  by (induction ls) (auto simp: lease_for_def split: if_splits)

lemma available_loop_one:
  "filter (lease_for ip) ls = [l] \<Longrightarrow>
   available_loop ls ip s = (\<not> clock_seq s (clock_pos s) < lease_expiry l, s\<lparr>clock_pos := clock_pos s + 1\<rparr>)"
  by (induction ls) (auto simp: lease_for_def time_now_def available_loop_none Let_def split: if_splits)

text \<open>An address is available when no running lease has it; the table is not touched.\<close>

lemma is_ip_available_spec:
  assumes "lease_inv s"
  shows "\<exists>k. is_ip_available s ip = (\<not> leased s (clock_seq s (clock_pos s)) ip, s\<lparr>clock_pos := k\<rparr>) \<and>
    clock_pos s \<le> k \<and> k \<le> clock_pos s + 1"
proof -
  from lease_unique [OF assms, of ip] show ?thesis
  proof
    assume none: "filter (lease_for ip) (lease_table s) = []"
    then have "\<not> leased s now ip" for now
      by (auto simp: leased_def running_def lease_for_def filter_empty_conv)
    with none show ?thesis by (intro exI [of _ "clock_pos s"]) (simp add: is_ip_available_def available_loop_none)
  next
    assume "\<exists>i < MAX_LEASES. filter (lease_for ip) (lease_table s) = [lease_table s ! i] \<and>
       lease_for ip (lease_table s ! i) \<and> ip = pool_addr i"
    then obtain l where l: "filter (lease_for ip) (lease_table s) = [l]" by blast
    then have "set (filter (lease_for ip) (lease_table s)) = {l}" by simp
    then have "leased s now ip \<longleftrightarrow> now < lease_expiry l" for now
      by (auto simp: leased_def running_def lease_for_def)
    with available_loop_one [OF l] show ?thesis
      by (intro exI [of _ "clock_pos s + 1"]) (simp add: is_ip_available_def)
  qed
qed

lemma lease_inv_clock [simp]: "lease_inv (s\<lparr>clock_pos := k\<rparr>) = lease_inv s"
  "lease_inv (s\<lparr>dhcp_sent := ds\<rparr>) = lease_inv s"
  by (simp_all add: lease_inv_def)

lemma leased_clock [simp]: "leased (s\<lparr>clock_pos := k\<rparr>) now ip = leased s now ip"
  by (simp add: leased_def)

text \<open>The pool test compares the addresses with their last octet as the leading digit.\<close>

lemma pool_addr_in_pool:
  assumes "lease_inv s" and "i < MAX_LEASES"
  shows "is_ip_in_pool s (pool_addr i)"
proof -
  have "unat (pool_addr i) = 192 + 256 * 168 + 65536 * 1 + 16777216 * (100 + i)"
    unfolding pool_addr_def inet_addr_def unat_le32 slot_octet [OF assms(2)] by simp
  moreover have "unat (inet_addr 192 168 1 100) = 192 + 256 * 168 + 65536 * 1 + 16777216 * 100"
    "unat (inet_addr 192 168 1 110) = 192 + 256 * 168 + 65536 * 1 + 16777216 * 110"
    unfolding inet_addr_def unat_le32 by simp_all
  ultimately show ?thesis
    using assms by (simp add: is_ip_in_pool_def lease_inv_def word_le_nat_alt MAX_LEASES_def)
qed

lemma leased_in_pool: "lease_inv s \<Longrightarrow> leased s now ip \<Longrightarrow> is_ip_in_pool s ip"
  using pool_addr_in_pool
  by (fastforce simp: leased_def running_def lease_inv_def in_set_conv_nth)

section \<open>Expiry and allocation, specified\<close>

lemma expire_running [simp]:
  "allocated (expire_lease now l) \<longleftrightarrow> running now l" "running now (expire_lease now l) \<longleftrightarrow> running now l"
  "running now l \<Longrightarrow> expire_lease now l = l"
  by (auto simp: expire_lease_def running_def)

lemma cleanup_inv:
  assumes "lease_inv s"
  shows "lease_inv (cleanup_expired_leases s)"
  using assms by (auto simp: lease_inv_def cleanup_expired_leases_def time_now_def Let_def running_def)

lemma first_free_spec:
  "case first_free ls k of
     None \<Rightarrow> \<forall>l \<in> set ls. allocated l
   | Some j \<Rightarrow> k \<le> j \<and> j < k + length ls \<and> \<not> allocated (ls ! (j - k)) \<and> (\<forall>i < j - k. allocated (ls ! i))"
proof (induction ls arbitrary: k)
  case Nil
  then show ?case by simp
next
  case (Cons l ls)
  show ?case
  proof (cases "allocated l")
    case True
    from Cons.IH [of "k + 1"] show ?thesis
    proof (cases "first_free ls (k + 1)")
      case None
      with Cons.IH [of "k + 1"] True show ?thesis by simp
    next
      case (Some j)
      with Cons.IH [of "k + 1"] have j: "k + 1 \<le> j" "j < k + 1 + length ls" "\<not> allocated (ls ! (j - (k + 1)))"
        "\<forall>i < j - (k + 1). allocated (ls ! i)" by simp_all
      then have "j - k = Suc (j - (k + 1))" by simp
      with j True Some show ?thesis by (auto simp: less_Suc_eq_0_disj)
    qed
  qed simp
qed

text \<open>
  \<open>get_available_ip\<close>: the first slot without a running lease is leased from now on, all
  other running leases stay; without such a slot the result is 0.0.0.0 and nothing is leased.
\<close>

lemma get_available_ip_spec:
  assumes inv: "lease_inv s"
  defines "t \<equiv> clock_seq s (clock_pos s)" and "t1 \<equiv> clock_seq s (clock_pos s + 1)"
  shows "case get_available_ip s of (ip, s') \<Rightarrow> lease_inv s' \<and> dhcp_sent s' = dhcp_sent s \<and> clock_seq s' = clock_seq s \<and>
    ((\<exists>i < MAX_LEASES. ip = pool_addr i \<and> \<not> running t (lease_table s ! i) \<and>
        (\<forall>j < i. running t (lease_table s ! j)) \<and> \<not> leased s t ip \<and>
        (\<exists>l. lease_table s' = (map (expire_lease t) (lease_table s))[i := l] \<and> allocated l \<and>
           lease_ip l = ip \<and> lease_start l = t1 \<and> lease_expiry l = t1 + 180000)) \<or>
     (\<forall>l \<in> set (lease_table s). running t l) \<and> ip = inet_addr 0 0 0 0 \<and> lease_table s' = lease_table s)"
proof -
  let ?s = "cleanup_expired_leases s"
  let ?tab = "map (expire_lease t) (lease_table s)"
  have tab: "lease_table ?s = ?tab" "dhcp_pool_start ?s = inet_addr 192 168 1 100"
      "clock_seq ?s = clock_seq s" "clock_pos ?s = clock_pos s + 1" "dhcp_sent ?s = dhcp_sent s"
    using inv by (simp_all add: cleanup_expired_leases_def time_now_def Let_def t_def lease_inv_def)
  have inv1: "lease_inv ?s" by (rule cleanup_inv [OF inv])
  have len: "length (lease_table s) = MAX_LEASES" using inv by (simp add: lease_inv_def)
  show ?thesis
  proof (cases "first_free ?tab 0")
    case None
    then have get: "get_available_ip s = (inet_addr 0 0 0 0, ?s)" by (simp add: get_available_ip_def tab)
    have all: "\<forall>l \<in> set (lease_table s). running t l"
      using first_free_spec [of ?tab 0] None by simp
    then have "?tab = lease_table s" by (intro map_idI) simp
    with all inv1 tab show ?thesis unfolding get by simp
  next
    case (Some i)
    with first_free_spec [of ?tab 0] have i: "i < MAX_LEASES" "\<not> running t (lease_table s ! i)"
      "\<forall>j < i. running t (lease_table s ! j)" using len by auto (auto simp: running_def)
    let ?l = "(?tab ! i)\<lparr>allocated := True, lease_start := t1, lease_expiry := t1 + 180000, lease_ip := pool_addr i\<rparr>"
    let ?s' = "?s\<lparr>clock_pos := clock_pos s + 1 + 1, lease_table := ?tab[i := ?l]\<rparr>"
    have get: "get_available_ip s = (pool_addr i, ?s')"
      by (simp add: get_available_ip_def Some tab time_now_def Let_def next_pool_addr [OF i(1)] t1_def)
    have "lease_inv ?s'"
      using inv1 i(1) by (auto simp: lease_inv_def tab nth_list_update)
    moreover have "\<not> leased s t (pool_addr i)"
    proof
      assume "leased s t (pool_addr i)"
      then obtain j where j: "j < MAX_LEASES" "running t (lease_table s ! j)" "lease_ip (lease_table s ! j) = pool_addr i"
        using len by (auto simp: leased_def in_set_conv_nth)
      then have "pool_addr j = pool_addr i" using inv by (simp add: lease_inv_def running_def)
      from pool_addr_inj [OF j(1) i(1) this] j(2) i(2) show False by simp
    qed
    moreover have "\<exists>l. lease_table ?s' = ?tab[i := l] \<and> allocated l \<and> lease_ip l = pool_addr i \<and>
        lease_start l = t1 \<and> lease_expiry l = t1 + 180000"
      by (intro exI [of _ ?l]) simp
    ultimately show ?thesis using i tab(3,5) unfolding get by auto
  qed
qed

end
