(* ===== verification/Dhcp.thy ===== *)
theory Dhcp
  imports Dhcp_Options Dhcp_Leases Reactive
begin

text \<open>
  The DHCP server of \<open>src/dhcp.c\<close>: the three replies, the handler of a datagram and the
  receiving loop with its buffer.  The replies go to the broadcast address, so a sent
  datagram is its bytes.
\<close>

definition DHCP_DISCOVER :: u8 where "DHCP_DISCOVER = 1"
definition DHCP_OFFER :: u8 where "DHCP_OFFER = 2"
definition DHCP_REQUEST :: u8 where "DHCP_REQUEST = 3"
definition DHCP_ACK :: u8 where "DHCP_ACK = 5"
definition DHCP_NAK :: u8 where "DHCP_NAK = 6"

lemmas dhcp_messages = DHCP_DISCOVER_def DHCP_OFFER_def DHCP_REQUEST_def DHCP_ACK_def DHCP_NAK_def

section \<open>Replies\<close>

definition addr_bytes :: "u32 \<Rightarrow> buf" where
  "addr_bytes w = [byte32 0 w, byte32 1 w, byte32 2 w, byte32 3 w]"

text \<open>The options of an offer and of an acknowledgement, and the place where they start.\<close>

definition lease_options :: "u8 \<Rightarrow> u32 \<Rightarrow> buf" where
  "lease_options message_type ip =
     [DHCP_OPTION_MESSAGE_TYPE, 1, message_type]
     @ [DHCP_OPTION_REQUESTED_IP, 4] @ addr_bytes ip
     @ [DHCP_OPTION_LEASE_TIME, 4] @ addr_bytes (htonl 18000)
     @ [DHCP_OPTION_SUBNET_MASK, 4] @ addr_bytes (inet_addr 255 255 255 0)
     @ [DHCP_OPTION_ROUTER, 4] @ addr_bytes (inet_addr 192 168 1 1)
     @ [DHCP_OPTION_DNS, 4] @ addr_bytes (inet_addr 8 8 8 8)
     @ [DHCP_END]"

definition reply_options_at :: nat where "reply_options_at = 240 * 4"

definition offer_packet :: "buf \<Rightarrow> u32 \<Rightarrow> buf res" where
  "offer_packet buffer offered_ip =
     ebind (rd_bytes buffer 0 240) (\<lambda>hdr.
     ebind (wr_bytes (replicate DHCP_BUFFER_SIZE 0) 0 hdr) (\<lambda>p0.
     ebind (wr8 p0 0 0x02) (\<lambda>p1.
     ebind (wr_bytes p1 16 (addr_bytes offered_ip)) (\<lambda>p2.
     ebind (wr_bytes p2 24 (addr_bytes (inet_addr 192 168 1 1))) (\<lambda>p3.
     ebind (wr_bytes p3 24 (addr_bytes (inet_addr 192 168 1 1))) (\<lambda>p4.
     let options = lease_options DHCP_OFFER offered_ip in
     ebind (wr_bytes p4 reply_options_at options) (\<lambda>p5.
       rd_bytes p5 0 (reply_options_at + length options))))))))"

definition ack_packet :: "buf \<Rightarrow> u32 \<Rightarrow> buf res" where
  "ack_packet buffer allocated_ip =
     ebind (rd_bytes buffer 0 240) (\<lambda>hdr.
     ebind (wr_bytes (replicate DHCP_BUFFER_SIZE 0) 0 hdr) (\<lambda>p0.
     ebind (wr8 p0 0 0x02) (\<lambda>p1.
     ebind (wr_bytes p1 16 (addr_bytes allocated_ip)) (\<lambda>p2.
     let options = lease_options DHCP_ACK allocated_ip in
     ebind (wr_bytes p2 reply_options_at options) (\<lambda>p3.
       rd_bytes p3 0 (reply_options_at + length options))))))"

definition nak_packet :: "buf \<Rightarrow> buf res" where
  "nak_packet buffer =
     ebind (rd_bytes buffer 0 (240 * 4)) (\<lambda>hdr.
     ebind (wr_bytes (replicate DHCP_BUFFER_SIZE 0) 0 hdr) (\<lambda>p0.
     ebind (wr8 p0 0 0x02) (\<lambda>p1.
     let options = [DHCP_OPTION_MESSAGE_TYPE, 1, DHCP_NAK, DHCP_END] in
     ebind (wr_bytes p1 reply_options_at options) (\<lambda>p2.
       rd_bytes p2 0 (reply_options_at + length options)))))"

definition dhcp_send :: "dhcp_state \<Rightarrow> buf \<Rightarrow> dhcp_state" where
  "dhcp_send s packet = s\<lparr>dhcp_sent := dhcp_sent s @ [packet]\<rparr>"

definition send_dhcp_offer :: "dhcp_state \<Rightarrow> buf \<Rightarrow> dhcp_state res" where
  "send_dhcp_offer s buffer =
     (let (offered_ip, s1) = get_available_ip s in
      ebind (offer_packet buffer offered_ip) (\<lambda>p. Inr (dhcp_send s1 p)))"

definition send_dhcp_ack :: "dhcp_state \<Rightarrow> u32 \<Rightarrow> buf \<Rightarrow> dhcp_state res" where
  "send_dhcp_ack s allocated_ip buffer = ebind (ack_packet buffer allocated_ip) (\<lambda>p. Inr (dhcp_send s p))"

definition send_dhcp_nak :: "dhcp_state \<Rightarrow> buf \<Rightarrow> dhcp_state res" where
  "send_dhcp_nak s buffer = ebind (nak_packet buffer) (\<lambda>p. Inr (dhcp_send s p))"

section \<open>The handler\<close>

text \<open>The loop of \<open>handle_dhcp_packet\<close> with the read of the value; 0 if there is none.\<close>

definition message_type_of :: "buf \<Rightarrow> nat \<Rightarrow> u8 res" where
  "message_type_of buffer recv_len =
     ebind (scan_option buffer recv_len DHCP_OPTION_MESSAGE_TYPE 240) (\<lambda>found.
       case found of None \<Rightarrow> Inr 0 | Some off \<Rightarrow> rd8 buffer (off + 2))"

definition extract_requested_ip :: "buf \<Rightarrow> u32 res" where
  "extract_requested_ip buffer =
     ebind (scan_option buffer DHCP_BUFFER_SIZE DHCP_OPTION_REQUESTED_IP 240) (\<lambda>found.
       case found of
         None \<Rightarrow> Inr 0
       | Some off \<Rightarrow> ebind (rd_bytes buffer (off + 2) 4) (\<lambda>bs. Inr (le32 (bs ! 0) (bs ! 1) (bs ! 2) (bs ! 3))))"

text \<open>
  A request tests the address twice, once for the log line and once to decide, and reads the
  clock each time.
\<close>

definition handle_dhcp_packet :: "dhcp_state \<Rightarrow> buf \<Rightarrow> nat \<Rightarrow> dhcp_state res" where
  "handle_dhcp_packet s buffer recv_len =
     ebind (message_type_of buffer recv_len) (\<lambda>message_type.
       if message_type = DHCP_DISCOVER then send_dhcp_offer s buffer
       else if message_type = DHCP_REQUEST then
         ebind (extract_requested_ip buffer) (\<lambda>requested_ip.
           let (_, s1) = is_ip_available s requested_ip in
           if \<not> is_ip_in_pool s1 requested_ip then send_dhcp_nak s1 buffer
           else
             let (available, s2) = is_ip_available s1 requested_ip in
             if available then send_dhcp_nak s2 buffer
             else send_dhcp_ack s2 requested_ip buffer)
       else Inr s)"

text \<open>
  The receiving loop: every datagram goes to the start of the same buffer, of which
  \<open>recvfrom\<close> writes at most its size; an empty datagram or an error is ignored.
\<close>

definition dhcp_receive :: "dhcp_state \<times> buf \<Rightarrow> buf option \<Rightarrow> (dhcp_state \<times> buf) res" where
  "dhcp_receive sb incoming =
     (let (s, buffer) = sb in
      case incoming of
        None \<Rightarrow> Inr (s, buffer)
      | Some datagram \<Rightarrow>
          let bytes = take DHCP_BUFFER_SIZE datagram;
              b = splice 0 bytes buffer
          in if length bytes > 0
             then ebind (handle_dhcp_packet s b (length bytes)) (\<lambda>s'. Inr (s', b))
             else Inr (s, b))"

text \<open>
  The start of the server: an empty table, then the socket, by whether it can be opened, tied
  to the interface and bound.  Each failure ends the whole process (\<open>None\<close>), the router
  included.
\<close>

definition dhcp_server_start :: "(nat \<Rightarrow> int) \<Rightarrow> buf \<Rightarrow> dhcp_state \<times> buf" where
  "dhcp_server_start clock buffer = (init_dhcp_pool (dhcp_at_start clock), buffer)"

definition dhcp_server_setup ::
    "bool \<Rightarrow> bool \<Rightarrow> bool \<Rightarrow> (nat \<Rightarrow> int) \<Rightarrow> buf \<Rightarrow> (dhcp_state \<times> buf) option" where
  "dhcp_server_setup opened tied bound clock buffer =
     (let start = dhcp_server_start clock buffer in
      if \<not> opened then None else if \<not> tied then None else if \<not> bound then None else Some start)"

section \<open>What the replies contain\<close>

lemma length_addr_bytes [simp]: "length (addr_bytes w) = 4"
  by (simp add: addr_bytes_def)

lemma addr_bytes_inet [simp]: "addr_bytes (inet_addr a b c d) = [a, b, c, d]"
  by (simp add: addr_bytes_def inet_addr_def)

lemma length_lease_options [simp]: "length (lease_options m ip) = 34"
  by (simp add: lease_options_def)

lemma take_splice_front: "i + length bs \<le> length b \<Longrightarrow> take (i + length bs) (splice i bs b) = take i b @ bs"
  by (simp add: splice_def)

text \<open>A reply in parts: the copied header with its changes, zeros, the options.\<close>

definition reply_header :: "buf \<Rightarrow> u32 \<Rightarrow> buf" where
  "reply_header buffer ip = splice 16 (addr_bytes ip) ((take 240 buffer)[0 := 0x02])"

lemma splice_zeros: "length bs \<le> n \<Longrightarrow> splice 0 bs (replicate n 0) = bs @ replicate (n - length bs) 0"
  by (simp add: splice_def)

lemma splice_append1: "i + length bs \<le> length b \<Longrightarrow> splice i bs (b @ c) = splice i bs b @ c"
  by (simp add: splice_def)

lemma splice_twice: "i + length bs \<le> length b \<Longrightarrow> splice i bs (splice i bs b) = splice i bs b"
  by (simp add: splice_def)

text \<open>The steps the replies share: the copied header, and the options behind the zeros.\<close>

lemma copy_header:
  assumes "240 \<le> length buffer"
  shows "rd_bytes buffer 0 240 = Inr (take 240 buffer)"
    and "wr_bytes (replicate DHCP_BUFFER_SIZE 0) 0 (take 240 buffer) = Inr (take 240 buffer @ replicate 784 0)"
    and "wr8 (take 240 buffer @ replicate 784 0) 0 2 = Inr ((take 240 buffer)[0 := 2] @ replicate 784 0)"
    and "wr_bytes ((take 240 buffer)[0 := 2] @ replicate 784 0) 16 (addr_bytes ip) =
      Inr (reply_header buffer ip @ replicate 784 0)"
    and "length (reply_header buffer ip) = 240"
proof -
  have len: "length (take 240 buffer) = 240" using assms by simp
  show "rd_bytes buffer 0 240 = Inr (take 240 buffer)" using assms by (simp add: rd_bytes_ok)
  show "wr_bytes (replicate DHCP_BUFFER_SIZE 0) 0 (take 240 buffer) = Inr (take 240 buffer @ replicate 784 0)"
    using len by (simp add: wr_bytes_ok splice_zeros DHCP_BUFFER_SIZE_def)
  show "wr8 (take 240 buffer @ replicate 784 0) 0 2 = Inr ((take 240 buffer)[0 := 2] @ replicate 784 0)"
    using len by (simp add: wr8_def list_update_append)
  have "splice 16 (addr_bytes ip) ((take 240 buffer)[0 := 2] @ replicate 784 0) =
      reply_header buffer ip @ replicate 784 0"
    unfolding reply_header_def using assms by (intro splice_append1) simp
  then show "wr_bytes ((take 240 buffer)[0 := 2] @ replicate 784 0) 16 (addr_bytes ip) =
      Inr (reply_header buffer ip @ replicate 784 0)"
    using len by (simp add: wr_bytes_ok)
  show "length (reply_header buffer ip) = 240" using assms by (simp add: reply_header_def length_splice)
qed

lemma append_options:
  assumes "length hdr = 960" and "n = length opts" and "n \<le> 64"
  shows "ebind (wr_bytes (hdr @ replicate 64 0) reply_options_at opts)
      (\<lambda>p. rd_bytes p 0 (reply_options_at + n)) = Inr (hdr @ opts)"
proof -
  have fits: "reply_options_at + length opts \<le> length (hdr @ replicate 64 0)"
    using assms by (simp add: reply_options_at_def)
  have "take (reply_options_at + length opts) (splice reply_options_at opts (hdr @ replicate 64 0)) = hdr @ opts"
    using take_splice_front [OF fits] assms(1) by (simp add: reply_options_at_def)
  with fits assms(2) show ?thesis by (simp add: wr_bytes_ok rd_bytes_ok length_splice)
qed

lemma append_lease_options:
  assumes "length hdr = 240"
  shows "ebind (wr_bytes (hdr @ replicate 784 0) reply_options_at (lease_options m ip))
      (\<lambda>p. rd_bytes p 0 (reply_options_at + length (lease_options m ip))) =
    Inr (hdr @ replicate 720 0 @ lease_options m ip)"
proof -
  have "hdr @ replicate 784 (0 :: u8) = (hdr @ replicate 720 0) @ replicate 64 0"
    by (simp flip: replicate_add)
  then show ?thesis
    using append_options [of "hdr @ replicate 720 0" 34 "lease_options m ip"] assms by simp
qed

lemma ack_packet_spec:
  assumes "240 \<le> length buffer"
  shows "ack_packet buffer ip = Inr (reply_header buffer ip @ replicate 720 0 @ lease_options DHCP_ACK ip)"
  by (simp only: ack_packet_def copy_header(1-4) [OF assms] ebind.simps Let_def
      append_lease_options [OF copy_header(5) [OF assms]])

text \<open>The offer also has the server's address in the field of the relay agent, written twice.\<close>

definition offer_header :: "buf \<Rightarrow> u32 \<Rightarrow> buf" where
  "offer_header buffer ip = splice 24 [192, 168, 1, 1] (reply_header buffer ip)"

lemma length_offer_header: "240 \<le> length buffer \<Longrightarrow> length (offer_header buffer ip) = 240"
  using copy_header(5) by (simp add: offer_header_def length_splice)

lemma offer_packet_spec:
  assumes "240 \<le> length buffer"
  shows "offer_packet buffer ip = Inr (offer_header buffer ip @ replicate 720 0 @ lease_options DHCP_OFFER ip)"
proof -
  note len = copy_header(5) [OF assms, of ip] length_offer_header [OF assms, of ip]
  have once: "wr_bytes (reply_header buffer ip @ replicate 784 0) 24 (addr_bytes (inet_addr 192 168 1 1)) =
      Inr (offer_header buffer ip @ replicate 784 0)"
    using len by (simp add: wr_bytes_ok splice_append1 offer_header_def)
  have "wr_bytes (offer_header buffer ip @ replicate 784 0) 24 (addr_bytes (inet_addr 192 168 1 1)) =
      Inr (offer_header buffer ip @ replicate 784 0)"
    using len by (simp add: wr_bytes_ok splice_append1 offer_header_def splice_twice)
  with once show ?thesis
    by (simp only: offer_packet_def copy_header(1-4) [OF assms] ebind.simps Let_def append_lease_options [OF len(2)])
qed

lemma nak_packet_spec:
  assumes "960 \<le> length buffer"
  shows "nak_packet buffer =
    Inr ((take 960 buffer)[0 := 2] @ [DHCP_OPTION_MESSAGE_TYPE, 1, DHCP_NAK, DHCP_END])"
proof -
  have len: "length (take 960 buffer) = 960" using assms by simp
  have "rd_bytes buffer 0 (240 * 4) = Inr (take 960 buffer)" using assms by (simp add: rd_bytes_ok)
  moreover have "wr_bytes (replicate DHCP_BUFFER_SIZE 0) 0 (take 960 buffer) = Inr (take 960 buffer @ replicate 64 0)"
    using len by (simp add: wr_bytes_ok splice_zeros DHCP_BUFFER_SIZE_def)
  moreover have "wr8 (take 960 buffer @ replicate 64 0) 0 2 = Inr ((take 960 buffer)[0 := 2] @ replicate 64 0)"
    using len by (simp add: wr8_def list_update_append)
  ultimately show ?thesis
    using append_options [OF _ refl, of "(take 960 buffer)[0 := 2]" "[DHCP_OPTION_MESSAGE_TYPE, 1, DHCP_NAK, DHCP_END]"] len
    by (simp add: nak_packet_def)
qed

section \<open>The branches of the handler\<close>

lemma handle_discover:
  assumes "message_type_of buffer n = Inr DHCP_DISCOVER" and "240 \<le> length buffer"
  shows "handle_dhcp_packet s buffer n = Inr (case get_available_ip s of (ip, s') \<Rightarrow>
    dhcp_send s' (offer_header buffer ip @ replicate 720 0 @ lease_options DHCP_OFFER ip))"
  using assms by (simp add: handle_dhcp_packet_def send_dhcp_offer_def offer_packet_spec split: prod.split)

lemma handle_request:
  assumes inv: "lease_inv s" and "message_type_of buffer n = Inr DHCP_REQUEST"
    and "extract_requested_ip buffer = Inr ip" and len: "960 \<le> length buffer"
  shows "\<exists>j k. clock_pos s \<le> j \<and> j \<le> clock_pos s + 1 \<and> j \<le> k \<and> k \<le> j + 1 \<and>
    handle_dhcp_packet s buffer n = Inr (dhcp_send (s\<lparr>clock_pos := k\<rparr>)
      (if leased s (clock_seq s j) ip
       then reply_header buffer ip @ replicate 720 0 @ lease_options DHCP_ACK ip
       else (take 960 buffer)[0 := 2] @ [DHCP_OPTION_MESSAGE_TYPE, 1, DHCP_NAK, DHCP_END]))"
proof -
  have len': "240 \<le> length buffer" using len by simp
  note nak = nak_packet_spec [OF len] and ack = ack_packet_spec [OF len', of ip]
  from is_ip_available_spec [OF inv, of ip] obtain j a where
    j: "is_ip_available s ip = (a, s\<lparr>clock_pos := j\<rparr>)" "clock_pos s \<le> j" "j \<le> clock_pos s + 1" by blast
  let ?s = "s\<lparr>clock_pos := j\<rparr>"
  have inv1: "lease_inv ?s" using inv by simp
  from is_ip_available_spec [OF inv1, of ip] obtain k where
    k: "is_ip_available ?s ip = (\<not> leased s (clock_seq s j) ip, s\<lparr>clock_pos := k\<rparr>)" "j \<le> k" "k \<le> j + 1" by auto
  have request: "DHCP_REQUEST \<noteq> DHCP_DISCOVER" by (simp add: dhcp_messages)
  show ?thesis
  proof (cases "is_ip_in_pool ?s ip")
    case True
    then have "handle_dhcp_packet s buffer n = Inr (dhcp_send (s\<lparr>clock_pos := k\<rparr>)
      (if leased s (clock_seq s j) ip
       then reply_header buffer ip @ replicate 720 0 @ lease_options DHCP_ACK ip
       else (take 960 buffer)[0 := 2] @ [DHCP_OPTION_MESSAGE_TYPE, 1, DHCP_NAK, DHCP_END]))"
      using assms(2,3) request j(1) k(1) nak ack
      by (simp add: handle_dhcp_packet_def send_dhcp_nak_def send_dhcp_ack_def)
    with j(2,3) k(2,3) show ?thesis by blast
  next
    case False
    then have "\<not> leased s (clock_seq s j) ip" using leased_in_pool [OF inv1] by auto
    with False have "handle_dhcp_packet s buffer n = Inr (dhcp_send (s\<lparr>clock_pos := j\<rparr>)
      (if leased s (clock_seq s j) ip
       then reply_header buffer ip @ replicate 720 0 @ lease_options DHCP_ACK ip
       else (take 960 buffer)[0 := 2] @ [DHCP_OPTION_MESSAGE_TYPE, 1, DHCP_NAK, DHCP_END]))"
      using assms(2,3) request j(1) nak by (simp add: handle_dhcp_packet_def send_dhcp_nak_def)
    with j(2,3) show ?thesis by (intro exI [of _ j]) simp
  qed
qed

lemma handle_other:
  assumes "message_type_of buffer n = Inr t" and "t \<noteq> DHCP_DISCOVER" and "t \<noteq> DHCP_REQUEST"
  shows "handle_dhcp_packet s buffer n = Inr s"
  using assms by (simp add: handle_dhcp_packet_def)

section \<open>Reading messages\<close>

lemma value_at:
  assumes "length pre = 240" and "first_option code opts = Some (k, v)"
  shows "take (length v) (drop (240 + k + 2) (pre @ encode_options opts @ rest)) = v"
    "240 + k + 2 + length v \<le> length (pre @ encode_options opts @ rest)"
proof -
  from first_option_at [OF assms(2)] obtain tl where
    tl: "drop k (encode_options opts) = code # of_nat (length v) # v @ tl" by blast
  have k: "k + 2 + length v \<le> length (encode_options opts)"
    using arg_cong [OF tl, of length] by simp
  have "drop (k + 2) (encode_options opts) = v @ tl"
    using arg_cong [OF tl, of "drop 2"] by (simp add: add.commute)
  with k show "take (length v) (drop (240 + k + 2) (pre @ encode_options opts @ rest)) = v"
    using assms(1) by (simp add: add.assoc)
  show "240 + k + 2 + length v \<le> length (pre @ encode_options opts @ rest)" using k assms(1) by simp
qed

text \<open>A message with well-formed options: header, options, the end option and what follows.\<close>

definition message :: "buf \<Rightarrow> dhcp_option list \<Rightarrow> buf \<Rightarrow> buf" where
  "message hdr opts rest = hdr @ encode_options opts @ DHCP_END # rest"

lemma message_type_of_message:
  assumes "length hdr = 240" and "\<forall>opt \<in> set opts. option_ok opt" and "240 + length (encode_options opts) \<le> n"
    and "\<And>k v. first_option DHCP_OPTION_MESSAGE_TYPE opts = Some (k, v) \<Longrightarrow> v \<noteq> []"
  shows "message_type_of (message hdr opts rest) n =
    Inr (case first_option DHCP_OPTION_MESSAGE_TYPE opts of None \<Rightarrow> 0 | Some (_, v) \<Rightarrow> hd v)"
proof -
  have "DHCP_OPTION_MESSAGE_TYPE \<noteq> DHCP_END" by (simp add: dhcp_options)
  from scan_encoded [OF assms(2) this refl, of hdr n rest] assms(1,3) have
    scan: "scan_option (message hdr opts rest) n DHCP_OPTION_MESSAGE_TYPE 240 =
      Inr (map_option (\<lambda>(k, v). 240 + k) (first_option DHCP_OPTION_MESSAGE_TYPE opts))"
    by (simp add: message_def)
  show ?thesis
  proof (cases "first_option DHCP_OPTION_MESSAGE_TYPE opts")
    case None
    with scan show ?thesis by (simp add: message_type_of_def)
  next
    case (Some kv)
    obtain k v where kv: "first_option DHCP_OPTION_MESSAGE_TYPE opts = Some (k, v)" using Some by (cases kv) simp
    note at = value_at [OF assms(1) kv, of "DHCP_END # rest"]
    have "v \<noteq> []" by (rule assms(4) [OF kv])
    then have pos: "0 < length v" by simp
    then have inside: "240 + k + 2 < length (message hdr opts rest)"
      using at(2) unfolding message_def by linarith
    have "message hdr opts rest ! (240 + k + 2) = take (length v) (drop (240 + k + 2) (message hdr opts rest)) ! 0"
      using pos inside by simp
    also have "\<dots> = hd v" using at(1) \<open>v \<noteq> []\<close> unfolding message_def by (simp only: hd_conv_nth not_False_eq_True)
    finally have "message hdr opts rest ! (240 + k + 2) = hd v" .
    with inside scan kv show ?thesis by (simp add: message_type_of_def rd8_ok)
  qed
qed

lemma requested_ip_of_message:
  assumes "length hdr = 240" and "\<forall>opt \<in> set opts. option_ok opt"
    and "240 + length (encode_options opts) \<le> DHCP_BUFFER_SIZE"
    and "\<And>k v. first_option DHCP_OPTION_REQUESTED_IP opts = Some (k, v) \<Longrightarrow> length v = 4"
  shows "extract_requested_ip (message hdr opts rest) =
    Inr (case first_option DHCP_OPTION_REQUESTED_IP opts of None \<Rightarrow> 0
         | Some (_, v) \<Rightarrow> inet_addr (v ! 0) (v ! 1) (v ! 2) (v ! 3))"
proof -
  have "DHCP_OPTION_REQUESTED_IP \<noteq> DHCP_END" by (simp add: dhcp_options)
  from scan_encoded [OF assms(2) this refl, of hdr DHCP_BUFFER_SIZE rest] assms(1,3) have
    scan: "scan_option (message hdr opts rest) DHCP_BUFFER_SIZE DHCP_OPTION_REQUESTED_IP 240 =
      Inr (map_option (\<lambda>(k, v). 240 + k) (first_option DHCP_OPTION_REQUESTED_IP opts))"
    by (simp add: message_def)
  show ?thesis
  proof (cases "first_option DHCP_OPTION_REQUESTED_IP opts")
    case None
    with scan show ?thesis by (simp add: extract_requested_ip_def)
  next
    case (Some kv)
    obtain k v where kv: "first_option DHCP_OPTION_REQUESTED_IP opts = Some (k, v)" using Some by (cases kv) simp
    note at = value_at [OF assms(1) kv, of "DHCP_END # rest"]
    have "rd_bytes (message hdr opts rest) (240 + k + 2) 4 = Inr v"
      using at assms(4) [OF kv] unfolding message_def by (simp add: rd_bytes_def)
    with scan kv show ?thesis by (simp add: extract_requested_ip_def inet_addr_def)
  qed
qed

section \<open>What the scan reads beyond a message\<close>

lemma message_type_in_bounds:
  assumes "length buffer = DHCP_BUFFER_SIZE" and "n < 768"
  shows "\<exists>t. message_type_of buffer n = Inr t"
proof (cases "240 \<le> n + 256")
  case True
  have "n + 256 < length buffer" using assms by (simp add: DHCP_BUFFER_SIZE_def)
  from scan_in_bounds [OF this True, of DHCP_OPTION_MESSAGE_TYPE] obtain r where
    r: "scan_option buffer n DHCP_OPTION_MESSAGE_TYPE 240 = Inr r" "\<forall>k. r = Some k \<longrightarrow> 240 \<le> k \<and> k < n" by blast
  then show ?thesis using assms
    by (cases r) (auto simp: message_type_of_def rd8_def DHCP_BUFFER_SIZE_def)
qed simp

text \<open>A request that names no address and lacks the end option, in an otherwise blank buffer.\<close>

definition bare_request :: "buf \<Rightarrow> buf" where
  "bare_request hdr = hdr @ [DHCP_OPTION_MESSAGE_TYPE, 1, DHCP_REQUEST] @ replicate 781 0"

lemma bare_request_read:
  assumes "length hdr = 240"
  shows "243 \<le> n \<Longrightarrow> message_type_of (bare_request hdr) n = Inr DHCP_REQUEST"
    and "extract_requested_ip (bare_request hdr) = Inl OutOfBounds"
proof -
  let ?b = "bare_request hdr"
  have len: "length ?b = 1024" using assms by (simp add: bare_request_def)
  have at: "?b ! 240 = DHCP_OPTION_MESSAGE_TYPE" "?b ! Suc 240 = 1" "?b ! 242 = DHCP_REQUEST"
    using assms by (simp_all add: bare_request_def nth_append)
  have zero: "?b ! i = 0" if "243 \<le> i" "i < 1024" for i
    using that assms by (simp add: bare_request_def nth_append)
  have codes: "DHCP_OPTION_MESSAGE_TYPE \<noteq> DHCP_END" "DHCP_OPTION_MESSAGE_TYPE \<noteq> DHCP_OPTION_REQUESTED_IP"
    "DHCP_OPTION_REQUESTED_IP \<noteq> 0" "(0 :: u8) \<noteq> DHCP_END"
    by (simp_all add: dhcp_options)
  have "scan_option ?b n DHCP_OPTION_MESSAGE_TYPE 240 = Inr (Some 240)" if "243 \<le> n"
    by (rule scan_hit) (use len at codes that in simp_all)
  then show "message_type_of ?b n = Inr DHCP_REQUEST" if "243 \<le> n"
    using at len that by (simp add: message_type_of_def rd8_ok)
  have "scan_option ?b DHCP_BUFFER_SIZE DHCP_OPTION_REQUESTED_IP 240 =
      scan_option ?b DHCP_BUFFER_SIZE DHCP_OPTION_REQUESTED_IP (240 + 2 + unat (?b ! Suc 240))"
    by (rule scan_next) (use len at codes in \<open>simp_all add: DHCP_BUFFER_SIZE_def\<close>)
  also have "240 + 2 + unat (?b ! Suc 240) = 243" unfolding at(2) by simp
  also have "scan_option ?b DHCP_BUFFER_SIZE DHCP_OPTION_REQUESTED_IP 243 =
      scan_option ?b DHCP_BUFFER_SIZE DHCP_OPTION_REQUESTED_IP (243 + 2 * 390)"
    by (rule scan_zeros) (use len codes zero in \<open>simp_all add: DHCP_BUFFER_SIZE_def\<close>)
  also have "\<dots> = Inl OutOfBounds"
    by (rule scan_no_length) (use len codes zero [of 1023] in \<open>simp_all add: DHCP_BUFFER_SIZE_def\<close>)
  finally show "extract_requested_ip ?b = Inl OutOfBounds" by (simp add: extract_requested_ip_def)
qed

section \<open>Reading replies\<close>

lemma take_four: "i + 4 \<le> length b \<Longrightarrow> take 4 (drop i b) = [b ! i, b ! (i + 1), b ! (i + 2), b ! (i + 3)]"
  by (simp add: Cons_nth_drop_Suc [symmetric] numeral_eq_Suc)

lemma lease_options_encoded:
  "lease_options m ip = encode_options [(DHCP_OPTION_MESSAGE_TYPE, [m]), (DHCP_OPTION_REQUESTED_IP, addr_bytes ip),
     (DHCP_OPTION_LEASE_TIME, addr_bytes (htonl 18000)), (DHCP_OPTION_SUBNET_MASK, [255, 255, 255, 0]),
     (DHCP_OPTION_ROUTER, [192, 168, 1, 1]), (DHCP_OPTION_DNS, [8, 8, 8, 8])] @ [DHCP_END]"
  by (simp add: lease_options_def encode_option_def)

lemma reply_parses:
  assumes "length hdr = 240"
  shows "message_type_of (hdr @ replicate 720 0 @ lease_options m ip) 994 = Inr m"
    and "extract_requested_ip (hdr @ replicate 720 0 @ lease_options m ip) = Inr ip"
proof -
  let ?b = "hdr @ replicate 720 0 @ lease_options m ip"
  have len: "length ?b = 994" using assms by simp
  have opts: "?b ! (960 + i) = lease_options m ip ! i" for i using assms by (simp add: nth_append)
  have zero: "?b ! i = 0" if "240 \<le> i" "i < 960" for i
  proof -
    have "i - 240 < 720" using that by linarith
    with that assms show ?thesis by (simp add: nth_append)
  qed
  have at: "?b ! 960 = 53" "?b ! Suc 960 = 1" "?b ! 962 = m" "?b ! 963 = 50" "?b ! 965 = byte32 0 ip"
    "?b ! 966 = byte32 1 ip" "?b ! 967 = byte32 2 ip" "?b ! 968 = byte32 3 ip"
    using opts [of 0] opts [of 1] opts [of 2] opts [of 3] opts [of 5] opts [of 6] opts [of 7] opts [of 8]
    by (simp_all add: lease_options_def dhcp_options addr_bytes_def)
  have to_options: "scan_option ?b limit code 240 = scan_option ?b limit code 960"
    if "code \<noteq> 0" "960 \<le> limit" for code limit
    using scan_zeros [of code 240 360 ?b limit] that zero len by simp
  have "scan_option ?b 994 DHCP_OPTION_MESSAGE_TYPE 960 = Inr (Some 960)"
    by (rule scan_hit) (use len at in \<open>simp_all add: dhcp_options\<close>)
  then show "message_type_of ?b 994 = Inr m"
    using to_options [of DHCP_OPTION_MESSAGE_TYPE 994] at len
    by (simp add: message_type_of_def rd8_ok dhcp_options del: append_assoc)
  have "scan_option ?b 1024 DHCP_OPTION_REQUESTED_IP 960 =
      scan_option ?b 1024 DHCP_OPTION_REQUESTED_IP (960 + 2 + unat (?b ! Suc 960))"
    by (rule scan_next) (use len at in \<open>simp_all add: dhcp_options\<close>)
  also have "960 + 2 + unat (?b ! Suc 960) = 963" unfolding at(2) by simp
  also have "scan_option ?b 1024 DHCP_OPTION_REQUESTED_IP 963 = Inr (Some 963)"
    by (rule scan_hit) (use len at in \<open>simp_all add: dhcp_options\<close>)
  finally have "scan_option ?b DHCP_BUFFER_SIZE DHCP_OPTION_REQUESTED_IP 240 = Inr (Some 963)"
    using to_options [of DHCP_OPTION_REQUESTED_IP 1024] by (simp add: DHCP_BUFFER_SIZE_def dhcp_options)
  moreover have "rd_bytes ?b 965 4 = Inr (addr_bytes ip)"
  proof -
    have "take 4 (drop 965 ?b) = [?b ! 965, ?b ! 966, ?b ! 967, ?b ! 968]"
      using take_four [of 965 ?b] len by simp
    then show ?thesis using len at unfolding rd_bytes_def addr_bytes_def by simp
  qed
  ultimately show "extract_requested_ip ?b = Inr ip"
    by (simp add: extract_requested_ip_def addr_bytes_def)
qed

section \<open>The server as a reactive system\<close>

text \<open>The addresses a reply may name; what every sent datagram looks like.\<close>

definition reply_ok :: "buf \<Rightarrow> bool" where
  "reply_ok p \<longleftrightarrow> length p = 964 \<or>
     length p = 994 \<and> (\<exists>ip. extract_requested_ip p = Inr ip \<and>
       (ip = inet_addr 0 0 0 0 \<or> (\<exists>i < MAX_LEASES. ip = pool_addr i)))"

definition dhcp_sound :: "dhcp_state \<times> buf \<Rightarrow> bool" where
  "dhcp_sound sb \<longleftrightarrow> lease_inv (fst sb) \<and> length (snd sb) = DHCP_BUFFER_SIZE \<and>
     (\<forall>p \<in> set (dhcp_sent (fst sb)). reply_ok p)"

lemma lease_reply_ok:
  assumes "length hdr = 240" and "ip = inet_addr 0 0 0 0 \<or> (\<exists>i < MAX_LEASES. ip = pool_addr i)"
  shows "reply_ok (hdr @ replicate 720 0 @ lease_options m ip)"
  using reply_parses(2) [OF assms(1), of m ip] assms by (auto simp: reply_ok_def)

lemma leased_pool_addr: "lease_inv s \<Longrightarrow> leased s now ip \<Longrightarrow> \<exists>i < MAX_LEASES. ip = pool_addr i"
  by (fastforce simp: leased_def running_def lease_inv_def in_set_conv_nth)

lemma dhcp_send_fields [simp]:
  "lease_inv (dhcp_send s p) = lease_inv s" "dhcp_sent (dhcp_send s p) = dhcp_sent s @ [p]"
  "lease_table (dhcp_send s p) = lease_table s"
  by (simp_all add: dhcp_send_def)

lemma handle_sound:
  assumes inv: "lease_inv s" and len: "length b = DHCP_BUFFER_SIZE" and sent: "\<forall>p \<in> set (dhcp_sent s). reply_ok p"
    and res: "handle_dhcp_packet s b n = Inr s'"
  shows "lease_inv s' \<and> (\<forall>p \<in> set (dhcp_sent s'). reply_ok p)"
proof -
  have l: "240 \<le> length b" "960 \<le> length b" using len by (simp_all add: DHCP_BUFFER_SIZE_def)
  from res obtain t where t: "message_type_of b n = Inr t" by (auto simp: handle_dhcp_packet_def ebind_Inr_iff)
  consider "t = DHCP_DISCOVER" | "t = DHCP_REQUEST" | "t \<noteq> DHCP_DISCOVER" "t \<noteq> DHCP_REQUEST" by blast
  then show ?thesis
  proof cases
    case 1
    obtain ip s1 where get: "get_available_ip s = (ip, s1)" by (cases "get_available_ip s")
    from get_available_ip_spec [OF inv] get have g: "lease_inv s1" "dhcp_sent s1 = dhcp_sent s"
      "ip = inet_addr 0 0 0 0 \<or> (\<exists>i < MAX_LEASES. ip = pool_addr i)" by auto
    have "s' = dhcp_send s1 (offer_header b ip @ replicate 720 0 @ lease_options DHCP_OFFER ip)"
      using handle_discover [OF t [unfolded 1] l(1)] get res by simp
    with g sent lease_reply_ok [OF length_offer_header [OF l(1)] g(3)] show ?thesis by simp
  next
    case 2
    have "DHCP_REQUEST \<noteq> DHCP_DISCOVER" by (simp add: dhcp_messages)
    with res t 2 obtain ip where ip: "extract_requested_ip b = Inr ip"
      by (auto simp: handle_dhcp_packet_def ebind_Inr_iff)
    from handle_request [OF inv t [unfolded 2] ip l(2)] res obtain j k where
      s': "s' = dhcp_send (s\<lparr>clock_pos := k\<rparr>)
        (if leased s (clock_seq s j) ip
         then reply_header b ip @ replicate 720 0 @ lease_options DHCP_ACK ip
         else (take 960 b)[0 := 2] @ [DHCP_OPTION_MESSAGE_TYPE, 1, DHCP_NAK, DHCP_END])" by auto
    show ?thesis
    proof (cases "leased s (clock_seq s j) ip")
      case True
      with leased_pool_addr [OF inv] have "\<exists>i < MAX_LEASES. ip = pool_addr i" by blast
      with lease_reply_ok [OF copy_header(5) [OF l(1)], of ip ip DHCP_ACK] s' True inv sent show ?thesis by simp
    next
      case False
      have "reply_ok ((take 960 b)[0 := 2] @ [DHCP_OPTION_MESSAGE_TYPE, 1, DHCP_NAK, DHCP_END])"
        using l(2) by (simp add: reply_ok_def)
      with s' False inv sent show ?thesis by simp
    qed
  next
    case 3
    with handle_other [OF t] res inv sent show ?thesis by simp
  qed
qed

lemma dhcp_step:
  assumes "dhcp_sound sb" and "dhcp_receive sb incoming = Inr sb'"
  shows "dhcp_sound sb'"
proof -
  obtain s b where sb: "sb = (s, b)" by (cases sb)
  have inv: "lease_inv s" "length b = DHCP_BUFFER_SIZE" "\<forall>p \<in> set (dhcp_sent s). reply_ok p"
    using assms(1) sb by (simp_all add: dhcp_sound_def)
  show ?thesis
  proof (cases incoming)
    case None
    with assms sb show ?thesis by (simp add: dhcp_receive_def)
  next
    case (Some d)
    let ?bs = "take DHCP_BUFFER_SIZE d"
    let ?b = "splice 0 ?bs b"
    have len: "length ?b = DHCP_BUFFER_SIZE" using inv(2) by (simp add: length_splice)
    from assms(2) consider "sb' = (s, ?b)"
      | s' where "handle_dhcp_packet s ?b (length ?bs) = Inr s'" "sb' = (s', ?b)"
      unfolding sb Some dhcp_receive_def by (auto simp: Let_def ebind_Inr_iff split: if_splits)
    then show ?thesis
    proof cases
      case 1
      with inv len show ?thesis by (simp add: dhcp_sound_def)
    next
      case 2
      from handle_sound [OF inv(1) len inv(3) 2(1)] 2(2) len show ?thesis by (simp add: dhcp_sound_def)
    qed
  qed
qed

interpretation dhcp_server: safe_system dhcp_receive dhcp_sound
  by unfold_locales (rule dhcp_step)

lemma dhcp_start_sound:
  assumes "length buffer = DHCP_BUFFER_SIZE"
  shows "dhcp_sound (dhcp_server_start clock buffer)"
  using assms by (simp add: dhcp_sound_def dhcp_server_start_def lease_inv_def init_dhcp_pool_def
      dhcp_at_start_def no_lease_def)

lemma dhcp_setup_sound:
  assumes "length buffer = DHCP_BUFFER_SIZE"
  shows "case dhcp_server_setup opened tied bound clock buffer of
      None \<Rightarrow> \<not> (opened \<and> tied \<and> bound)
    | Some start \<Rightarrow> opened \<and> tied \<and> bound \<and> dhcp_sound start"
  using dhcp_start_sound [OF assms] by (simp add: dhcp_server_setup_def)

section \<open>Sample messages\<close>

definition blank_buffer :: buf where
  "blank_buffer = replicate DHCP_BUFFER_SIZE 0"

definition discover_options :: "dhcp_option list" where
  "discover_options = [(DHCP_OPTION_MESSAGE_TYPE, [DHCP_DISCOVER])]"

definition request_options :: "u32 \<Rightarrow> dhcp_option list" where
  "request_options ip = [(DHCP_OPTION_MESSAGE_TYPE, [DHCP_REQUEST]), (DHCP_OPTION_REQUESTED_IP, addr_bytes ip)]"

definition hdr_of :: "u8 \<Rightarrow> buf" where
  "hdr_of client = replicate 28 0 @ replicate 6 client @ replicate 206 0"

lemma length_hdr_of [simp]: "length (hdr_of client) = 240"
  by (simp add: hdr_of_def)

definition discover_from :: "u8 \<Rightarrow> buf" where
  "discover_from client = message (hdr_of client) discover_options (replicate 780 0)"

definition request_from :: "u8 \<Rightarrow> u32 \<Rightarrow> buf" where
  "request_from client ip = message (hdr_of client) (request_options ip) (replicate 774 0)"

lemma sample_lengths [simp]:
  "length (discover_from c) = 1024" "length (request_from c ip) = 1024"
  by (simp_all add: discover_from_def request_from_def message_def discover_options_def request_options_def encode_option_def)

lemma first_option_samples:
  "first_option DHCP_OPTION_MESSAGE_TYPE discover_options = Some (0, [DHCP_DISCOVER])"
  "first_option DHCP_OPTION_MESSAGE_TYPE (request_options ip) = Some (0, [DHCP_REQUEST])"
  "first_option DHCP_OPTION_REQUESTED_IP (request_options ip) = Some (3, addr_bytes ip)"
  "first_option DHCP_OPTION_REQUESTED_IP discover_options = None"
  "\<forall>opt \<in> set discover_options. option_ok opt" "\<forall>opt \<in> set (request_options ip). option_ok opt"
  by (simp_all add: first_option_simps discover_options_def request_options_def dhcp_options option_ok_def)

lemma sample_types:
  "message_type_of (discover_from c) 1024 = Inr DHCP_DISCOVER"
  "message_type_of (request_from c ip) 1024 = Inr DHCP_REQUEST"
  "extract_requested_ip (request_from c ip) = Inr ip"
proof -
  have size: "240 + length (encode_options discover_options) \<le> 1024"
    "240 + length (encode_options (request_options ip)) \<le> 1024"
    by (simp_all add: discover_options_def request_options_def encode_option_def)
  show "message_type_of (discover_from c) 1024 = Inr DHCP_DISCOVER"
    unfolding discover_from_def
    by (subst message_type_of_message) (use size first_option_samples in auto)
  show "message_type_of (request_from c ip) 1024 = Inr DHCP_REQUEST"
    unfolding request_from_def
    by (subst message_type_of_message) (use size first_option_samples in auto)
  show "extract_requested_ip (request_from c ip) = Inr ip"
    unfolding request_from_def
    by (subst requested_ip_of_message)
      (use size first_option_samples in \<open>auto simp: DHCP_BUFFER_SIZE_def addr_bytes_def inet_addr_def\<close>)
qed

lemma receive_full: "length d = 1024 \<Longrightarrow> length b = 1024 \<Longrightarrow>
  dhcp_receive (s, b) (Some d) = ebind (handle_dhcp_packet s d 1024) (\<lambda>s'. Inr (s', d))"
  by (cases d) (simp_all add: dhcp_receive_def DHCP_BUFFER_SIZE_def splice_def Let_def)

text \<open>The server at its start, on a machine whose clock stands at 1000, and after one client.\<close>

definition fresh_server :: dhcp_state where
  "fresh_server = fst (dhcp_server_start (\<lambda>_. 1000) blank_buffer)"

lemma fresh_inv: "lease_inv fresh_server"
  using dhcp_start_sound [of blank_buffer "\<lambda>_. 1000"]
  by (simp add: fresh_server_def dhcp_sound_def blank_buffer_def)

lemma fresh_offer:
  "\<exists>s. handle_dhcp_packet fresh_server (discover_from 7) 1024 = Inr s \<and> lease_inv s \<and>
     clock_seq s = (\<lambda>_. 1000) \<and> leased s 1000 (pool_addr 0) \<and> length (dhcp_sent s) = 1"
proof -
  obtain ip s1 where get: "get_available_ip fresh_server = (ip, s1)" by (cases "get_available_ip fresh_server")
  have fresh: "clock_seq fresh_server = (\<lambda>_. 1000)" "dhcp_sent fresh_server = []"
    "lease_table fresh_server = replicate MAX_LEASES no_lease" "length (lease_table fresh_server) = MAX_LEASES"
    by (simp_all add: fresh_server_def dhcp_server_start_def init_dhcp_pool_def dhcp_at_start_def)
  have none: "\<not> running 1000 (lease_table fresh_server ! i)" if "i < MAX_LEASES" for i
    using that by (simp add: fresh running_def no_lease_def)
  have some: "\<not> (\<forall>l \<in> set (lease_table fresh_server). running 1000 l)"
    using fresh by (simp add: running_def no_lease_def MAX_LEASES_def)
  from get_available_ip_spec [OF fresh_inv] get fresh some obtain i l where
    s1: "lease_inv s1" "dhcp_sent s1 = []" "clock_seq s1 = (\<lambda>_. 1000)" "i < MAX_LEASES"
      "ip = pool_addr i" "\<forall>j < i. running 1000 (lease_table fresh_server ! j)"
      "lease_table s1 = (map (expire_lease 1000) (lease_table fresh_server))[i := l]" "allocated l" "lease_ip l = ip"
      "lease_expiry l = 1000 + 180000" by auto
  have "i = 0"
  proof (rule ccontr)
    assume "i \<noteq> 0"
    with s1(6) have "running 1000 (lease_table fresh_server ! 0)" by simp
    with none [of 0] show False by (simp add: MAX_LEASES_def)
  qed
  then have "l \<in> set (lease_table s1)" using s1(4,7) fresh(4) by (simp add: set_update_memI)
  with s1(8-10) \<open>i = 0\<close> s1(5) have "leased s1 1000 (pool_addr 0)"
    by (auto simp: leased_def running_def)
  moreover have "leased (dhcp_send s1 p) 1000 (pool_addr 0) = leased s1 1000 (pool_addr 0)" for p
    by (simp add: leased_def)
  ultimately show ?thesis
    using s1(1-3) by (simp add: handle_discover [OF sample_types(1)] get dhcp_send_def)
qed

section \<open>Properties\<close>



text \<open>
  C31: a DISCOVER message is answered by one offer.  It leases the first slot without a running
  lease for 180000 seconds from the reading of the clock that follows, keeps all other running
  leases, and offers that slot's address, which nobody holds; with ten running leases it
  offers 0.0.0.0 and leases nothing.
\<close>

theorem discover_offers_first_free:
  assumes "lease_inv s" and "length buffer = DHCP_BUFFER_SIZE" and "message_type_of buffer n = Inr DHCP_DISCOVER"
  shows "let t = clock_seq s (clock_pos s); t1 = clock_seq s (clock_pos s + 1) in
    \<exists>s' ip. handle_dhcp_packet s buffer n = Inr s' \<and> lease_inv s' \<and>
      dhcp_sent s' = dhcp_sent s @ [offer_header buffer ip @ replicate 720 0 @ lease_options DHCP_OFFER ip] \<and>
      ((\<exists>i < MAX_LEASES. \<exists>l. ip = pool_addr i \<and> \<not> leased s t ip \<and> \<not> running t (lease_table s ! i) \<and>
          (\<forall>j < i. running t (lease_table s ! j)) \<and>
          lease_table s' = (map (expire_lease t) (lease_table s))[i := l] \<and>
          allocated l \<and> lease_ip l = ip \<and> lease_start l = t1 \<and> lease_expiry l = t1 + 180000) \<or>
       (\<forall>l \<in> set (lease_table s). running t l) \<and> ip = inet_addr 0 0 0 0 \<and> lease_table s' = lease_table s)"
proof -
  obtain ip s1 where get: "get_available_ip s = (ip, s1)" by (cases "get_available_ip s")
  have "240 \<le> length buffer" using assms(2) by (simp add: DHCP_BUFFER_SIZE_def)
  from handle_discover [OF assms(3) this, of s] get have
    "handle_dhcp_packet s buffer n =
      Inr (dhcp_send s1 (offer_header buffer ip @ replicate 720 0 @ lease_options DHCP_OFFER ip))" by simp
  with get_available_ip_spec [OF assms(1), unfolded get prod.case] show ?thesis
    unfolding Let_def by auto
qed

theorem discover_offers_first_free_witness:
  "\<exists>s' ip. handle_dhcp_packet fresh_server (discover_from 7) 1024 = Inr s' \<and> lease_inv s' \<and>
     dhcp_sent s' = dhcp_sent fresh_server @
       [offer_header (discover_from 7) ip @ replicate 720 0 @ lease_options DHCP_OFFER ip]"
proof -
  have "length (discover_from 7) = DHCP_BUFFER_SIZE" by (simp add: DHCP_BUFFER_SIZE_def)
  from discover_offers_first_free [OF fresh_inv this sample_types(1)] show ?thesis
    unfolding Let_def by blast
qed



text \<open>
  C37: a lease is not bound to its client.  Any two messages that request an address with a
  running lease are both acknowledged, each with a copy of its own header (its client's
  hardware address), as long as the lease runs.
\<close>

theorem lease_acked_to_two_clients:
  assumes "lease_inv s" and "length b1 = DHCP_BUFFER_SIZE" and "length b2 = DHCP_BUFFER_SIZE"
    and "message_type_of b1 n1 = Inr DHCP_REQUEST" and "extract_requested_ip b1 = Inr ip"
    and "message_type_of b2 n2 = Inr DHCP_REQUEST" and "extract_requested_ip b2 = Inr ip"
    and "\<forall>j. clock_pos s \<le> j \<and> j < clock_pos s + 4 \<longrightarrow> leased s (clock_seq s j) ip"
  shows "\<exists>s1 s2. handle_dhcp_packet s b1 n1 = Inr s1 \<and> handle_dhcp_packet s1 b2 n2 = Inr s2 \<and>
    dhcp_sent s2 = dhcp_sent s @
      [reply_header b1 ip @ replicate 720 0 @ lease_options DHCP_ACK ip,
       reply_header b2 ip @ replicate 720 0 @ lease_options DHCP_ACK ip]"
proof -
  have len: "960 \<le> length b1" "960 \<le> length b2" using assms(2,3) by (simp_all add: DHCP_BUFFER_SIZE_def)
  from handle_request [OF assms(1,4,5) len(1)] obtain j k where
    jk: "clock_pos s \<le> j" "j \<le> clock_pos s + 1" "j \<le> k" "k \<le> j + 1"
      "handle_dhcp_packet s b1 n1 = Inr (dhcp_send (s\<lparr>clock_pos := k\<rparr>)
        (if leased s (clock_seq s j) ip then reply_header b1 ip @ replicate 720 0 @ lease_options DHCP_ACK ip
         else (take 960 b1)[0 := 2] @ [DHCP_OPTION_MESSAGE_TYPE, 1, DHCP_NAK, DHCP_END]))" by blast
  let ?s1 = "dhcp_send (s\<lparr>clock_pos := k\<rparr>) (reply_header b1 ip @ replicate 720 0 @ lease_options DHCP_ACK ip)"
  have first: "handle_dhcp_packet s b1 n1 = Inr ?s1" using jk assms(8) by simp
  have inv1: "lease_inv ?s1" using assms(1) by simp
  have s1: "clock_pos ?s1 = k" "clock_seq ?s1 = clock_seq s" "leased ?s1 = leased s"
    by (simp_all add: dhcp_send_def leased_def fun_eq_iff)
  from handle_request [OF inv1 assms(6,7) len(2)] obtain j' k' where
    jk': "k \<le> j'" "j' \<le> k + 1"
      "handle_dhcp_packet ?s1 b2 n2 = Inr (dhcp_send (?s1\<lparr>clock_pos := k'\<rparr>)
        (if leased s (clock_seq s j') ip then reply_header b2 ip @ replicate 720 0 @ lease_options DHCP_ACK ip
         else (take 960 b2)[0 := 2] @ [DHCP_OPTION_MESSAGE_TYPE, 1, DHCP_NAK, DHCP_END]))"
    unfolding s1 by blast
  have "leased s (clock_seq s j') ip" using assms(8) jk jk'(1,2) by simp
  with first jk'(3) show ?thesis by (simp add: dhcp_send_def)
qed

theorem lease_acked_to_two_clients_witness:
  "\<exists>s s1 s2. handle_dhcp_packet fresh_server (discover_from 7) 1024 = Inr s \<and>
     handle_dhcp_packet s (request_from 7 (pool_addr 0)) 1024 = Inr s1 \<and>
     handle_dhcp_packet s1 (request_from 66 (pool_addr 0)) 1024 = Inr s2 \<and>
     dhcp_sent s2 = dhcp_sent s @
      [reply_header (request_from 7 (pool_addr 0)) (pool_addr 0) @ replicate 720 0 @ lease_options DHCP_ACK (pool_addr 0),
       reply_header (request_from 66 (pool_addr 0)) (pool_addr 0) @ replicate 720 0 @ lease_options DHCP_ACK (pool_addr 0)]"
proof -
  from fresh_offer obtain s where s: "handle_dhcp_packet fresh_server (discover_from 7) 1024 = Inr s"
    "lease_inv s" "clock_seq s = (\<lambda>_. 1000)" "leased s 1000 (pool_addr 0)" by blast
  have len: "length (request_from c (pool_addr 0)) = DHCP_BUFFER_SIZE" for c by (simp add: DHCP_BUFFER_SIZE_def)
  have "\<forall>j. clock_pos s \<le> j \<and> j < clock_pos s + 4 \<longrightarrow> leased s (clock_seq s j) (pool_addr 0)"
    using s(3,4) by simp
  from lease_acked_to_two_clients [OF s(2) len len sample_types(2,3) sample_types(2,3) this, of 7 66]
  show ?thesis using s(1) by blast
qed

text \<open>
  C33: on every message whose options are well formed and closed by an end option within the
  received bytes, the handler's loop finds the first message type option and the extraction
  the first requested address, wherever they stand among the options and whatever lies in
  the buffer behind them; without such an option they read 0 and 0.0.0.0.
\<close>

theorem options_read_first_match:
  assumes "length hdr = 240" and "\<forall>opt \<in> set opts. option_ok opt"
    and "240 + length (encode_options opts) \<le> n" and "n \<le> DHCP_BUFFER_SIZE"
    and "\<forall>k v. first_option DHCP_OPTION_MESSAGE_TYPE opts = Some (k, v) \<longrightarrow> v \<noteq> []"
    and "\<forall>k v. first_option DHCP_OPTION_REQUESTED_IP opts = Some (k, v) \<longrightarrow> length v = 4"
  shows "message_type_of (message hdr opts rest) n =
      Inr (case first_option DHCP_OPTION_MESSAGE_TYPE opts of None \<Rightarrow> 0 | Some (_, v) \<Rightarrow> hd v) \<and>
    extract_requested_ip (message hdr opts rest) =
      Inr (case first_option DHCP_OPTION_REQUESTED_IP opts of None \<Rightarrow> 0
           | Some (_, v) \<Rightarrow> inet_addr (v ! 0) (v ! 1) (v ! 2) (v ! 3))"
proof
  show "message_type_of (message hdr opts rest) n =
      Inr (case first_option DHCP_OPTION_MESSAGE_TYPE opts of None \<Rightarrow> 0 | Some (_, v) \<Rightarrow> hd v)"
    by (rule message_type_of_message [OF assms(1-3)]) (rule assms(5) [rule_format])
  show "extract_requested_ip (message hdr opts rest) =
      Inr (case first_option DHCP_OPTION_REQUESTED_IP opts of None \<Rightarrow> 0
           | Some (_, v) \<Rightarrow> inet_addr (v ! 0) (v ! 1) (v ! 2) (v ! 3))"
    by (rule requested_ip_of_message [OF assms(1,2) le_trans [OF assms(3,4)]]) (rule assms(6) [rule_format])
qed

theorem options_read_first_match_witness:
  "message_type_of (message (hdr_of 5) (request_options (inet_addr 10 0 0 1)) []) 300 = Inr DHCP_REQUEST \<and>
   extract_requested_ip (message (hdr_of 5) (request_options (inet_addr 10 0 0 1)) []) = Inr (inet_addr 10 0 0 1)"
proof -
  let ?o = "request_options (inet_addr 10 0 0 1)"
  have "240 + length (encode_options ?o) \<le> 300" by (simp add: request_options_def encode_option_def)
  moreover have "300 \<le> DHCP_BUFFER_SIZE" by (simp add: DHCP_BUFFER_SIZE_def)
  ultimately show ?thesis
    using options_read_first_match [of "hdr_of 5" ?o 300 "[]"] first_option_samples by simp
qed

text \<open>
  C35: the handler reads the message type within its buffer whatever the message holds, as
  long as fewer than 768 bytes were received; from 768 bytes on an option just before the
  end with a length of 255 leads it out of the buffer.
\<close>

theorem message_type_bounds:
  "(\<forall>buffer n. length buffer = DHCP_BUFFER_SIZE \<longrightarrow> n < 768 \<longrightarrow> (\<exists>t. message_type_of buffer n = Inr t)) \<and>
   (\<exists>buffer. length buffer = DHCP_BUFFER_SIZE \<and> message_type_of buffer 768 = Inl OutOfBounds)"
proof -
  let ?b = "replicate 241 0 @ [1] @ replicate 525 0 @ [7, 255] @ replicate 255 (0 :: u8)"
  have len: "length ?b = 1024" by simp
  have at: "?b ! 240 = 0" "?b ! Suc 240 = 1" "?b ! 767 = 7" "?b ! Suc 767 = 255"
    by (simp_all add: nth_append)
  have zero: "?b ! i = 0" if "243 \<le> i" "i < 767" for i using that by (simp add: nth_append)
  have "scan_option ?b 768 DHCP_OPTION_MESSAGE_TYPE 240 =
      scan_option ?b 768 DHCP_OPTION_MESSAGE_TYPE (240 + 2 + unat (?b ! Suc 240))"
    by (rule scan_next) (use len at in \<open>simp_all add: dhcp_options\<close>)
  also have "240 + 2 + unat (?b ! Suc 240) = 243" unfolding at(2) by simp
  also have "scan_option ?b 768 DHCP_OPTION_MESSAGE_TYPE 243 =
      scan_option ?b 768 DHCP_OPTION_MESSAGE_TYPE (243 + 2 * 262)"
    by (rule scan_zeros) (use len zero in \<open>simp_all add: dhcp_options\<close>)
  also have "243 + 2 * 262 = (767 :: nat)" by simp
  also have "scan_option ?b 768 DHCP_OPTION_MESSAGE_TYPE 767 =
      scan_option ?b 768 DHCP_OPTION_MESSAGE_TYPE (767 + 2 + unat (?b ! Suc 767))"
    by (rule scan_next) (use len at in \<open>simp_all add: dhcp_options\<close>)
  also have "767 + 2 + unat (?b ! Suc 767) = 1024" unfolding at(4) by simp
  also have "scan_option ?b 768 DHCP_OPTION_MESSAGE_TYPE 1024 = Inl OutOfBounds"
    by (rule scan_outside) (use len in simp)
  finally have "message_type_of ?b 768 = Inl OutOfBounds" by (simp add: message_type_of_def)
  then show ?thesis using message_type_in_bounds len DHCP_BUFFER_SIZE_def by metis
qed

theorem message_type_bounds_witness:
  "\<exists>t. message_type_of (request_from 1 (pool_addr 2)) 300 = Inr t"
proof -
  have "length (request_from 1 (pool_addr 2)) = DHCP_BUFFER_SIZE" by (simp add: DHCP_BUFFER_SIZE_def)
  moreover have "(300 :: nat) < 768" by simp
  ultimately show ?thesis using message_type_bounds by blast
qed

text \<open>
  The extraction ignores how much was received.  A request that names no address and
  lacks the end option, in a buffer that is otherwise zero, makes it read past the buffer,
  whatever the state of the server.
\<close>

lemma bare_request_overreads:
  assumes "length hdr = 240" and "243 \<le> n"
  shows "handle_dhcp_packet s (bare_request hdr) n = Inl OutOfBounds"
proof -
  have "DHCP_REQUEST \<noteq> DHCP_DISCOVER" by (simp add: dhcp_messages)
  then show ?thesis using bare_request_read [OF assms(1)] assms(2) by (simp add: handle_dhcp_packet_def)
qed

text \<open>
  C34: the replies read back.  The code's own parser finds in an offer and in an
  acknowledgement the message type and the address they were built with, over the 720 zero
  bytes before their options.
\<close>

theorem replies_read_back:
  assumes "length buffer = DHCP_BUFFER_SIZE"
  shows "(\<exists>p. offer_packet buffer ip = Inr p \<and> message_type_of p (length p) = Inr DHCP_OFFER \<and>
      extract_requested_ip p = Inr ip) \<and>
    (\<exists>p. ack_packet buffer ip = Inr p \<and> message_type_of p (length p) = Inr DHCP_ACK \<and>
      extract_requested_ip p = Inr ip)"
proof -
  have l: "240 \<le> length buffer" using assms by (simp add: DHCP_BUFFER_SIZE_def)
  note len = length_offer_header [OF l, of ip] copy_header(5) [OF l, of ip]
  show ?thesis
    using reply_parses [OF len(1), of DHCP_OFFER ip] reply_parses [OF len(2), of DHCP_ACK ip] len
    by (simp add: offer_packet_spec [OF l] ack_packet_spec [OF l])
qed

theorem replies_read_back_witness:
  "\<exists>p. offer_packet (discover_from 7) (pool_addr 0) = Inr p \<and> extract_requested_ip p = Inr (pool_addr 0)"
proof -
  have "length (discover_from 7) = DHCP_BUFFER_SIZE" by (simp add: DHCP_BUFFER_SIZE_def)
  from replies_read_back [OF this, of "pool_addr 0"] show ?thesis by blast
qed

text \<open>
  A refusal copies 960 bytes of the request, options included, before its own options: a
  reader of the datagram finds the client's message type first.
\<close>

lemma nak_repeats_request:
  assumes "length hdr = 240" and "\<forall>opt \<in> set opts. option_ok opt"
    and "240 + length (encode_options opts) < 960"
    and "first_option DHCP_OPTION_MESSAGE_TYPE opts = Some (k, v)" and "v \<noteq> []"
    and "length (message hdr opts rest) = DHCP_BUFFER_SIZE"
  shows "\<exists>p. nak_packet (message hdr opts rest) = Inr p \<and> message_type_of p (length p) = Inr (hd v)"
proof -
  let ?m = "message hdr opts rest"
  let ?nak = "[DHCP_OPTION_MESSAGE_TYPE, 1, DHCP_NAK, DHCP_END]"
  have l: "960 \<le> length ?m" using assms(6) by (simp add: DHCP_BUFFER_SIZE_def)
  obtain k' where k': "960 - 240 - length (encode_options opts) = Suc k'"
    using assms(3) by (cases "960 - 240 - length (encode_options opts)") auto
  have "take 960 ?m = hdr @ encode_options opts @ DHCP_END # take k' rest"
    using assms(1,3) k' by (simp add: message_def)
  then have "(take 960 ?m)[0 := 2] @ ?nak = message (hdr[0 := 2]) opts (take k' rest @ ?nak)"
    using assms(1) by (simp add: message_def list_update_append)
  moreover have "message_type_of (message (hdr[0 := 2]) opts (take k' rest @ ?nak)) 964 = Inr (hd v)"
    using assms by (subst message_type_of_message) auto
  moreover have "length ((take 960 ?m)[0 := 2] @ ?nak) = 964" using l by simp
  ultimately show ?thesis unfolding nak_packet_spec [OF l] by metis
qed

end
