(* ===== verification/Capture.thy ===== *)
theory Capture
  imports Prelude
begin

text \<open>
  Capture files: the two structures of \<open>include/stub.h\<close> with their layout in a file, and
  \<open>src/stub.c\<close>, which records the frames the router would send (when compiled with
  \<open>STUB_ENABLED\<close>).  The machine stores integers low byte first.  Operations on files succeed.
\<close>

section \<open>The structures\<close>

record pcap_hdr =
  magic_number :: u32
  version_major :: u16
  version_minor :: u16
  thiszone :: u32
  sigfigs :: u32
  snaplen :: u32
  network :: u32

record pcaprec_hdr =
  ts_sec :: u32
  ts_usec :: u32
  incl_len :: u32
  orig_len :: u32

definition bytes16 :: "u16 \<Rightarrow> buf" where
  "bytes16 w = [lo8 w, hi8 w]"

definition bytes32 :: "u32 \<Rightarrow> buf" where
  "bytes32 w = [byte32 0 w, byte32 (Suc 0) w, byte32 2 w, byte32 3 w]"

definition pcap_hdr_bytes :: "pcap_hdr \<Rightarrow> buf" where
  "pcap_hdr_bytes h =
     bytes32 (magic_number h) @ bytes16 (version_major h) @ bytes16 (version_minor h) @
     bytes32 (thiszone h) @ bytes32 (sigfigs h) @ bytes32 (snaplen h) @ bytes32 (network h)"

definition pcaprec_hdr_bytes :: "pcaprec_hdr \<Rightarrow> buf" where
  "pcaprec_hdr_bytes h =
     bytes32 (ts_sec h) @ bytes32 (ts_usec h) @ bytes32 (incl_len h) @ bytes32 (orig_len h)"

definition le16_at :: "buf \<Rightarrow> nat \<Rightarrow> u16" where
  "le16_at b i = le16 (b ! i) (b ! (i + 1))"

definition le32_at :: "buf \<Rightarrow> nat \<Rightarrow> u32" where
  "le32_at b i = le32 (b ! i) (b ! (i + 1)) (b ! (i + 2)) (b ! (i + 3))"

definition pcap_hdr_of :: "buf \<Rightarrow> pcap_hdr" where
  "pcap_hdr_of b =
     \<lparr>magic_number = le32_at b 0, version_major = le16_at b 4, version_minor = le16_at b 6,
      thiszone = le32_at b 8, sigfigs = le32_at b 12, snaplen = le32_at b 16, network = le32_at b 20\<rparr>"

definition pcaprec_hdr_of :: "buf \<Rightarrow> pcaprec_hdr" where
  "pcaprec_hdr_of b =
     \<lparr>ts_sec = le32_at b 0, ts_usec = le32_at b 4, incl_len = le32_at b 8, orig_len = le32_at b 12\<rparr>"

lemma length_headers [simp]:
  "length (pcap_hdr_bytes h) = 24" "length (pcaprec_hdr_bytes q) = 16"
  by (simp_all add: pcap_hdr_bytes_def pcaprec_hdr_bytes_def bytes16_def bytes32_def)

lemma le32_byte32_Suc:
  "le32 (byte32 0 w) (byte32 (Suc 0) w) (byte32 (Suc (Suc 0)) w) (byte32 (Suc (Suc (Suc 0))) w) = w"
  using le32_byte32 [of w] by (simp add: numeral_eq_Suc del: le32_byte32)

lemma pcap_hdr_roundtrip: "pcap_hdr_of (pcap_hdr_bytes h @ rest) = h"
  by (simp add: pcap_hdr_of_def pcap_hdr_bytes_def bytes16_def bytes32_def le16_at_def le32_at_def numeral_eq_Suc
      le32_byte32_Suc)

lemma pcaprec_hdr_roundtrip: "pcaprec_hdr_of (pcaprec_hdr_bytes q @ rest) = q"
  by (simp add: pcaprec_hdr_of_def pcaprec_hdr_bytes_def bytes32_def le32_at_def numeral_eq_Suc
      le32_byte32_Suc)

section \<open>Recording\<close>

text \<open>
  The two files the recorder leaves: \<open>out_file\<close> is \<open>./out.pcap\<close>, open for writing at its
  end, and \<open>out2_file\<close> is \<open>./out2.pcap\<close>, if there is one.
\<close>

record capture =
  out_file :: buf
  out2_file :: "buf option"

definition stub_hdr :: pcap_hdr where
  "stub_hdr =
     \<lparr>magic_number = 0xa1b2c3d4, version_major = 2, version_minor = 4, thiszone = 0, sigfigs = 0,
      snaplen = 65535, network = 1\<rparr>"

definition stub_init :: "capture \<Rightarrow> capture" where
  "stub_init c = c\<lparr>out_file := pcap_hdr_bytes stub_hdr\<rparr>"

definition entry_hdr :: "u32 \<Rightarrow> pcaprec_hdr" where
  "entry_hdr sz = \<lparr>ts_sec = 0, ts_usec = 0, incl_len = sz, orig_len = sz\<rparr>"

text \<open>\<open>rename\<close> replaces the second file, and \<open>fopen\<close> creates an empty first one.\<close>

definition stub_write_pkt :: "capture \<Rightarrow> buf \<Rightarrow> u32 \<Rightarrow> capture res" where
  "stub_write_pkt c ptr sz =
     ebind (rd_bytes ptr 0 (unat sz)) (\<lambda>pkt.
       let written = out_file c @ pcaprec_hdr_bytes (entry_hdr sz) @ pkt
       in Inr \<lparr>out_file = [], out2_file = Some written\<rparr>)"

fun write_pkts :: "capture \<Rightarrow> buf list \<Rightarrow> capture res" where
  "write_pkts c [] = Inr c"
| "write_pkts c (p # ps) = ebind (stub_write_pkt c p (of_nat (length p))) (\<lambda>c'. write_pkts c' ps)"

text \<open>Specification: the record of a packet in a capture file, and a whole capture file.\<close>

definition pkt_record :: "buf \<Rightarrow> buf" where
  "pkt_record p = pcaprec_hdr_bytes (entry_hdr (of_nat (length p))) @ p"

definition capture_file :: "pcap_hdr \<Rightarrow> buf list \<Rightarrow> buf" where
  "capture_file h ps = pcap_hdr_bytes h @ concat (map pkt_record ps)"

definition small :: "buf \<Rightarrow> bool" where
  "small p \<longleftrightarrow> length p < 2 ^ 32"

lemma unat_length_small [simp]: "small p \<Longrightarrow> unat (of_nat (length p) :: u32) = length p"
  by (simp add: small_def unsigned_of_nat take_bit_nat_eq_self)

lemma stub_write_pkt_spec:
  "small p \<Longrightarrow> stub_write_pkt c p (of_nat (length p)) =
     Inr \<lparr>out_file = [], out2_file = Some (out_file c @ pkt_record p)\<rparr>"
  by (simp add: stub_write_pkt_def rd_bytes_ok pkt_record_def)

lemma write_pkts_spec:
  assumes "\<forall>p \<in> set ps. small p" and "ps \<noteq> []"
  shows "write_pkts c ps = Inr \<lparr>out_file = [],
    out2_file = Some ((if length ps = 1 then out_file c else []) @ pkt_record (last ps))\<rparr>"
  using assms
proof (induction ps arbitrary: c)
  case Nil
  then show ?case by simp
next
  case (Cons p ps)
  then show ?case by (cases "ps = []") (simp_all add: stub_write_pkt_spec)
qed

section \<open>Properties\<close>

text \<open>
  What the recorder leaves.  One packet gives a proper capture file; but every further
  packet replaces \<open>out2.pcap\<close> by a file with the record of that packet alone, without the
  header of a capture file, so all earlier packets are lost.
\<close>

theorem capture_keeps_last:
  assumes "\<forall>q \<in> set (p # ps). small q"
  shows "write_pkts (stub_init c) (p # ps) = Inr \<lparr>out_file = [],
    out2_file = Some (if ps = [] then capture_file stub_hdr [p] else pkt_record (last ps))\<rparr>"
  using write_pkts_spec [OF assms, of "stub_init c"] by (cases ps) (simp_all add: stub_init_def capture_file_def)

theorem capture_keeps_last_witness:
  "write_pkts (stub_init \<lparr>out_file = [], out2_file = None\<rparr>) [[1, 2], [3], [4, 5]] =
     Inr \<lparr>out_file = [], out2_file = Some [0, 0, 0, 0, 0, 0, 0, 0, 2, 0, 0, 0, 2, 0, 0, 0, 4, 5]\<rparr>"
proof -
  have "\<forall>q \<in> set [[1, 2], [3], [4, 5 :: u8]]. small q" by (simp add: small_def)
  moreover have "pkt_record [4, 5] = [0, 0, 0, 0, 0, 0, 0, 0, 2, 0, 0, 0, 2, 0, 0, 0, 4, 5]" by code_simp
  ultimately show ?thesis
    using capture_keeps_last [of "[1, 2]" "[[3], [4, 5]]" "\<lparr>out_file = [], out2_file = None\<rparr>"] by simp
qed

end
