(* ===== verification/Testcases.thy ===== *)
theory Testcases
  imports Ethernet Capture
begin

text \<open>
  \<open>src/testcases.c\<close>: two sample frames, built field by field in zeroed blocks and recorded
  with \<open>stub_write_pkt\<close>.
\<close>

section \<open>Helpers\<close>

definition add_ip_mac_pair :: "ip_addr \<Rightarrow> mac_addr \<Rightarrow> devices \<Rightarrow> devices res" where
  "add_ip_mac_pair ip mac d = update_ip_mac_pair (ip, mac) d"

definition to_ip :: "u8 \<Rightarrow> u8 \<Rightarrow> ip_addr" where
  "to_ip b2 b3 = IpAddr 192 168 b2 b3"

definition to_mac :: "u8 \<Rightarrow> mac_addr" where
  "to_mac b0 = MacAddr b0 b0 b0 b0 b0 b0"

text \<open>Stores of fields at their offsets, in order.\<close>

fun store_fields :: "(nat \<times> buf) list \<Rightarrow> buf \<Rightarrow> buf res" where
  "store_fields [] b = Inr b"
| "store_fields ((i, bs) # fs) b = ebind (wr_bytes b i bs) (store_fields fs)"

definition calloc :: "nat \<Rightarrow> buf" where
  "calloc n = replicate n 0"

section \<open>The test\<close>

text \<open>
  The Ethernet header has 14 bytes; behind it, the IPv4 header of 20 and the UDP header of 8
  bytes, or the ARP packet of 28.
\<close>

definition udp_testcase :: "buf res" where
  "udp_testcase =
     store_fields
       [(6, mac_bytes (to_mac 0x22)), (0, mac_bytes (to_mac 0x21)), (12, bytes16 (htons ETHERTYPE_IPV4)),
        (26, ip_bytes (to_ip 2 2)), (30, ip_bytes (to_ip 50 50)), (14, [0x45]), (23, [0x11]),
        (16, bytes16 (htons (20 + 8))),
        (38, bytes16 (htons 8)), (36, bytes16 (htons 80)), (34, bytes16 (htons 50001))]
       (calloc 42)"

definition arp_testcase :: "buf res" where
  "arp_testcase =
     store_fields
       [(6, mac_bytes (to_mac 0x01)), (0, mac_bytes (to_mac 0xFF)), (12, bytes16 (htons ETHERTYPE_ARP)),
        (28, ip_bytes (to_ip 0 1)), (38, ip_bytes (to_ip 0 1)), (22, mac_bytes (to_mac 0x01)),
        (32, mac_bytes (to_mac 0x01)), (20, bytes16 (htons 0x02)), (18, [6]), (19, [4]),
        (14, bytes16 (htons 1)), (16, bytes16 (htons 0x0800))]
       (calloc 42)"

definition testcase_run :: "capture \<Rightarrow> capture res" where
  "testcase_run c =
     ebind udp_testcase (\<lambda>pkt.
     ebind (stub_write_pkt c pkt 42) (\<lambda>c1.
     ebind arp_testcase (\<lambda>pktArp.
       stub_write_pkt c1 pktArp 42)))"

section \<open>The frames it builds\<close>

definition udp_frame :: buf where
  "udp_frame = ether_frame (to_mac 0x21) (to_mac 0x22) ETHERTYPE_IPV4
     ([0x45, 0, 0, 28, 0, 0, 0, 0, 0, 17, 0, 0] @ ip_bytes (to_ip 2 2) @ ip_bytes (to_ip 50 50)
      @ [0xC3, 0x51, 0, 80, 0, 8, 0, 0])"

definition arp_frame :: buf where
  "arp_frame = ether_frame (to_mac 0xFF) (to_mac 0x01) ETHERTYPE_ARP
     (arp_bytes \<lparr>hardware_type = htons 1, protocol_type = htons 0x0800, hardware_length = 6,
        protocol_length = 4, operation = htons 2, sender_mac = to_mac 1, sender_ip = to_ip 0 1,
        target_mac = to_mac 1, target_ip = to_ip 0 1\<rparr>)"

lemma testcase_frames: "udp_testcase = Inr udp_frame" "arp_testcase = Inr arp_frame"
  by code_simp+

lemma length_testcase_frames: "length udp_frame = 42" "length arp_frame = 42"
  by code_simp+

text \<open>
  A packet that would be translated, and an answer that announces 192.168.0.1; the file the
  test leaves holds the second frame only, without a header.
\<close>

lemma udp_testcase_translatable: "translatable (drop 14 udp_frame)"
  by code_simp

lemma testcase_run_keeps_arp:
  "testcase_run (stub_init c) = Inr \<lparr>out_file = [], out2_file = Some (pkt_record arp_frame)\<rparr>"
proof -
  have "unat (42 :: u32) = 42" by simp
  then show ?thesis
    by (simp add: testcase_run_def testcase_frames stub_write_pkt_def rd_bytes_ok length_testcase_frames pkt_record_def)
qed

end
