(* ===== verification/Driver.thy ===== *)
theory Driver
  imports Ethernet Capture
begin

text \<open>
  \<open>src/driver.c\<close>, which feeds the packets of a capture file to \<open>ethernet_handle\<close> as frames
  of interface 0 and then waits until nothing is pending.  The contents of the file and of the
  fresh buffer are inputs, and so is the moment the timer thread runs: before a packet, or in
  a round of the wait.
\<close>

section \<open>The driver\<close>

definition timer_event :: "router \<Rightarrow> bool \<Rightarrow> router res" where
  "timer_event r fires =
     (if fires \<and> timer_left r \<noteq> (0, 0) then timer_handler (r\<lparr>timer_left := (0, 0)\<rparr>) else Inr r)"

text \<open>
  One round per record.  \<open>fread\<close> gives what is left of the file when that is less than the
  record says; the byte behind the packet is set to 0.
\<close>

function driver_loop :: "(nat \<Rightarrow> bool) \<Rightarrow> nat \<Rightarrow> buf \<Rightarrow> buf \<Rightarrow> router \<Rightarrow> (router \<times> buf) res" where
  "driver_loop fires index file buffer r =
     (if length file < 16 then Inr (r, buffer)
      else
        let record_header = pcaprec_hdr_of file;
            n = unat (incl_len record_header);
            rest = drop 16 file
        in ebind (timer_event r (fires index)) (\<lambda>r1.
           ebind (wr_bytes buffer 0 (take n rest)) (\<lambda>buffer1.
           ebind (wr8 buffer1 n 0) (\<lambda>buffer2.
           ebind (ethernet_handle r1 buffer2 0) (\<lambda>(r2, buffer3).
             driver_loop fires (index + 1) (drop n rest) buffer3 r2)))))"
  by pat_completeness auto

termination
  by (relation "measure (\<lambda>(fires, index, file, buffer, r). length file)") auto

declare driver_loop.simps [simp del]

text \<open>
  The wait: a round locks, looks at the list, unlocks and yields.  It leaves the loop, with
  the lock held, once the list is empty; the result is \<open>False\<close> if it never is in the rounds
  given.
\<close>

fun driver_wait :: "bool list \<Rightarrow> router \<Rightarrow> (router \<times> bool) res" where
  "driver_wait [] r =
     ebind (lock_timer r) (\<lambda>r1. Inr (if delta_list r1 = [] then (r1, True) else (unlock_timer r1, False)))"
| "driver_wait (f # fs) r =
     ebind (lock_timer r) (\<lambda>r1.
       if delta_list r1 = [] then Inr (r1, True)
       else ebind (timer_event (unlock_timer r1) f) (driver_wait fs))"

text \<open>The exit status, or \<open>None\<close> while it still waits.\<close>

definition driver_main ::
    "router \<Rightarrow> nat \<Rightarrow> buf option \<Rightarrow> (nat \<Rightarrow> u8) \<Rightarrow> (nat \<Rightarrow> bool) \<Rightarrow> bool list \<Rightarrow> (router \<times> int option) res" where
  "driver_main r argc file mem fires waits =
     (if argc < 2 then Inr (r, Some 1)
      else case file of
        None \<Rightarrow> Inr (r, Some 1)
      | Some contents \<Rightarrow>
          if length contents < 24 then Inr (r, Some 1)
          else
            let file_header = pcap_hdr_of contents;
                buffer = map mem [0..<unat (snaplen file_header)]
            in ebind (driver_loop fires 0 (drop 24 contents) buffer r) (\<lambda>(r1, _).
               ebind (driver_wait waits r1) (\<lambda>(r2, finished).
                 Inr (r2, if finished then Some 0 else None))))"

section \<open>Replaying packets\<close>

text \<open>
  Specification: packet after packet is laid at the start of the buffer, which must have room
  for it and one byte more, and handled.
\<close>

definition loaded :: "buf \<Rightarrow> buf \<Rightarrow> buf" where
  "loaded p buffer = p @ 0 # drop (length p + 1) buffer"

fun replay :: "(nat \<Rightarrow> bool) \<Rightarrow> nat \<Rightarrow> buf list \<Rightarrow> buf \<Rightarrow> router \<Rightarrow> (router \<times> buf) res" where
  "replay fires i [] buffer r = Inr (r, buffer)"
| "replay fires i (p # ps) buffer r =
     ebind (timer_event r (fires i)) (\<lambda>r1.
       if length p < length buffer
       then ebind (ethernet_handle r1 (loaded p buffer) 0) (\<lambda>(r2, b). replay fires (i + 1) ps b r2)
       else Inl OutOfBounds)"

lemma load_packet:
  "ebind (wr_bytes buffer 0 p) (\<lambda>b. wr8 b (length p) 0) =
     (if length p < length buffer then Inr (loaded p buffer) else Inl OutOfBounds)"
proof (cases "length p < length buffer")
  case True
  then have "(splice 0 p buffer)[length p := 0] = loaded p buffer"
    by (intro nth_equalityI) (auto simp: loaded_def splice_def nth_list_update nth_append nth_Cons')
  with True show ?thesis by (simp add: wr_bytes_def wr8_def length_splice)
next
  case False
  then show ?thesis by (simp add: wr_bytes_def wr8_def length_splice)
qed

lemma driver_loop_records:
  assumes "\<forall>p \<in> set ps. small p" and "length tail < 16"
  shows "driver_loop fires i (concat (map pkt_record ps) @ tail) buffer r = replay fires i ps buffer r"
  using assms(1)
proof (induction ps arbitrary: i buffer r)
  case Nil
  then show ?case using assms(2) by (simp add: driver_loop.simps)
next
  case (Cons p ps)
  let ?rest = "concat (map pkt_record ps) @ tail"
  let ?hdr = "pcaprec_hdr_bytes (entry_hdr (of_nat (length p)))"
  have shape: "concat (map pkt_record (p # ps)) @ tail = ?hdr @ p @ ?rest" by (simp add: pkt_record_def)
  have n: "unat (incl_len (pcaprec_hdr_of (?hdr @ p @ ?rest))) = length p"
    using Cons.prems by (simp add: pcaprec_hdr_roundtrip entry_hdr_def)
  have "driver_loop fires i (?hdr @ p @ ?rest) buffer r =
      ebind (timer_event r (fires i)) (\<lambda>r1.
      ebind (ebind (wr_bytes buffer 0 p) (\<lambda>b. wr8 b (length p) 0)) (\<lambda>buffer2.
      ebind (ethernet_handle r1 buffer2 0) (\<lambda>(r2, buffer3). driver_loop fires (i + 1) ?rest buffer3 r2)))"
    by (subst driver_loop.simps) (simp add: n Let_def ebind_assoc)
  also have "\<dots> = replay fires i (p # ps) buffer r"
    using Cons by (simp add: load_packet split: if_split cong: ebind_cong)
  finally show ?case unfolding shape .
qed

section \<open>The wait ends\<close>

lemma timer_event_spec:
  assumes "timer_inv r" and "configured (interface_arr r)" and "delta_list r \<noteq> []"
  shows "\<exists>r'. timer_event r f = Inr r' \<and> timer_inv r' \<and> configured (interface_arr r') \<and>
    retries_left (delta_list r') + (if f then 1 else 0) \<le> retries_left (delta_list r)"
proof (cases f)
  case True
  let ?r = "r\<lparr>timer_left := (0, 0)\<rparr>"
  have "timer_left r \<noteq> (0, 0)" using assms(1,3) by (simp add: timer_inv_def)
  then have ev: "timer_event r f = timer_handler ?r" using True by (simp add: timer_event_def)
  from timer_handler_expired [of ?r] assms(1,2) obtain r' where
    r': "timer_handler ?r = Inr r'" "timer_inv r'" "timer_only ?r r'"
      "delta_list r' = after_expiry (head_expired (delta_list r))"
    by (auto simp: timer_inv_def)
  moreover have "configured (interface_arr r')" using assms(2) timer_only_simps(1) [OF r'(3)] by simp
  ultimately show ?thesis using ev after_expiry_retries [OF assms(3)] True by auto
next
  case False
  then show ?thesis using assms by (simp add: timer_event_def)
qed

lemma lock_timer_look:
  "timer_inv r \<Longrightarrow> lock_timer r = Inr (r\<lparr>timer_mutex := (timer_mutex r)\<lparr>held := True\<rparr>\<rparr>)"
  "timer_inv r \<Longrightarrow> unlock_timer (r\<lparr>timer_mutex := (timer_mutex r)\<lparr>held := True\<rparr>\<rparr>) = r"
  by (simp_all add: timer_inv_def lock_timer_def unlock_timer_def mutex_lock_free)

lemma retries_left_zero: "retries_left ns = 0 \<longleftrightarrow> ns = []"
  by (cases ns) (simp_all add: retries_left_def)

lemma retries_left_le: "retries_left ns \<le> 2 * length ns"
  by (induction ns) (auto simp: retries_left_def)

lemma driver_wait_ends:
  assumes "timer_inv r" and "configured (interface_arr r)"
    and "retries_left (delta_list r) \<le> count_list waits True"
  shows "\<exists>r'. driver_wait waits r = Inr (r', True) \<and> delta_list r' = [] \<and> held (timer_mutex r')"
  using assms
proof (induction waits arbitrary: r)
  case Nil
  then show ?case by (simp add: lock_timer_look retries_left_zero)
next
  case (Cons f fs)
  show ?case
  proof (cases "delta_list r = []")
    case True
    then show ?thesis using Cons.prems(1) by (simp add: lock_timer_look)
  next
    case False
    from timer_event_spec [OF Cons.prems(1,2) False, of f] obtain r1 where
      r1: "timer_event r f = Inr r1" "timer_inv r1" "configured (interface_arr r1)"
        "retries_left (delta_list r1) + (if f then 1 else 0) \<le> retries_left (delta_list r)" by blast
    then have "retries_left (delta_list r1) \<le> count_list fs True"
      using Cons.prems(3) by (cases f) simp_all
    from Cons.IH [OF r1(2,3) this] r1(1) Cons.prems(1) False show ?thesis by (simp add: lock_timer_look)
  qed
qed

section \<open>Properties\<close>



end
