(* ===== verification/Program.thy ===== *)
theory Program
  imports Boot Dhcp Testcases Driver
begin

text \<open>
  The whole program: \<open>main\<close> of \<open>src/main.c\<close> with its three builds, and the process that
  results, in which the router and the DHCP server run as threads of one address space.  They
  share no variable, but a fault or an \<open>exit\<close> in one ends both.
\<close>

section \<open>The start of the process\<close>

text \<open>The macros that choose the build.\<close>

record build =
  stub_enabled :: bool
  test_enabled :: bool
  driver_enabled :: bool

text \<open>
  What \<open>main\<close> gets from the machine: random numbers, whether the timer and the DHCP thread can
  be created, what becomes of the DHCP socket, the clock and the server's buffer, the list of
  addresses, the sockets and buffers of the receiving threads, the capture file and arguments
  of the driver, fresh memory, and the expiries before and after its packets.
\<close>

record inputs =
  rand_values :: "nat \<Rightarrow> nat"
  timer_created :: bool
  thread_created :: bool
  dhcp_socket :: "bool \<times> bool \<times> bool"
  dhcp_clock :: "nat \<Rightarrow> int"
  dhcp_buffer :: buf
  addresses :: "ifaddr list"
  sockets :: "nat option list"
  buffers :: "buf \<times> buf"
  stub_files :: capture
  argument_count :: nat
  driver_file :: "buf option"
  driver_memory :: "nat \<Rightarrow> u8"
  driver_fires :: "nat \<Rightarrow> bool"
  driver_waits :: "bool list"

datatype process =
    Tested capture
  | Exited int
  | Waiting
  | Serving system "(dhcp_state \<times> buf) option"

text \<open>
  \<open>dhcp_thread\<close>: \<open>None\<close> if the server ended the process, otherwise the server, if there is one.
  A thread that cannot be created only prints a message.
\<close>

definition dhcp_thread :: "inputs \<Rightarrow> (dhcp_state \<times> buf) option option" where
  "dhcp_thread i =
     (if \<not> thread_created i then Some None
      else case dhcp_socket i of (opened, tied, bound) \<Rightarrow>
        map_option Some (dhcp_server_setup opened tied bound (dhcp_clock i) (dhcp_buffer i)))"

text \<open>The rest of \<open>main\<close> in the router build, and both threads up to their first frame.\<close>

definition start_receivers :: "inputs \<Rightarrow> router \<Rightarrow> system res" where
  "start_receivers i r =
     ebind (scan_addresses (addresses i) (interface_arr r, wan r)) (\<lambda>(arr, w).
     ebind (open_sockets 0 (sockets i) arr) (\<lambda>arr'.
     ebind (wait_for_sockets arr') (\<lambda>_.
       Inr \<lparr>core = r\<lparr>interface_arr := arr', wan := w\<rparr>, rx = [fst (buffers i), snd (buffers i)], handled = []\<rparr>)))"

definition main_run :: "build \<Rightarrow> inputs \<Rightarrow> process res" where
  "main_run b i =
     ebind (timer_init (start_router (rand_values i)) (timer_created i)) (\<lambda>r.
       if stub_enabled b \<and> test_enabled b then
         ebind (testcase_run (stub_init (stub_files i))) (\<lambda>c. Inr (Tested c))
       else case dhcp_thread i of
         None \<Rightarrow> Inr (Exited 1)
       | Some server \<Rightarrow>
           if driver_enabled b then
             ebind (driver_main r (argument_count i) (driver_file i) (driver_memory i) (driver_fires i)
                      (driver_waits i)) (\<lambda>(_, status).
               Inr (case status of None \<Rightarrow> Waiting | Some code \<Rightarrow> Exited code))
           else ebind (start_receivers i r) (\<lambda>s. Inr (Serving s server)))"

lemma boot_receivers:
  "boot (rand_values i) (timer_created i) (addresses i) (sockets i) (fst (buffers i)) (snd (buffers i)) =
     ebind (timer_init (start_router (rand_values i)) (timer_created i)) (start_receivers i)"
  by (auto simp: boot_def main_setup_def start_receivers_def ebind_assoc intro!: ebind_cong)

section \<open>The process runs\<close>

datatype happening = Router event | Datagram "buf option"

fun serve ::
  "system \<times> (dhcp_state \<times> buf) option \<Rightarrow> happening \<Rightarrow> (system \<times> (dhcp_state \<times> buf) option) res" where
  "serve (s, server) (Router e) = ebind (react s e) (\<lambda>s'. Inr (s', server))"
| "serve (s, None) (Datagram d) = Inr (s, None)"
| "serve (s, Some t) (Datagram d) = ebind (dhcp_receive t d) (\<lambda>t'. Inr (s, Some t'))"

definition router_events :: "happening list \<Rightarrow> event list" where
  "router_events hs = concat (map (\<lambda>h. case h of Router e \<Rightarrow> [e] | Datagram _ \<Rightarrow> []) hs)"

definition datagrams :: "happening list \<Rightarrow> buf option list" where
  "datagrams hs = concat (map (\<lambda>h. case h of Router _ \<Rightarrow> [] | Datagram d \<Rightarrow> [d]) hs)"

lemma happening_simps [simp]:
  "router_events [] = []" "router_events (Router e # hs) = e # router_events hs"
  "router_events (Datagram d # hs) = router_events hs"
  "datagrams [] = []" "datagrams (Router e # hs) = datagrams hs" "datagrams (Datagram d # hs) = d # datagrams hs"
  by (simp_all add: router_events_def datagrams_def)

text \<open>The process runs to the end exactly if both of its parts do, each on its own events.\<close>

definition server_run :: "buf option list \<Rightarrow> (dhcp_state \<times> buf) option \<Rightarrow> (dhcp_state \<times> buf) option res" where
  "server_run ds server =
     (case server of None \<Rightarrow> Inr None | Some t \<Rightarrow> ebind (run_events dhcp_receive ds t) (\<lambda>t'. Inr (Some t')))"

lemma serve_projects:
  "run_events serve hs (s, server) = Inr (s', server') \<longleftrightarrow>
     run_events react (router_events hs) s = Inr s' \<and> server_run (datagrams hs) server = Inr server'"
proof (induction hs arbitrary: s server)
  case Nil
  show ?case by (cases server) (auto simp: server_run_def)
next
  case (Cons h hs)
  show ?case
  proof (cases h)
    case (Router e)
    then show ?thesis by (cases "react s e") (auto simp: Cons.IH)
  next
    case (Datagram d)
    then show ?thesis
    proof (cases server)
      case (Some t)
      then show ?thesis using Datagram by (cases "dhcp_receive t d") (auto simp: Cons.IH server_run_def)
    qed (use Cons.IH in \<open>simp add: server_run_def\<close>)
  qed
qed

lemma server_sound:
  assumes "length (dhcp_buffer i) = DHCP_BUFFER_SIZE" and "dhcp_thread i = Some (Some t)"
  shows "dhcp_sound t"
proof -
  obtain opened tied bound where d: "dhcp_socket i = (opened, tied, bound)" by (cases "dhcp_socket i") auto
  with assms(2) have "dhcp_server_setup opened tied bound (dhcp_clock i) (dhcp_buffer i) = Some t"
    by (auto simp: dhcp_thread_def split: if_splits)
  with dhcp_setup_sound [OF assms(1), of opened tied bound "dhcp_clock i"] show ?thesis by simp
qed

section \<open>Properties\<close>


text \<open>A machine on which the router build starts.\<close>

definition sample_inputs :: "bool \<times> bool \<times> bool \<Rightarrow> inputs" where
  "sample_inputs socket =
     \<lparr>rand_values = (\<lambda>_. 0), timer_created = True, thread_created = True, dhcp_socket = socket,
      dhcp_clock = (\<lambda>_. 1000), dhcp_buffer = blank_buffer, addresses = sample_addresses,
      sockets = [Some 5, Some 6], buffers = (blank, blank), stub_files = \<lparr>out_file = [], out2_file = None\<rparr>,
      argument_count = 1, driver_file = None, driver_memory = (\<lambda>_. 0), driver_fires = (\<lambda>_. False), driver_waits = []\<rparr>"

definition router_build :: build where
  "router_build = \<lparr>stub_enabled = False, test_enabled = False, driver_enabled = False\<rparr>"




end
