(* ===== verification/Sent_Frames.thy ===== *)
theory Sent_Frames
  imports Boot
begin

text \<open>
  What leaves the router: over whole runs, every frame handed to \<open>write\<close> by
  \<open>src/outgoing.c\<close> is a well-formed ARP request or IPv4 datagram of the interface it
  leaves on, and no datagram leaves on the WAN with an address of the LAN.
\<close>

section \<open>Well-formed frames\<close>

text \<open>
  The frames of an interface: an ARP request with its own addresses, or an IPv4 datagram of
  exactly its total length, with valid checksums, whose destination lies behind the interface
  and whose source, on the WAN, is the router's own address.
\<close>

definition request_ok :: "router \<Rightarrow> nat \<Rightarrow> buf \<Rightarrow> bool" where
  "request_ok r i f \<longleftrightarrow> i < 2 \<and> (\<exists>target. f = request_frame r i target)"

text \<open>
  Where a datagram comes from: a frame received on the other interface, whose packet it is but
  for the translated address and port and the bytes the checksum code may write.
\<close>

definition checksum_fields :: "buf \<Rightarrow> nat set" where
  "checksum_fields m = {10, 11} \<union>
     (if ip_proto m = 17 \<and> udp_cksum m \<noteq> 0 then {hlen m + 6, hlen m + 7, hlen m + udp_len m}
      else if ip_proto m = 6 then {hlen m + 16, hlen m + 17, hlen m + tcp_len m} else {})"

definition same_packet :: "buf \<Rightarrow> buf \<Rightarrow> bool" where
  "same_packet m q \<longleftrightarrow> hlen q = hlen m \<and> total_len q = total_len m \<and>
     (\<forall>i < total_len m. i \<notin> checksum_fields m \<longrightarrow> q ! i = m ! i) \<and>
     (ip_proto m = 17 \<longrightarrow> (udp_cksum q = 0 \<longleftrightarrow> udp_cksum m = 0))"

definition stems :: "(nat \<times> buf) list \<Rightarrow> nat \<Rightarrow> buf \<Rightarrow> bool" where
  "stems hs i q \<longleftrightarrow>
     (\<exists>b ip port. (1 - i, b) \<in> set hs \<and> frame_type b = ETHERTYPE_IPV4 \<and>
        sealed (drop 14 b) \<and> translatable (drop 14 b) \<and>
        same_packet (if i = 1 then translate_out ip port (drop 14 b) else translate_in ip port (drop 14 b)) q)"

definition datagram_ok :: "(nat \<times> buf) list \<Rightarrow> router \<Rightarrow> nat \<Rightarrow> buf \<Rightarrow> bool" where
  "datagram_ok hs r i f \<longleftrightarrow>
     (\<exists>mac q. f = ether_frame mac (device_mac_addr (interface_arr r ! i)) 0x0800 q \<and>
        wf_pkt q \<and> length q = total_len q \<and> ip_checksum_ok q \<and> transport_checksum_ok q \<and>
        i = lan_or_wan (ip_dst q) \<and> (i = 1 \<longrightarrow> ip_src q = public_addr r) \<and> stems hs i q)"

definition frame_ok :: "(nat \<times> buf) list \<Rightarrow> router \<Rightarrow> nat \<times> buf \<Rightarrow> bool" where
  "frame_ok hs r x \<longleftrightarrow> request_ok r (fst x) (snd x) \<or> datagram_ok hs r (fst x) (snd x)"

text \<open>A packet that may be sent: received before, and to the LAN or from the router's own address.\<close>

definition own_source :: "(nat \<times> buf) list \<Rightarrow> router \<Rightarrow> buf \<Rightarrow> bool" where
  "own_source hs r pkt \<longleftrightarrow> sealed pkt \<and> (on_lan (ip_dst pkt) \<or> ip_src pkt = public_addr r) \<and>
     stems hs (lan_or_wan (ip_dst pkt)) pkt"

definition wire_ok :: "interface_table \<Rightarrow> (nat \<times> buf) list \<Rightarrow> router \<Rightarrow> bool" where
  "wire_ok A hs r \<longleftrightarrow> interface_arr r = A \<and>
     (\<forall>x \<in> set (sent r). frame_ok hs r x) \<and>
     (\<forall>ip. \<forall>pkt \<in> set (waiting (delta_list r) ip). own_source hs r pkt)"

text \<open>Only the addresses of the interfaces matter.\<close>

lemma frame_ok_same:
  assumes "interface_arr r' = interface_arr r"
  shows "frame_ok hs r' = frame_ok hs r" "own_source hs r' = own_source hs r"
  using assms
  by (simp_all add: fun_eq_iff frame_ok_def request_ok_def datagram_ok_def own_source_def public_addr_def
      request_frame_def request_for_def)

section \<open>The part of a packet that is sent\<close>

lemma word_sum_take: "s + 2 * n \<le> m \<Longrightarrow> word_sum (take m q) s n = word_sum q s n"
  unfolding word_sum_def by (intro sum.cong refl word_at_same) auto

lemma ip_src_take: "wf_pkt q \<Longrightarrow> ip_src (take (total_len q) q) = ip_src q"
  by (auto simp: wf_pkt_def ip_src_def ip_at_def)

lemma checksums_take:
  assumes "sealed q" and "ip_checksum_ok q" and "transport_checksum_ok q"
  shows "ip_checksum_ok (take (total_len q) q)" "transport_checksum_ok (take (total_len q) q)"
proof -
  have wf: "wf_pkt q" using sealed_ok(1) [OF assms(1)] .
  note f = take_fields [OF wf]
  have h: "hlen q \<le> total_len q" "hlen q mod 2 = 0" using wf hlen_bounds by (auto simp: wf_pkt_def)
  then have "0 + 2 * (hlen q div 2) \<le> total_len q" by simp
  then show "ip_checksum_ok (take (total_len q) q)"
    using assms(2) word_sum_take by (simp add: ip_checksum_ok_def f)
  have ps: "pseudo_sum (take (total_len q) q) l = pseudo_sum q l" for l
    by (simp add: pseudo_sum_def pseudo_bytes_def f ip_src_take [OF wf])
  have tl: "tcp_len (take (total_len q) q) = tcp_len q" by (simp add: tcp_len_def f)
  have t: "word_sum (take (total_len q) q) (hlen q) ((tcp_len q + 1) div 2) = word_sum q (hlen q) ((tcp_len q + 1) div 2)"
    if "ip_proto q = 6"
    using that assms(1) h(1) by (intro word_sum_take) (auto simp: sealed_iff tcp_len_def)
  have u: "word_sum (take (total_len q) q) (hlen q) ((udp_len q + 1) div 2) = word_sum q (hlen q) ((udp_len q + 1) div 2)"
    if "ip_proto q = 17" "udp_cksum q \<noteq> 0"
  proof (rule word_sum_take)
    have "hlen q + udp_len q + udp_len q mod 2 \<le> total_len q" using that assms(1) by (simp add: sealed_iff)
    moreover have "2 * ((n + 1) div 2) = n + n mod 2" for n :: nat by presburger
    ultimately show "hlen q + 2 * ((udp_len q + 1) div 2) \<le> total_len q" by simp
  qed
  have "udp_len (take (total_len q) q) = udp_len q" "udp_cksum (take (total_len q) q) = udp_cksum q"
    if "ip_proto q = 17" using that assms(1) take_udp [OF wf] by (simp_all add: sealed_iff)
  then show "transport_checksum_ok (take (total_len q) q)"
    using assms(3) t u by (auto simp: transport_checksum_ok_def f ps tl)
qed

lemma fill_checksums_plain:
  assumes wf: "wf_pkt p" and "ip_proto p = 17" and "hlen p + 8 \<le> length p" and "udp_cksum p = 0"
    and q: "fill_checksums p = Inr q" and i: "i \<noteq> 10" "i \<noteq> 11"
  shows "q ! i = p ! i"
proof -
  have len: "20 \<le> hlen p" "20 \<le> length p" using wf wf_pkt_length by (auto simp: wf_pkt_def)
  obtain c where c: "fill_ip_checksum p = Inr (put16 p 10 c)" using fill_ip_checksum_spec [OF wf] by blast
  let ?p = "put16 p 10 c"
  have w: "wf_pkt ?p" "hlen ?p = hlen p" using wf len by simp_all
  have "rd8 ?p 9 = Inr 17" using assms(2) len by (simp add: rd8_ok nth_put16 ip_proto_def)
  moreover have "rd16 ?p (hlen p + 6) = Inr 0"
    using assms(3,4) len by (simp add: rd16_ok nth_put16 udp_cksum_def add.commute)
  ultimately have "q = ?p"
    using q c header_len_wf [OF w(1)] w(2) by (simp add: fill_checksums_def fill_udp_checksum_def)
  then show ?thesis using i len by (simp add: nth_put16)
qed

lemma checksums_same_packet:
  assumes "sealed p"
  shows "same_packet p (with_checksums p)"
proof -
  let ?q = "with_checksums p"
  note ok = sealed_ok(1,2) [OF assms]
  from fill_checksums_spec [OF ok] have q: "fill_checksums p = Inr ?q" "same_header p ?q"
    "\<forall>i. i \<notin> checksum_bytes p \<longrightarrow> ?q ! i = p ! i"
    "ip_proto p = 17 \<longrightarrow> (udp_cksum ?q = 0 \<longleftrightarrow> udp_cksum p = 0)"
    by (auto simp: with_checksums_def)
  have "?q ! i = p ! i" if i: "i \<notin> checksum_fields p" for i
  proof (cases "ip_proto p = 17 \<and> udp_cksum p = 0")
    case True
    then have "hlen p + 8 \<le> length p" using ok(2) by (simp add: transport_ok_def)
    with True i show ?thesis by (intro fill_checksums_plain [OF ok(1) _ _ _ q(1)]) (auto simp: checksum_fields_def)
  next
    case False
    with i show ?thesis by (intro q(3) [rule_format]) (auto simp: checksum_fields_def checksum_bytes_def)
  qed
  with same_header_fields(1,2) [OF q(2)] q(4) show ?thesis by (simp add: same_packet_def)
qed

lemma same_packet_fields:
  assumes "same_packet m q" and m: "sealed m"
  shows "ip_proto q = ip_proto m" "checksum_fields q = checksum_fields m" "tcp_len q = tcp_len m"
proof -
  have b: "20 \<le> hlen m" "hlen m \<le> total_len m" using sealed_ok(1) [OF m] by (simp_all add: wf_pkt_def)
  have ul: "ip_proto m = 17 \<Longrightarrow> udp_cksum m \<noteq> 0 \<Longrightarrow> 8 \<le> udp_len m" "ip_proto m = 17 \<Longrightarrow> hlen m + 8 \<le> total_len m"
    using m by (simp_all add: sealed_iff)
  have keep: "q ! i = m ! i" if "i < total_len m" "i \<notin> checksum_fields m" for i
    using that assms(1) by (simp add: same_packet_def)
  have "9 \<notin> checksum_fields m" using b by (auto simp: checksum_fields_def)
  then show pr: "ip_proto q = ip_proto m" using keep [of 9] b by (simp add: ip_proto_def)
  show tl: "tcp_len q = tcp_len m" using assms(1) by (simp add: same_packet_def tcp_len_def)
  have hl: "hlen q = hlen m" using assms(1) by (simp add: same_packet_def)
  have "udp_len q = udp_len m" if u: "ip_proto m = 17" "udp_cksum m \<noteq> 0"
  proof -
    have "hlen m + 4 \<notin> checksum_fields m" "hlen m + 5 \<notin> checksum_fields m"
      using u ul b by (auto simp: checksum_fields_def)
    then show ?thesis using keep [of "hlen m + 4"] keep [of "hlen m + 5"] ul(2) u hl by (simp add: udp_len_def)
  qed
  moreover have "ip_proto m = 17 \<Longrightarrow> udp_cksum q = 0 \<longleftrightarrow> udp_cksum m = 0"
    using assms(1) by (simp add: same_packet_def)
  ultimately show "checksum_fields q = checksum_fields m"
    using pr tl hl by (cases "ip_proto m = 17"; cases "udp_cksum m = 0") (simp_all add: checksum_fields_def)
qed

lemma same_packet_sent:
  assumes "same_packet m p" and "sealed m" and "sealed p"
  shows "same_packet m (take (total_len p) (with_checksums p))"
proof -
  let ?q = "with_checksums p"
  have q: "same_packet p ?q" "wf_pkt ?q" "sealed ?q"
    using checksums_same_packet sealed_with_checksums sealed_ok(1) assms(3) by blast+
  note f = same_packet_fields [OF assms(1,2)] and g = same_packet_fields [OF q(1) assms(3)]
  note t = take_fields [OF q(2)]
  have tl: "total_len ?q = total_len p" "total_len p = total_len m" "hlen ?q = hlen m"
    using assms(1) q(1) by (simp_all add: same_packet_def)
  have "?q ! i = m ! i" if "i < total_len m" "i \<notin> checksum_fields m" for i
    using that assms(1) q(1) f(2) tl by (simp add: same_packet_def)
  moreover have "udp_cksum (take (total_len p) ?q) = 0 \<longleftrightarrow> udp_cksum m = 0" if u: "ip_proto m = 17"
  proof -
    have "hlen ?q + 8 \<le> total_len ?q" using q(3) u f(1) g(1) by (simp add: sealed_iff)
    from take_udp(2) [OF q(2) this] show ?thesis
      using assms(1) q(1) u f(1) tl by (simp add: same_packet_def)
  qed
  ultimately show ?thesis using t tl by (simp add: same_packet_def)
qed

lemma stems_sent:
  assumes "sealed p" and "stems hs i p"
  shows "stems hs i (take (total_len p) (with_checksums p))"
proof -
  from assms(2) obtain b ip port where b: "(1 - i, b) \<in> set hs" "frame_type b = ETHERTYPE_IPV4"
      "sealed (drop 14 b)" "translatable (drop 14 b)"
      "same_packet (if i = 1 then translate_out ip port (drop 14 b) else translate_in ip port (drop 14 b)) p"
    unfolding stems_def by blast
  have "sealed (if i = 1 then translate_out ip port (drop 14 b) else translate_in ip port (drop 14 b))"
    using sealed_translate [OF b(3,4), of ip port] by simp
  from same_packet_sent [OF b(5) this assms(1)] b(1-4) show ?thesis unfolding stems_def by blast
qed

lemma datagram_sent:
  assumes "own_source hs r p" and "i = lan_or_wan (ip_dst p)"
  shows "datagram_ok hs r i (ether_frame mac (device_mac_addr (interface_arr r ! i)) 0x0800
    (take (total_len p) (with_checksums p)))"
proof -
  have s: "sealed p" using assms(1) by (simp add: own_source_def)
  let ?q = "with_checksums p"
  have q: "sealed ?q" by (rule sealed_with_checksums [OF s])
  have st: "stems hs i (take (total_len p) ?q)" using assms stems_sent [OF s] by (simp add: own_source_def)
  from fill_checksums_spec [OF sealed_ok(1,2) [OF s]] have c: "ip_checksum_ok ?q" "transport_checksum_ok ?q"
    by (auto simp: with_checksums_def)
  note f = same_header_fields [OF with_checksums_spec(2) [OF sealed_ok(1,2) [OF s]]]
  have wf: "wf_pkt ?q" using q by (rule sealed_ok)
  note t = take_fields [OF wf] ip_src_take [OF wf] checksums_take [OF q c]
  have "i = 1 \<longrightarrow> ip_src ?q = public_addr r" using assms f by (auto simp: own_source_def lan_or_wan_def)
  with t assms(2) f(2,6) st show ?thesis
    unfolding datagram_ok_def by (intro exI [of _ mac] exI [of _ "take (total_len p) ?q"]) simp
qed

lemma copy_own:
  assumes "own_source hs r p"
  shows "own_source hs r (take (total_len p) (with_checksums p))"
proof -
  have s: "sealed p" using assms(1) by (simp add: own_source_def)
  let ?q = "with_checksums p"
  have q: "sealed ?q" by (rule sealed_with_checksums [OF s])
  then have wf: "wf_pkt ?q" by (rule sealed_ok)
  note f = same_header_fields [OF with_checksums_spec(2) [OF sealed_ok(1,2) [OF s]]]
  have "sealed (take (total_len ?q) ?q)" using q take_fields [OF wf] by (simp add: sealed_def)
  with assms f(2,5,6) take_fields(4) [OF wf] ip_src_take [OF wf] stems_sent [OF s] show ?thesis
    by (simp add: own_source_def)
qed

section \<open>Every handler keeps the wire clean\<close>

lemma wire_same:
  assumes "wire_ok A hs r" and "interface_arr r' = interface_arr r" and "sent r' = sent r"
    and "delta_list r' = delta_list r"
  shows "wire_ok A hs r'"
  using assms by (simp add: wire_ok_def frame_ok_same [OF assms(2)])

lemma wire_step:
  assumes "wire_ok A hs r" and "interface_arr r' = interface_arr r" and "sent r' = sent r @ new"
    and "\<forall>x \<in> set new. frame_ok hs r x"
    and "\<And>ip p. p \<in> set (waiting (delta_list r') ip) \<Longrightarrow> p \<in> set (waiting (delta_list r) ip) \<or> own_source hs r p"
  shows "wire_ok A hs r'"
  using assms unfolding wire_ok_def frame_ok_same [OF assms(2)] by auto blast

lemma request_frame_ok: "i < 2 \<Longrightarrow> frame_ok hs r (i, request_frame r i target)"
  by (auto simp: frame_ok_def request_ok_def)

lemma forwarded_wire:
  assumes "forwarded r p r'" and "own_source hs r p" and "wire_ok A hs r"
  shows "wire_ok A hs r'"
proof -
  let ?hop = "next_hop (wan r) (ip_dst p)"
  let ?i = "lan_or_wan (ip_dst p)"
  let ?b = "take (total_len p) (with_checksums p)"
  have "timer_only r r'" using assms(1) by (simp add: forwarded_def)
  then have arr: "interface_arr r' = interface_arr r" by (rule timer_only_simps)
  show ?thesis
  proof (cases "device_map (macs r) ?hop")
    case (Some mac)
    have "datagram_ok hs r ?i (ether_frame mac (device_mac_addr (interface_arr r ! ?i)) 0x0800 ?b)"
      by (rule datagram_sent [OF assms(2) refl])
    moreover have "delta_list r' = delta_list r"
      "sent r' = sent r @ [(?i, ether_frame mac (device_mac_addr (interface_arr r ! ?i)) 0x0800 ?b)]"
      using assms(1) Some by (simp_all add: forwarded_def Let_def)
    ultimately show ?thesis by (intro wire_step [OF assms(3) arr]) (auto simp: frame_ok_def)
  next
    case None
    have "waiting (delta_list r') = (waiting (delta_list r))(?hop := waiting (delta_list r) ?hop @ [?b])"
      "sent r' = sent r @ (if ?hop \<in> dn_ip_addr ` set (delta_list r) then [] else [(?i, request_frame r ?i ?hop)])"
      using assms(1) None by (simp_all add: forwarded_def Let_def)
    then show ?thesis
      using copy_own [OF assms(2)] request_frame_ok [OF lan_or_wan_less]
      by (intro wire_step [OF assms(3) arr]) (auto split: if_splits)
  qed
qed

lemma napt_wire: "napt_only r r1 \<Longrightarrow> wire_ok A hs r \<Longrightarrow> wire_ok A hs r1"
  by (rule wire_same) (simp_all add: napt_only_simps)

text \<open>The packet a handler works on is that of a frame received on its interface.\<close>

definition from_frame :: "(nat \<times> buf) list \<Rightarrow> nat \<Rightarrow> buf \<Rightarrow> bool" where
  "from_frame hs i pkt \<longleftrightarrow> (\<exists>b. (i, b) \<in> set hs \<and> frame_type b = ETHERTYPE_IPV4 \<and> pkt = drop 14 b)"

lemma stems_translated:
  assumes "from_frame hs (1 - i) pkt" and "sealed pkt" and "translatable pkt"
  shows "i = 1 \<Longrightarrow> stems hs i (translate_out ip port pkt)" and "i = 0 \<Longrightarrow> stems hs i (translate_in ip port pkt)"
proof -
  obtain b where b: "(1 - i, b) \<in> set hs" "frame_type b = ETHERTYPE_IPV4" "pkt = drop 14 b"
    using assms(1) by (auto simp: from_frame_def)
  have refl: "same_packet m m" for m by (simp add: same_packet_def)
  show "stems hs i (translate_out ip port pkt)" if "i = 1"
    unfolding stems_def
    by (rule exI [of _ b], rule exI [of _ ip], rule exI [of _ port]) (use that b assms(2,3) refl in simp)
  show "stems hs i (translate_in ip port pkt)" if "i = 0"
    unfolding stems_def
    by (rule exI [of _ b], rule exI [of _ ip], rule exI [of _ port]) (use that b assms(2,3) refl in simp)
qed

lemma out_wire:
  assumes "wire_ok A hs r" and "router_ok r" and "sealed pkt" and proto: "ip_proto pkt = 6 \<or> ip_proto pkt = 17"
    and frame: "from_frame hs 0 pkt" "\<not> on_lan (ip_dst pkt)"
    and res: "napt_out_handle r pkt = Inr (r', q)"
  shows "wire_ok A hs r'"
proof -
  note ok = sealed_ok(2) [OF assms(3)] sealed_ok(3) [OF assms(3) proto]
  have fwd: "wire_ok A hs r'" if "napt_only r r1" "forwarded r1 (translate_out (public_addr r) p pkt) r'" for r1 p
  proof (rule forwarded_wire [OF that(2) _ napt_wire [OF that(1) assms(1)]])
    have "public_addr r1 = public_addr r" using napt_only_simps(1) [OF that(1)] by (simp add: public_addr_def)
    then show "own_source hs r1 (translate_out (public_addr r) p pkt)"
      using sealed_translate(1) [OF assms(3) ok(2)] translate_out_fields(4,5) [OF ok(2)] frame(2)
        stems_translated(1) [of hs 1, OF _ assms(3) ok(2)] frame(1)
      by (simp add: own_source_def lan_or_wan_def)
  qed
  show ?thesis
  proof (cases "intern_map r (flow_key pkt)")
    case (Some e)
    from napt_out_known [OF assms(2) ok(2,1) Some] res fwd show ?thesis by auto
  next
    case None
    show ?thesis
    proof (cases "chosen_port r pkt")
      case no: None
      from napt_out_exhausted [OF assms(2) ok(2) None no] res napt_wire assms(1) show ?thesis by auto
    next
      case (Some p)
      from napt_out_new [OF assms(2) ok(2,1) None Some] res fwd show ?thesis by auto
    qed
  qed
qed

text \<open>The connections in the table belong to addresses of the LAN.\<close>

definition local_entries :: "router \<Rightarrow> bool" where
  "local_entries r \<longleftrightarrow> (\<forall>k e. ek_protocol k \<noteq> 0 \<longrightarrow> extern_map r k = Some e \<longrightarrow> on_lan (lan_ip e))"

lemma inc_wire:
  assumes "wire_ok A hs r" and "router_ok r" and "sealed pkt" and proto: "ip_proto pkt = 6 \<or> ip_proto pkt = 17"
    and "local_entries r" and frame: "from_frame hs 1 pkt" and res: "napt_inc_handle r pkt = Inr (r', q)"
  shows "wire_ok A hs r'"
proof -
  note ok = sealed_ok(2) [OF assms(3)] sealed_ok(3) [OF assms(3) proto]
  show ?thesis
  proof (cases "extern_map r (reply_key pkt)")
    case None
    from napt_inc_miss [OF ok(2) router_okD(4) [OF assms(2)] None] res assms(1) show ?thesis by simp
  next
    case (Some e)
    from napt_inc_hit [OF assms(2) ok(2,1) Some] res have
      f: "forwarded (after_hit r) (translate_in (lan_ip e) (lan_port e) pkt) r'" by auto
    have "ek_protocol (reply_key pkt) \<noteq> 0" using proto by (auto simp: reply_key_def)
    then have "on_lan (lan_ip e)" using assms(5) Some by (auto simp: local_entries_def)
    then have "own_source hs (after_hit r) (translate_in (lan_ip e) (lan_port e) pkt)"
      using sealed_translate(2) [OF assms(3) ok(2)] translate_in_fields(5) [OF ok(2)]
        stems_translated(2) [of hs 0, OF _ assms(3) ok(2)] frame
      by (simp add: own_source_def lan_or_wan_def)
    with f napt_wire [OF after_hit_only assms(1)] show ?thesis by (blast intro: forwarded_wire)
  qed
qed

lemma ipv4_handle_wire:
  assumes "wire_ok A hs r" and "router_ok r" and "20 \<le> length pkt" and "int_id < 2" and "fair_packet r int_id pkt"
    and "local_entries r" and frame: "from_frame hs int_id pkt" and res: "ipv4_handle r pkt int_id = Inr (r', q)"
  shows "wire_ok A hs r'"
proof (cases "passes r int_id pkt")
  case False
  from not_passing [OF router_okD(1) [OF assms(2)] assms(3,4) False] res assms(1) show ?thesis by simp
next
  case True
  have p: "ip_proto pkt = 6 \<or> ip_proto pkt = 17" "sealed pkt" using True assms(5) by (auto simp: passes_def fair_packet_def)
  note conf = router_okD(1) [OF assms(2)]
  from assms(4) consider "int_id = 0" | "int_id = 1" by linarith
  then show ?thesis
  proof cases
    case 1
    have "ipv4_handle r pkt int_id = napt_out_handle r pkt"
      using True ipv4_handle_lan [OF conf assms(3)] by (simp add: 1 passes_def)
    then have "napt_out_handle r pkt = Inr (r', q)" using res by simp
    moreover have "from_frame hs 0 pkt" "\<not> on_lan (ip_dst pkt)" using frame True 1 by (simp_all add: passes_def)
    ultimately show ?thesis using out_wire [OF assms(1,2) p(2,1)] by blast
  next
    case 2
    have "ipv4_handle r pkt int_id = napt_inc_handle r pkt"
      using True unfolding 2 ipv4_handle_wan [OF conf assms(3)] by (auto simp: passes_def)
    then have "napt_inc_handle r pkt = Inr (r', q)" using res by simp
    moreover have "from_frame hs 1 pkt" using frame by (simp add: 2)
    ultimately show ?thesis using inc_wire [OF assms(1,2) p(2,1) assms(6)] by blast
  qed
qed

lemma frames_for_wire:
  assumes "\<forall>p \<in> set ps. own_source hs r p"
  shows "\<forall>x \<in> set (frames_for r mac ps). frame_ok hs r x"
proof
  fix x
  assume "x \<in> set (frames_for r mac ps)"
  then obtain p where p: "p \<in> set ps" "x = (lan_or_wan (ip_dst p), ipv4_frame r mac (with_checksums p))"
    by (auto simp: frames_for_def)
  then have own: "own_source hs r p" using assms by blast
  then have "sealed p" by (simp add: own_source_def)
  from same_header_fields [OF with_checksums_spec(2) [OF sealed_ok(1,2) [OF this]]]
  have "ipv4_frame r mac (with_checksums p) =
      ether_frame mac (device_mac_addr (interface_arr r ! lan_or_wan (ip_dst p))) 0x0800
        (take (total_len p) (with_checksums p))" by (simp add: ipv4_frame_def)
  with datagram_sent [OF own refl] p(2) show "frame_ok hs r x" by (simp add: frame_ok_def)
qed

lemma arp_handle_wire:
  assumes "wire_ok A hs r" and "clean r" and "int_id < 2" and "delta_list r = [] \<or> snd (timer_left r) \<noteq> 0"
    and res: "arp_handle r a int_id = Inr r'"
  shows "wire_ok A hs r'"
proof (cases "protocol_type a = htons 0x0800 \<and> hardware_type a = htons 0x0001 \<and> sender_ip a \<noteq> IpAddr 0 0 0 0")
  case False
  then have "arp_handle r a int_id = Inr r" by (auto simp: arp_handle_def ntohs_eq_iff)
  with assms(1) res show ?thesis by simp
next
  case True
  have ok: "router_ok r" "queue_ready r" using assms(2) by (simp_all add: clean_def)
  note okD = router_okD [OF ok(1)]
  from arp_handle_spec [OF okD(3,1,2) ok(2) assms(4,3), of a] True res have
    r': "timer_only (r\<lparr>macs := macs r'\<rparr>) r'"
      "waiting (delta_list r') = (waiting (delta_list r))(sender_ip a := [])"
      "sent r' = sent r @ frames_for r (sender_mac a) (waiting (delta_list r) (sender_ip a))" by auto
  have "interface_arr r' = interface_arr r" using timer_only_simps(1) [OF r'(1)] by simp
  moreover have "\<forall>p \<in> set (waiting (delta_list r) (sender_ip a)). own_source hs r p"
    using assms(1) by (simp add: wire_ok_def)
  ultimately show ?thesis
    using r'(2,3) by (intro wire_step [OF assms(1)]) (auto simp: frames_for_wire split: if_splits)
qed

lemma timer_handler_wire:
  assumes "wire_ok A hs r" and "clean r" and res: "timer_handler (r\<lparr>timer_left := (0, 0)\<rparr>) = Inr r'"
  shows "wire_ok A hs r'"
proof -
  let ?r = "r\<lparr>timer_left := (0, 0)\<rparr>"
  have "router_ok r" using assms(2) by (simp add: clean_def)
  then have t: "delta_ok (delta_list ?r)" "\<not> held (timer_mutex ?r)" "configured (interface_arr ?r)"
    by (simp_all add: router_ok_def timer_inv_def)
  from timer_handler_expired [OF t] res have
    r': "timer_only ?r r'" "delta_list r' = after_expiry (head_expired (delta_list r))"
      "sent r' = sent r @ retry_frames ?r (to_retry (head_expired (delta_list r)))" by auto
  have arr: "interface_arr r' = interface_arr r" using timer_only_simps(1) [OF r'(1)] by simp
  have "set (waiting (delta_list r') ip) \<subseteq> set (waiting (delta_list r) ip)" for ip
    using t(1) by (simp add: r'(2) waiting_after_expiry delta_ok_def)
  moreover have "request_frame ?r i ip = request_frame r i ip" for i ip
    by (simp add: request_frame_def request_for_def)
  then have "\<forall>x \<in> set (retry_frames ?r ns). frame_ok hs r x" for ns
    using request_frame_ok [OF lan_or_wan_less] by (auto simp: retry_frames_def)
  ultimately show ?thesis using r'(3) by (intro wire_step [OF assms(1) arr]) auto
qed

lemma ethernet_handle_wire:
  assumes "wire_ok A hs r" and "clean r" and "length b = ETHER_MTU" and "int_id < 2" and "fair_frame r int_id b"
    and "local_entries r" and "(int_id, b) \<in> set hs" and res: "ethernet_handle r b int_id = Inr (r', b')"
  shows "wire_ok A hs r'"
proof -
  have len: "34 \<le> length b" "42 \<le> length b" using assms(3) by (simp_all add: ETHER_MTU_def)
  consider "frame_type b = ETHERTYPE_IPV4" | "frame_type b = ETHERTYPE_ARP"
    | "frame_type b \<noteq> ETHERTYPE_IPV4" "frame_type b \<noteq> ETHERTYPE_ARP" by blast
  then show ?thesis
  proof cases
    case 1
    have "devices_inv (macs r)" using assms(2) by (simp add: clean_def router_ok_def)
    from learn_spec [OF this] obtain d where
      d: "learn r (ip_src (drop 14 b)) (frame_mac b) = Inr (r\<lparr>macs := d\<rparr>)" "devices_inv d" by blast
    let ?r = "r\<lparr>macs := d\<rparr>"
    have "fair_packet ?r int_id (drop 14 b)"
      using assms(5) 1 learned(2) [OF assms(2) d(2)] by (simp add: fair_frame_def)
    moreover have "wire_ok A hs ?r" by (rule wire_same [OF assms(1)]) simp_all
    moreover have "router_ok ?r" using learned(1) [OF assms(2) d(2)] by (simp add: clean_def)
    moreover have "local_entries ?r" using assms(6) by (simp add: local_entries_def extern_map_def)
    moreover have "20 \<le> length (drop 14 b)" using len by simp
    moreover have "from_frame hs int_id (drop 14 b)" using assms(7) 1 by (auto simp: from_frame_def)
    moreover obtain q where "ipv4_handle ?r (drop 14 b) int_id = Inr (r', q)"
      using res d(1) by (auto simp: ethernet_handle_ipv4 [OF len(1) 1] ebind_Inr_iff)
    ultimately show ?thesis using assms(4) by (blast intro: ipv4_handle_wire)
  next
    case 2
    have "delta_list r = [] \<or> snd (timer_left r) \<noteq> 0" using assms(5) 2 by (simp add: fair_frame_def)
    from arp_handle_wire [OF assms(1,2,4) this] res show ?thesis
      by (auto simp: ethernet_handle_arp [OF len(2) 2] ebind_Inr_iff)
  next
    case 3
    from ethernet_handle_other [OF len(1) 3] assms(1) res show ?thesis by simp
  qed
qed

lemma wire_mono:
  assumes "wire_ok A hs r" and "set hs \<subseteq> set hs'"
  shows "wire_ok A hs' r"
proof -
  have st: "stems hs' i q" if "stems hs i q" for i q using that assms(2) unfolding stems_def by blast
  then have "datagram_ok hs' r i f" if "datagram_ok hs r i f" for i f using that unfolding datagram_ok_def by blast
  with st assms(1) show ?thesis by (auto simp: wire_ok_def frame_ok_def own_source_def)
qed

section \<open>Runs\<close>

text \<open>A fair event in which the LAN uses its own addresses.\<close>

definition local_sender :: "nat \<times> buf \<Rightarrow> bool" where
  "local_sender h \<longleftrightarrow>
     (fst h = 0 \<longrightarrow> frame_type (snd h) = ETHERTYPE_IPV4 \<longrightarrow> on_lan (ip_src (drop 14 (snd h))))"

fun local_event :: "system \<Rightarrow> event \<Rightarrow> bool" where
  "local_event s (Frame int_id incoming) \<longleftrightarrow>
     fair_event s (Frame int_id incoming) \<and>
     (int_id < 2 \<longrightarrow> local_sender (int_id, read_into (rx s ! int_id) incoming))"
| "local_event s _ \<longleftrightarrow> True"

definition wired_system :: "interface_table \<Rightarrow> system \<Rightarrow> bool" where
  "wired_system A s \<longleftrightarrow>
     good_system s \<and> fw_sound s \<and> (\<forall>h \<in> set (handled s). local_sender h) \<and> wire_ok A (handled s) (core s)"

lemma wired_entries:
  assumes "wired_system A s"
  shows "local_entries (core s)"
proof -
  have "asked (handled s) k e \<Longrightarrow> on_lan (lan_ip e)" for k e
    using assms by (fastforce simp: wired_system_def asked_def asked_for_def local_sender_def)
  with assms show ?thesis by (auto simp: local_entries_def wired_system_def fw_sound_def)
qed

lemma wired_step:
  assumes "wired_system A s" and "local_event s ev"
  shows "\<exists>s'. react s ev = Inr s' \<and> wired_system A s'"
proof -
  have w: "good_system s" "fw_sound s" "\<forall>h \<in> set (handled s). local_sender h" "wire_ok A (handled s) (core s)" "clean (core s)"
    using assms(1) by (simp_all add: wired_system_def good_system_def)
  have fair: "fair_event s ev" using assms(2) by (cases ev) simp_all
  from good_step [OF w(1) fair] obtain s' where s': "react s ev = Inr s'" "good_system s'" by blast
  have "(\<forall>h \<in> set (handled s'). local_sender h) \<and> wire_ok A (handled s') (core s')"
  proof (cases ev)
    case (Frame i inc)
    show ?thesis
    proof (cases "i < 2")
      case True
      have i: "length (rx s ! i) = ETHER_MTU" "i < length (rx s)" using w(1) True by (simp_all add: good_system_def)
      let ?b = "read_into (rx s ! i) inc"
      have f: "fair_frame (core s) i ?b" "local_sender (i, ?b)" using assms(2) Frame True by simp_all
      obtain r' b' where r': "ethernet_handle (core s) ?b i = Inr (r', b')"
        "s' = s\<lparr>core := r', rx := (rx s)[i := b'], handled := handled s @ [(i, ?b)]\<rparr>"
        using s'(1) i(2) by (auto simp: Frame receive_def Let_def ebind_Inr_iff)
      have "wire_ok A (handled s @ [(i, ?b)]) (core s)" by (rule wire_mono [OF w(4)]) auto
      from ethernet_handle_wire [OF this w(5) length_read_into [OF i(1)] True f(1) wired_entries [OF assms(1)] _ r'(1)]
      show ?thesis using w(3) f(2) r'(2) by simp
    next
      case False
      with s'(1) Frame w show ?thesis by (simp add: good_system_def)
    qed
  next
    case Expire
    then have "s' = s \<or> (\<exists>r'. timer_handler ((core s)\<lparr>timer_left := (0, 0)\<rparr>) = Inr r' \<and> s' = s\<lparr>core := r'\<rparr>)"
      using s'(1) by (auto simp: ebind_Inr_iff split: if_splits)
    with w timer_handler_wire show ?thesis by auto
  next
    case (Elapse left)
    then have "s' = s \<or> s' = s\<lparr>core := (core s)\<lparr>timer_left := left\<rparr>\<rparr>" using s'(1) by (auto split: if_splits)
    moreover have "wire_ok A (handled s) ((core s)\<lparr>timer_left := left\<rparr>)" by (rule wire_same [OF w(4)]) simp_all
    ultimately show ?thesis using w by auto
  qed
  with s' w(2) firewall.step_sound show ?thesis by (auto simp: wired_system_def)
qed

interpretation wired_run: faultless_system react "wired_system A" local_event for A
  by unfold_locales (rule wired_step)

text \<open>The state the start of the program reaches.\<close>

lemma boot_wired:
  assumes "good_system s" and "fw_sound s"
    and "s = \<lparr>core = reconfigured (start_router rands) arr w, rx = [buf0, buf1], handled = []\<rparr>"
  shows "wired_system (interface_arr (core s)) s"
proof -
  have "sent (start_router rands) = []"
    by (simp add: start_router_def napt_init_def router_at_start_def)
  then show ?thesis
    using assms(1,2) start_router_ok(5) [of rands]
    by (simp add: wired_system_def wire_ok_def assms(3)) (simp add: reconfigured_def)
qed

section \<open>Properties\<close>

lemma datagram_on_wan:
  assumes "frame_ok hs r (1, f)" and "frame_type f = ETHERTYPE_IPV4"
  shows "ip_src (drop 14 f) = public_addr r"
proof -
  have "frame_type (ether_frame m s t q) = t" "drop 14 (ether_frame m s t q) = q" for m s t q
    by (cases m; cases s; simp add: ether_frame_def frame_type_def numeral_eq_Suc)+
  with assms show ?thesis
    by (auto simp: frame_ok_def request_ok_def datagram_ok_def request_frame_def ETHERTYPE_IPV4_def)
qed

text \<open>
  C4: what leaves the router is well typed.  After the start, whatever addresses the machine
  has, and over every run of fair events in which the hosts of the LAN use addresses of the
  LAN, each frame ever written is an ARP request with the addresses of the interface it leaves
  on, or an IPv4 datagram of exactly its total length, with the interface's MAC address, valid
  IP and transport checksums, and a destination that lies behind that interface.  Each
  datagram is the packet of a frame received on the other interface but for the translated
  address and port and the checksums: none is invented.  Every datagram written to the WAN
  carries the router's own source address: no address of the LAN leaks.
\<close>

theorem sent_frames_typed:
  assumes "\<forall>a \<in> set addrs. scannable ''veth-hostroute'' a"
    and "length buf0 = ETHER_MTU" and "length buf1 = ETHER_MTU"
    and "boot rands True addrs [sock0, sock1] buf0 buf1 = Inr s0"
    and "fair_run react local_event es s0"
  shows "\<exists>s. run_events react es s0 = Inr s \<and> interface_arr (core s) = interface_arr (core s0) \<and>
    (\<forall>i f. (i, f) \<in> set (sent (core s)) \<longrightarrow> request_ok (core s) i f \<or> datagram_ok (handled s) (core s) i f) \<and>
    (\<forall>f. (1, f) \<in> set (sent (core s)) \<longrightarrow> frame_type f = ETHERTYPE_IPV4 \<longrightarrow>
      ip_src (drop 14 f) = public_addr (core s0))"
proof -
  obtain s1 arr w where s1: "boot rands True addrs [sock0, sock1] buf0 buf1 =
      (if usable sock0 \<and> usable sock1 then Inr s1 else Inl Diverges)"
    "s1 = \<lparr>core = reconfigured (start_router rands) arr w, rx = [buf0, buf1], handled = []\<rparr>"
    "good_system s1" "fw_sound s1" by (rule boot_spec [OF assms(1-3)])
  then have "s1 = s0" using assms(4) by (simp split: if_splits)
  with boot_wired [OF s1(3,4,2)] have "wired_system (interface_arr (core s0)) s0" by simp
  from wired_run.run_good [OF this assms(5)] obtain s where
    s: "run_events react es s0 = Inr s" "wired_system (interface_arr (core s0)) s" by blast
  then have arr: "interface_arr (core s) = interface_arr (core s0)"
    by (simp add: wired_system_def wire_ok_def)
  then have "public_addr (core s) = public_addr (core s0)" by (simp add: public_addr_def)
  moreover have "frame_ok (handled s) (core s) x" if "x \<in> set (sent (core s))" for x
    using that s(2) by (simp add: wired_system_def wire_ok_def)
  ultimately show ?thesis using s(1) arr datagram_on_wan by (fastforce simp: frame_ok_def)
qed

text \<open>A packet of a host on the LAN.\<close>

lemma booted_local:
  assumes s: "s0 = \<lparr>core = reconfigured (start_router rands) arr w, rx = [blank, blank], handled = []\<rparr>"
    and "good_system s0"
  shows "fair_run react local_event [Frame 0 (Some sample_frame)] s0"
proof -
  let ?r = "reconfigured (start_router rands) arr w"
  have "extern_map ?r = Map.empty" using start_router_ok(2) [of rands] by (simp add: extern_map_def)
  then have "chosen_port ?r pkt \<noteq> None" for pkt
    by (simp add: chosen_port_def is_free_def next_ports_def find_None_iff)
  then have "fair_frame ?r 0 (read_into blank (Some sample_frame))"
    unfolding fair_frame_def fair_packet_def read_sample
    using packet_in_buffer(8) [OF refl] start_router_ok(5) by simp
  moreover have "ip_src (udp_packet (IpAddr 192 168 1 50) 5000 (IpAddr 8 8 8 8) 53 @ z) = IpAddr 192 168 1 50" for z
    by (rule packet_in_buffer(5) [OF refl])
  then have "local_sender (0, read_into blank (Some sample_frame))"
    unfolding local_sender_def fst_conv snd_conv read_sample by (simp add: on_lan_def)
  ultimately show ?thesis by (simp add: s split: sum.split)
qed

theorem sent_frames_typed_witness:
  "\<exists>s0 s. boot (\<lambda>_. 0) True sample_addresses [Some 5, Some 6] blank blank = Inr s0 \<and>
    run_events react [Frame 0 (Some sample_frame)] s0 = Inr s \<and>
    (\<forall>x \<in> set (sent (core s)). request_ok (core s) (fst x) (snd x) \<or> datagram_ok (handled s) (core s) (fst x) (snd x))"
proof -
  have len: "length blank = ETHER_MTU" by (simp add: blank_def)
  obtain s0 arr w where s0: "boot (\<lambda>_. 0) True sample_addresses [Some 5, Some 6] blank blank =
      (if usable (Some 5) \<and> usable (Some 6) then Inr s0 else Inl Diverges)"
    "s0 = \<lparr>core = reconfigured (start_router (\<lambda>_. 0)) arr w, rx = [blank, blank], handled = []\<rparr>"
    "good_system s0" by (rule boot_spec [OF sample_scannable len len])
  have b: "boot (\<lambda>_. 0) True sample_addresses [Some 5, Some 6] blank blank = Inr s0"
    using s0(1) sample_sockets by simp
  from sent_frames_typed [OF sample_scannable len len b booted_local [OF s0(2,3)]] b
  show ?thesis by fastforce
qed

end
