(* ===== verification/Headers.thy ===== *)
theory Headers
  imports Napt_Flows
begin

text \<open>
  The packet headers as the code declares them (\<open>structs.h\<close>, \<open>ipv4.h\<close>, \<open>outgoing.h\<close>,
  \<open>ethernet.h\<close>), their layout in memory, and what translation and the checksum code do to
  their fields.  The handlers of the other theories access the same bytes by their offsets.
\<close>

section \<open>Records and their layout\<close>

text \<open>
  Multi-byte fields hold the value as it is stored, in network order, read by a little-endian
  machine.  Bit fields fill their byte from the least significant bit on, as GCC lays them
  out there.
\<close>

record ipv4_hdr =
  ver_ihl :: u8
  dscp_ecn :: u8
  total_length :: u16
  identification :: u16
  flags_offset :: u16
  ttl :: u8
  hdr_protocol :: u8
  hdr_checksum :: u16
  hdr_ip_src :: ip_addr
  hdr_ip_dst :: ip_addr

definition ipv4_hdr_bytes :: "ipv4_hdr \<Rightarrow> buf" where
  "ipv4_hdr_bytes h =
     [ver_ihl h, dscp_ecn h, lo8 (total_length h), hi8 (total_length h),
      lo8 (identification h), hi8 (identification h), lo8 (flags_offset h), hi8 (flags_offset h),
      ttl h, hdr_protocol h, lo8 (hdr_checksum h), hi8 (hdr_checksum h)]
     @ ip_bytes (hdr_ip_src h) @ ip_bytes (hdr_ip_dst h)"

definition ipv4_hdr_at :: "buf \<Rightarrow> nat \<Rightarrow> ipv4_hdr" where
  "ipv4_hdr_at b p =
     \<lparr>ver_ihl = b ! p, dscp_ecn = b ! (p + 1), total_length = le16 (b ! (p + 2)) (b ! (p + 3)),
      identification = le16 (b ! (p + 4)) (b ! (p + 5)), flags_offset = le16 (b ! (p + 6)) (b ! (p + 7)),
      ttl = b ! (p + 8), hdr_protocol = b ! (p + 9), hdr_checksum = le16 (b ! (p + 10)) (b ! (p + 11)),
      hdr_ip_src = ip_at b (p + 12), hdr_ip_dst = ip_at b (p + 16)\<rparr>"

record udp_hdr =
  udp_port_src :: u16
  udp_port_dst :: u16
  udp_length :: u16
  udp_checksum :: u16

definition udp_hdr_bytes :: "udp_hdr \<Rightarrow> buf" where
  "udp_hdr_bytes h =
     [lo8 (udp_port_src h), hi8 (udp_port_src h), lo8 (udp_port_dst h), hi8 (udp_port_dst h),
      lo8 (udp_length h), hi8 (udp_length h), lo8 (udp_checksum h), hi8 (udp_checksum h)]"

definition udp_hdr_at :: "buf \<Rightarrow> nat \<Rightarrow> udp_hdr" where
  "udp_hdr_at b p =
     \<lparr>udp_port_src = le16 (b ! p) (b ! (p + 1)), udp_port_dst = le16 (b ! (p + 2)) (b ! (p + 3)),
      udp_length = le16 (b ! (p + 4)) (b ! (p + 5)), udp_checksum = le16 (b ! (p + 6)) (b ! (p + 7))\<rparr>"

record tcp_hdr =
  tcp_port_src :: u16
  tcp_port_dst :: u16
  seq_num :: u32
  ack_num :: u32
  data_offset :: "4 word"
  reserved :: "3 word"
  ns_flag :: bool
  cwr_flag :: bool
  ece_flag :: bool
  urg_flag :: bool
  ack_flag :: bool
  psh_flag :: bool
  rst_flag :: bool
  syn_flag :: bool
  fin_flag :: bool
  window_size :: u16
  tcp_checksum :: u16
  urgent_ptr :: u16

definition offset_byte :: "tcp_hdr \<Rightarrow> u8" where
  "offset_byte h = (ucast (data_offset h) OR push_bit 4 (ucast (reserved h))) OR push_bit 7 (of_bool (ns_flag h))"

definition flag_byte :: "tcp_hdr \<Rightarrow> u8" where
  "flag_byte h =
     horner_sum of_bool 2
       [cwr_flag h, ece_flag h, urg_flag h, ack_flag h, psh_flag h, rst_flag h, syn_flag h, fin_flag h]"

definition tcp_hdr_bytes :: "tcp_hdr \<Rightarrow> buf" where
  "tcp_hdr_bytes h =
     [lo8 (tcp_port_src h), hi8 (tcp_port_src h), lo8 (tcp_port_dst h), hi8 (tcp_port_dst h),
      byte32 0 (seq_num h), byte32 1 (seq_num h), byte32 2 (seq_num h), byte32 3 (seq_num h),
      byte32 0 (ack_num h), byte32 1 (ack_num h), byte32 2 (ack_num h), byte32 3 (ack_num h),
      offset_byte h, flag_byte h, lo8 (window_size h), hi8 (window_size h),
      lo8 (tcp_checksum h), hi8 (tcp_checksum h), lo8 (urgent_ptr h), hi8 (urgent_ptr h)]"

definition tcp_hdr_at :: "buf \<Rightarrow> nat \<Rightarrow> tcp_hdr" where
  "tcp_hdr_at b p =
     \<lparr>tcp_port_src = le16 (b ! p) (b ! (p + 1)), tcp_port_dst = le16 (b ! (p + 2)) (b ! (p + 3)),
      seq_num = le32 (b ! (p + 4)) (b ! (p + 5)) (b ! (p + 6)) (b ! (p + 7)),
      ack_num = le32 (b ! (p + 8)) (b ! (p + 9)) (b ! (p + 10)) (b ! (p + 11)),
      data_offset = ucast (b ! (p + 12)), reserved = ucast (drop_bit 4 (b ! (p + 12))), ns_flag = bit (b ! (p + 12)) 7,
      cwr_flag = bit (b ! (p + 13)) 0, ece_flag = bit (b ! (p + 13)) 1, urg_flag = bit (b ! (p + 13)) 2,
      ack_flag = bit (b ! (p + 13)) 3, psh_flag = bit (b ! (p + 13)) 4, rst_flag = bit (b ! (p + 13)) 5,
      syn_flag = bit (b ! (p + 13)) 6, fin_flag = bit (b ! (p + 13)) 7,
      window_size = le16 (b ! (p + 14)) (b ! (p + 15)), tcp_checksum = le16 (b ! (p + 16)) (b ! (p + 17)),
      urgent_ptr = le16 (b ! (p + 18)) (b ! (p + 19))\<rparr>"

text \<open>\<open>ethernet_hdr_t\<close> and \<open>struct ip_pseudo_hdr\<close>.\<close>

record ethernet_hdr =
  mac_dst :: mac_addr
  mac_src :: mac_addr
  ethertype :: u16

definition ethernet_hdr_bytes :: "ethernet_hdr \<Rightarrow> buf" where
  "ethernet_hdr_bytes h = mac_bytes (mac_dst h) @ mac_bytes (mac_src h) @ [lo8 (ethertype h), hi8 (ethertype h)]"

definition ethernet_hdr_at :: "buf \<Rightarrow> nat \<Rightarrow> ethernet_hdr" where
  "ethernet_hdr_at b p =
     \<lparr>mac_dst = mac_at b p, mac_src = mac_at b (p + 6), ethertype = le16 (b ! (p + 12)) (b ! (p + 13))\<rparr>"

record ip_pseudo_hdr =
  addr_src :: ip_addr
  addr_dst :: ip_addr
  zero_byte :: u8
  proto :: u8
  pseudo_length :: u16

definition ip_pseudo_hdr_bytes :: "ip_pseudo_hdr \<Rightarrow> buf" where
  "ip_pseudo_hdr_bytes h =
     ip_bytes (addr_src h) @ ip_bytes (addr_dst h)
     @ [zero_byte h, proto h, lo8 (pseudo_length h), hi8 (pseudo_length h)]"

section \<open>Reading what was written\<close>

lemma ipv4_hdr_roundtrip: "ipv4_hdr_at (ipv4_hdr_bytes h @ rest) 0 = h" "length (ipv4_hdr_bytes h) = 20"
  by (cases h; cases "hdr_ip_src h"; cases "hdr_ip_dst h";
      simp add: ipv4_hdr_at_def ipv4_hdr_bytes_def ip_at_def numeral_eq_Suc)+

lemma udp_hdr_roundtrip: "udp_hdr_at (udp_hdr_bytes h @ rest) 0 = h" "length (udp_hdr_bytes h) = 8"
  by (cases h; simp add: udp_hdr_at_def udp_hdr_bytes_def numeral_eq_Suc)+

lemma ethernet_hdr_roundtrip: "ethernet_hdr_at (ethernet_hdr_bytes h @ rest) 0 = h" "length (ethernet_hdr_bytes h) = 14"
  by (cases h; cases "mac_dst h"; cases "mac_src h";
      simp add: ethernet_hdr_at_def ethernet_hdr_bytes_def mac_at_def numeral_eq_Suc)+

lemma bit_offset_byte:
  "bit (offset_byte h) n \<longleftrightarrow>
     (if n < 4 then bit (data_offset h) n else if n < 7 then bit (reserved h) (n - 4) else n = 7 \<and> ns_flag h)"
  by (auto simp: offset_byte_def bit_simps dest: bit_imp_le_length)

lemma offset_byte_fields:
  "ucast (offset_byte h) = data_offset h" "ucast (drop_bit 4 (offset_byte h)) = reserved h"
  "bit (offset_byte h) 7 = ns_flag h"
  by (rule bit_word_eqI; auto simp: bit_offset_byte bit_simps dest: bit_imp_le_length)+
    (simp add: bit_offset_byte)

lemma flag_byte_bits:
  "bit (flag_byte h) 0 = cwr_flag h" "bit (flag_byte h) 1 = ece_flag h" "bit (flag_byte h) 2 = urg_flag h"
  "bit (flag_byte h) 3 = ack_flag h" "bit (flag_byte h) 4 = psh_flag h" "bit (flag_byte h) 5 = rst_flag h"
  "bit (flag_byte h) 6 = syn_flag h" "bit (flag_byte h) 7 = fin_flag h"
  by (simp_all add: flag_byte_def bit_horner_sum_bit_iff numeral_eq_Suc)

lemma tcp_hdr_roundtrip: "tcp_hdr_at (tcp_hdr_bytes h @ rest) 0 = h" "length (tcp_hdr_bytes h) = 20"
proof -
  let ?b = "tcp_hdr_bytes h @ rest"
  have o: "?b ! 12 = offset_byte h" "?b ! 13 = flag_byte h" by (simp_all add: tcp_hdr_bytes_def)
  have l: "le32 (byte32 0 w) (byte32 (Suc 0) w) (byte32 (Suc (Suc 0)) w) (byte32 (Suc (Suc (Suc 0))) w) = w" for w
    using le32_byte32 [of w] by (simp add: numeral_eq_Suc)
  show "tcp_hdr_at ?b 0 = h"
    unfolding tcp_hdr_at_def add_0 o offset_byte_fields flag_byte_bits
    by (simp add: tcp_hdr_bytes_def numeral_eq_Suc l)
qed (simp add: tcp_hdr_bytes_def)

text \<open>Every object of the right size is the layout of a record.\<close>

lemma ipv4_hdr_surj: "length b = 20 \<Longrightarrow> ipv4_hdr_bytes (ipv4_hdr_at b 0) = b"
  by (rule nth_equalityI)
    (auto simp: ipv4_hdr_bytes_def ipv4_hdr_at_def ip_at_def less_Suc_eq numeral_eq_Suc)

lemma udp_hdr_surj: "length b = 8 \<Longrightarrow> udp_hdr_bytes (udp_hdr_at b 0) = b"
  by (rule nth_equalityI) (auto simp: udp_hdr_bytes_def udp_hdr_at_def less_Suc_eq numeral_eq_Suc)

section \<open>The offsets of the handlers are fields\<close>

lemma ipv4_fields:
  "ver_ihl (ipv4_hdr_at pkt 0) = pkt ! 0" "total_length (ipv4_hdr_at pkt 0) = le16 (pkt ! 2) (pkt ! 3)"
  "hdr_protocol (ipv4_hdr_at pkt 0) = ip_proto pkt" "hdr_ip_src (ipv4_hdr_at pkt 0) = ip_src pkt"
  "hdr_ip_dst (ipv4_hdr_at pkt 0) = ip_dst pkt"
  by (simp_all add: ipv4_hdr_at_def ip_proto_def ip_src_def ip_dst_def numeral_eq_Suc)

lemma transport_fields:
  "to_port (udp_port_src (udp_hdr_at pkt (hlen pkt))) = tpt_src pkt"
  "to_port (udp_port_dst (udp_hdr_at pkt (hlen pkt))) = tpt_dst pkt"
  "to_port (tcp_port_src (tcp_hdr_at pkt (hlen pkt))) = tpt_src pkt"
  "to_port (tcp_port_dst (tcp_hdr_at pkt (hlen pkt))) = tpt_dst pkt"
  "udp_checksum (udp_hdr_at pkt (hlen pkt)) = udp_cksum pkt"
  "unat (ntohs (udp_length (udp_hdr_at pkt (hlen pkt)))) = udp_len pkt"
  by (simp_all add: udp_hdr_at_def tcp_hdr_at_def tpt_src_def tpt_dst_def udp_cksum_def udp_len_def numeral_eq_Suc)

lemma pseudo_hdr_layout:
  "pseudo_bytes pkt len = ip_pseudo_hdr_bytes
     \<lparr>addr_src = ip_src pkt, addr_dst = ip_dst pkt, zero_byte = 0, proto = ip_proto pkt, pseudo_length = len\<rparr>"
  by (simp add: pseudo_bytes_def ip_pseudo_hdr_bytes_def)

lemma ether_frame_layout:
  "ether_frame dst src t payload =
     ethernet_hdr_bytes \<lparr>mac_dst = dst, mac_src = src, ethertype = htons t\<rparr> @ payload"
  by (simp add: ether_frame_def ethernet_hdr_bytes_def)

section \<open>What translation and checksums change\<close>

text \<open>
  The header of \<open>q\<close> is that of \<open>p\<close> with the fields \<open>f\<close>, \<open>g\<close> and \<open>h\<close> set and new
  checksums; options and payload are the same.
\<close>

definition rewritten ::
  "(ipv4_hdr \<Rightarrow> ipv4_hdr) \<Rightarrow> (udp_hdr \<Rightarrow> udp_hdr) \<Rightarrow> (tcp_hdr \<Rightarrow> tcp_hdr) \<Rightarrow> buf \<Rightarrow> buf \<Rightarrow> bool" where
  "rewritten f g h p q \<longleftrightarrow> length q = length p \<and>
     (\<exists>c. ipv4_hdr_at q 0 = (f (ipv4_hdr_at p 0))\<lparr>hdr_checksum := c\<rparr>) \<and>
     (\<forall>i. 20 \<le> i \<longrightarrow> i < hlen p \<longrightarrow> q ! i = p ! i) \<and>
     (ip_proto p = 17 \<longrightarrow>
        (\<exists>c. udp_hdr_at q (hlen p) = (g (udp_hdr_at p (hlen p)))\<lparr>udp_checksum := c\<rparr>) \<and>
        (\<forall>i. 8 \<le> i \<longrightarrow> i < udp_len p \<longrightarrow> hlen p + i < length p \<longrightarrow> q ! (hlen p + i) = p ! (hlen p + i))) \<and>
     (ip_proto p = 6 \<longrightarrow>
        (\<exists>c. tcp_hdr_at q (hlen p) = (h (tcp_hdr_at p (hlen p)))\<lparr>tcp_checksum := c\<rparr>) \<and>
        (\<forall>i. 20 \<le> i \<longrightarrow> i < tcp_len p \<longrightarrow> q ! (hlen p + i) = p ! (hlen p + i)))"

text \<open>The transport header lies within the packet.\<close>

definition complete :: "buf \<Rightarrow> bool" where
  "complete pkt \<longleftrightarrow> transport_ok pkt \<and>
     (ip_proto pkt = 17 \<longrightarrow> 8 \<le> udp_len pkt) \<and> (ip_proto pkt = 6 \<longrightarrow> 20 \<le> tcp_len pkt)"

lemma ipv4_hdr_at_same:
  assumes "\<And>i. i < 20 \<Longrightarrow> i \<noteq> 10 \<Longrightarrow> i \<noteq> 11 \<Longrightarrow> q ! i = p ! i"
  shows "ipv4_hdr_at q 0 = (ipv4_hdr_at p 0)\<lparr>hdr_checksum := hdr_checksum (ipv4_hdr_at q 0)\<rparr>"
  by (simp add: ipv4_hdr_at_def ip_at_def assms)

lemma udp_hdr_at_same:
  assumes "\<And>i. i < 6 \<Longrightarrow> q ! (n + i) = p ! (n + i)"
  shows "udp_hdr_at q n = (udp_hdr_at p n)\<lparr>udp_checksum := udp_checksum (udp_hdr_at q n)\<rparr>"
  using assms [of 0] assms [of 1] assms [of 2] by (simp add: udp_hdr_at_def assms)

lemma tcp_hdr_at_same:
  assumes "\<And>i. i < 20 \<Longrightarrow> i \<noteq> 16 \<Longrightarrow> i \<noteq> 17 \<Longrightarrow> q ! (n + i) = p ! (n + i)"
  shows "tcp_hdr_at q n = (tcp_hdr_at p n)\<lparr>tcp_checksum := tcp_checksum (tcp_hdr_at q n)\<rparr>"
  using assms [of 0] assms [of 1] assms [of 2] by (simp add: tcp_hdr_at_def assms)

lemma rewrittenI:
  assumes "length q = length p"
    and "ipv4_hdr_at q 0 = (f (ipv4_hdr_at p 0))\<lparr>hdr_checksum := c0\<rparr>"
    and "\<And>i. 20 \<le> i \<Longrightarrow> i < hlen p \<Longrightarrow> q ! i = p ! i"
    and "ip_proto p = 17 \<Longrightarrow> udp_hdr_at q (hlen p) = (g (udp_hdr_at p (hlen p)))\<lparr>udp_checksum := c1\<rparr>"
    and "\<And>i. ip_proto p = 17 \<Longrightarrow> 8 \<le> i \<Longrightarrow> i < udp_len p \<Longrightarrow> hlen p + i < length p \<Longrightarrow>
      q ! (hlen p + i) = p ! (hlen p + i)"
    and "ip_proto p = 6 \<Longrightarrow> tcp_hdr_at q (hlen p) = (h (tcp_hdr_at p (hlen p)))\<lparr>tcp_checksum := c2\<rparr>"
    and "\<And>i. ip_proto p = 6 \<Longrightarrow> 20 \<le> i \<Longrightarrow> i < tcp_len p \<Longrightarrow> q ! (hlen p + i) = p ! (hlen p + i)"
  shows "rewritten f g h p q"
  unfolding rewritten_def
proof (intro conjI impI)
  show "length q = length p" by (rule assms(1))
  show "\<exists>c. ipv4_hdr_at q 0 = (f (ipv4_hdr_at p 0))\<lparr>hdr_checksum := c\<rparr>" by (rule exI, rule assms(2))
  show "\<forall>i. 20 \<le> i \<longrightarrow> i < hlen p \<longrightarrow> q ! i = p ! i" by (simp add: assms(3))
  assume u: "ip_proto p = 17"
  show "\<exists>c. udp_hdr_at q (hlen p) = (g (udp_hdr_at p (hlen p)))\<lparr>udp_checksum := c\<rparr>"
    by (rule exI, rule assms(4) [OF u])
  show "\<forall>i. 8 \<le> i \<longrightarrow> i < udp_len p \<longrightarrow> hlen p + i < length p \<longrightarrow> q ! (hlen p + i) = p ! (hlen p + i)"
    by (simp add: assms(5) [OF u])
next
  assume t: "ip_proto p = 6"
  show "\<exists>c. tcp_hdr_at q (hlen p) = (h (tcp_hdr_at p (hlen p)))\<lparr>tcp_checksum := c\<rparr>"
    by (rule exI, rule assms(6) [OF t])
  show "\<forall>i. 20 \<le> i \<longrightarrow> i < tcp_len p \<longrightarrow> q ! (hlen p + i) = p ! (hlen p + i)"
    by (simp add: assms(7) [OF t])
qed

lemma rewrittenD:
  assumes "rewritten f g h p q"
  shows "length q = length p"
    and "\<exists>c. ipv4_hdr_at q 0 = (f (ipv4_hdr_at p 0))\<lparr>hdr_checksum := c\<rparr>"
    and "\<forall>i. 20 \<le> i \<longrightarrow> i < hlen p \<longrightarrow> q ! i = p ! i"
    and "ip_proto p = 17 \<Longrightarrow> \<exists>c. udp_hdr_at q (hlen p) = (g (udp_hdr_at p (hlen p)))\<lparr>udp_checksum := c\<rparr>"
    and "ip_proto p = 17 \<Longrightarrow>
      \<forall>i. 8 \<le> i \<longrightarrow> i < udp_len p \<longrightarrow> hlen p + i < length p \<longrightarrow> q ! (hlen p + i) = p ! (hlen p + i)"
    and "ip_proto p = 6 \<Longrightarrow> \<exists>c. tcp_hdr_at q (hlen p) = (h (tcp_hdr_at p (hlen p)))\<lparr>tcp_checksum := c\<rparr>"
    and "ip_proto p = 6 \<Longrightarrow> \<forall>i. 20 \<le> i \<longrightarrow> i < tcp_len p \<longrightarrow> q ! (hlen p + i) = p ! (hlen p + i)"
  by (insert assms [unfolded rewritten_def]) (elim conjE; iprover)+

lemma checksums_rewrite:
  assumes wf: "wf_pkt p" and ok: "complete p"
  shows "rewritten id id id p (with_checksums p)"
proof -
  let ?q = "with_checksums p"
  have t: "transport_ok p" using ok by (simp add: complete_def)
  from fill_checksums_spec [OF wf t] have q: "same_header p ?q" "\<And>i. i \<notin> checksum_bytes p \<Longrightarrow> ?q ! i = p ! i"
    by (auto simp: with_checksums_def)
  have hl: "20 \<le> hlen p" using wf by (simp add: wf_pkt_def)
  have keep: "?q ! (hlen p + i) = p ! (hlen p + i)"
    if "ip_proto p = 17 \<Longrightarrow> i \<noteq> 6 \<and> i \<noteq> 7 \<and> i \<noteq> udp_len p" "ip_proto p = 6 \<Longrightarrow> i \<noteq> 16 \<and> i \<noteq> 17 \<and> i \<noteq> tcp_len p" for i
    using that hl by (intro q(2)) (auto simp: checksum_bytes_def)
  show ?thesis
  proof (rule rewrittenI)
    show "length ?q = length p" using q(1) by (simp add: same_header_def)
    show "ipv4_hdr_at ?q 0 = (id (ipv4_hdr_at p 0))\<lparr>hdr_checksum := hdr_checksum (ipv4_hdr_at ?q 0)\<rparr>"
      unfolding id_apply using q(1) by (intro ipv4_hdr_at_same) (simp add: same_header_def)
    show "?q ! i = p ! i" if "20 \<le> i" "i < hlen p" for i
      using that by (intro q(2)) (auto simp: checksum_bytes_def)
    show "udp_hdr_at ?q (hlen p) =
        (id (udp_hdr_at p (hlen p)))\<lparr>udp_checksum := udp_checksum (udp_hdr_at ?q (hlen p))\<rparr>" if "ip_proto p = 17"
      unfolding id_apply using that ok by (intro udp_hdr_at_same keep) (auto simp: complete_def)
    show "tcp_hdr_at ?q (hlen p) =
        (id (tcp_hdr_at p (hlen p)))\<lparr>tcp_checksum := tcp_checksum (tcp_hdr_at ?q (hlen p))\<rparr>" if "ip_proto p = 6"
      unfolding id_apply using that ok by (intro tcp_hdr_at_same keep) (auto simp: complete_def)
  qed (rule keep; simp)+
qed

lemma rewritten_trans:
  assumes "rewritten f g h p p'" and "rewritten id id id p' q"
    and "hlen p' = hlen p" "ip_proto p' = ip_proto p" "tcp_len p' = tcp_len p"
    and "ip_proto p = 17 \<Longrightarrow> udp_len p' = udp_len p"
  shows "rewritten f g h p q"
  unfolding rewritten_def
proof (intro conjI impI)
  note a = rewrittenD [OF assms(1)] and b = rewrittenD [OF assms(2), unfolded assms(3-5) id_apply]
  show "length q = length p" using a(1) b(1) by simp
  show "\<exists>c. ipv4_hdr_at q 0 = (f (ipv4_hdr_at p 0))\<lparr>hdr_checksum := c\<rparr>" using a(2) b(2) by force
  show "\<forall>i. 20 \<le> i \<longrightarrow> i < hlen p \<longrightarrow> q ! i = p ! i" using a(3) b(3) by simp
  assume u: "ip_proto p = 17"
  show "\<exists>c. udp_hdr_at q (hlen p) = (g (udp_hdr_at p (hlen p)))\<lparr>udp_checksum := c\<rparr>"
    using a(4) [OF u] b(4) [OF u] by force
  show "\<forall>i. 8 \<le> i \<longrightarrow> i < udp_len p \<longrightarrow> hlen p + i < length p \<longrightarrow> q ! (hlen p + i) = p ! (hlen p + i)"
    using a(1) a(5) [OF u] b(5) [OF u] assms(6) [OF u] by simp
next
  note a = rewrittenD [OF assms(1)] and b = rewrittenD [OF assms(2), unfolded assms(3-5) id_apply]
  assume t: "ip_proto p = 6"
  show "\<exists>c. tcp_hdr_at q (hlen p) = (h (tcp_hdr_at p (hlen p)))\<lparr>tcp_checksum := c\<rparr>"
    using a(6) [OF t] b(6) [OF t] by force
  show "\<forall>i. 20 \<le> i \<longrightarrow> i < tcp_len p \<longrightarrow> q ! (hlen p + i) = p ! (hlen p + i)"
    using a(7) [OF t] b(7) [OF t] by simp
qed

lemma translate_out_rewrites:
  assumes t: "translatable p" and ok: "complete p"
  shows "rewritten (hdr_ip_src_update (\<lambda>_. ip)) (udp_port_src_update (\<lambda>_. from_port port))
    (tcp_port_src_update (\<lambda>_. from_port port)) p (translate_out ip port p)"
proof -
  let ?q = "translate_out ip port p"
  have len: "20 \<le> hlen p" "hlen p + 4 \<le> length p" using t by (auto simp: translatable_def wf_pkt_def)
  note n = translate_out_nth(2) [OF t, of _ ip port]
  have tr: "hlen p + 8 \<le> length p" if "ip_proto p = 17" using that ok by (simp add: complete_def transport_ok_def)
  have tc: "20 \<le> tcp_len p" "hlen p + tcp_len p \<le> length p" if "ip_proto p = 6"
    using that ok t by (auto simp: complete_def tcp_len_def translatable_def wf_pkt_def)
  have ips: "ip_at ?q 12 = ip" "ip_at ?q 16 = ip_at p 16"
    using translate_out_fields(4,5) [OF t, of ip port] by (simp_all add: ip_src_def ip_dst_def)
  have head: "?q ! i = p ! i" if "i < 12" for i using that len n [of i] by simp
  have rest: "?q ! (hlen p + i) = p ! (hlen p + i)" if "2 \<le> i" "hlen p + i < length p" for i
    using that len n [of "hlen p + i"] by simp
  have at: "?q ! hlen p = lo8 (from_port port)" "?q ! (hlen p + 1) = hi8 (from_port port)"
    using len n [of "hlen p"] n [of "Suc (hlen p)"] by simp_all
  show ?thesis
  proof (rule rewrittenI)
    show "length ?q = length p" by (rule translate_out_nth(1) [OF t])
    show "ipv4_hdr_at ?q 0 = (hdr_ip_src_update (\<lambda>_. ip) (ipv4_hdr_at p 0))\<lparr>hdr_checksum := hdr_checksum (ipv4_hdr_at p 0)\<rparr>"
      using ips head by (simp add: ipv4_hdr_at_def)
    show "?q ! i = p ! i" if "20 \<le> i" "i < hlen p" for i using that len n [of i] by simp
    show "udp_hdr_at ?q (hlen p) = (udp_port_src_update (\<lambda>_. from_port port) (udp_hdr_at p (hlen p)))
        \<lparr>udp_checksum := udp_checksum (udp_hdr_at p (hlen p))\<rparr>" if "ip_proto p = 17"
      using tr [OF that] by (simp add: udp_hdr_at_def at rest del: add_2_eq_Suc' One_nat_def)
    show "tcp_hdr_at ?q (hlen p) = (tcp_port_src_update (\<lambda>_. from_port port) (tcp_hdr_at p (hlen p)))
        \<lparr>tcp_checksum := tcp_checksum (tcp_hdr_at p (hlen p))\<rparr>" if "ip_proto p = 6"
      using tc [OF that] by (simp add: tcp_hdr_at_def at rest del: add_2_eq_Suc' One_nat_def)
    show "?q ! (hlen p + i) = p ! (hlen p + i)" if "ip_proto p = 6" "20 \<le> i" "i < tcp_len p" for i
      using tc [OF that(1)] that(2,3) by (intro rest) simp_all
  qed (rule rest; simp)
qed

lemma translate_in_rewrites:
  assumes t: "translatable p" and ok: "complete p"
  shows "rewritten (hdr_ip_dst_update (\<lambda>_. ip)) (udp_port_dst_update (\<lambda>_. from_port port))
    (tcp_port_dst_update (\<lambda>_. from_port port)) p (translate_in ip port p)"
proof -
  let ?q = "translate_in ip port p"
  have len: "20 \<le> hlen p" "hlen p + 4 \<le> length p" using t by (auto simp: translatable_def wf_pkt_def)
  note n = translate_in_nth(2) [OF t, of _ ip port]
  have tr: "hlen p + 8 \<le> length p" if "ip_proto p = 17" using that ok by (simp add: complete_def transport_ok_def)
  have tc: "20 \<le> tcp_len p" "hlen p + tcp_len p \<le> length p" if "ip_proto p = 6"
    using that ok t by (auto simp: complete_def tcp_len_def translatable_def wf_pkt_def)
  have ips: "ip_at ?q 12 = ip_at p 12" "ip_at ?q 16 = ip"
    using translate_in_fields(4,5) [OF t, of ip port] by (simp_all add: ip_src_def ip_dst_def)
  have head: "?q ! i = p ! i" if "i < 12" for i using that len n [of i] by simp
  have rest: "?q ! (hlen p + i) = p ! (hlen p + i)" if "i \<noteq> 2" "i \<noteq> 3" "hlen p + i < length p" for i
    using that len n [of "hlen p + i"] by simp
  have at: "?q ! (hlen p + 2) = lo8 (from_port port)" "?q ! (hlen p + 3) = hi8 (from_port port)"
    using len n [of "hlen p + 2"] n [of "hlen p + 3"] by simp_all
  have first: "?q ! hlen p = p ! hlen p" using rest [of 0] len by simp
  show ?thesis
  proof (rule rewrittenI)
    show "length ?q = length p" by (rule translate_in_nth(1) [OF t])
    show "ipv4_hdr_at ?q 0 = (hdr_ip_dst_update (\<lambda>_. ip) (ipv4_hdr_at p 0))\<lparr>hdr_checksum := hdr_checksum (ipv4_hdr_at p 0)\<rparr>"
      using ips head by (simp add: ipv4_hdr_at_def)
    show "?q ! i = p ! i" if "20 \<le> i" "i < hlen p" for i using that len n [of i] by simp
    show "udp_hdr_at ?q (hlen p) = (udp_port_dst_update (\<lambda>_. from_port port) (udp_hdr_at p (hlen p)))
        \<lparr>udp_checksum := udp_checksum (udp_hdr_at p (hlen p))\<rparr>" if "ip_proto p = 17"
      using tr [OF that] by (simp add: udp_hdr_at_def at first rest del: add_2_eq_Suc' One_nat_def)
    show "tcp_hdr_at ?q (hlen p) = (tcp_port_dst_update (\<lambda>_. from_port port) (tcp_hdr_at p (hlen p)))
        \<lparr>tcp_checksum := tcp_checksum (tcp_hdr_at p (hlen p))\<rparr>" if "ip_proto p = 6"
      using tc [OF that] by (simp add: tcp_hdr_at_def at first rest del: add_2_eq_Suc' One_nat_def)
    show "?q ! (hlen p + i) = p ! (hlen p + i)" if "ip_proto p = 6" "20 \<le> i" "i < tcp_len p" for i
      using tc [OF that(1)] that(2,3) by (intro rest) simp_all
  qed (rule rest; simp)
qed

text \<open>The packets as the handlers send them.\<close>

lemma complete_translated:
  assumes t: "translatable p" and ok: "complete p"
  shows "complete (translate_out ip port p)" "complete (translate_in ip port p)"
    and "tcp_len (translate_out ip port p) = tcp_len p" "tcp_len (translate_in ip port p) = tcp_len p"
    and "ip_proto p = 17 \<Longrightarrow> udp_len (translate_out ip port p) = udp_len p"
    and "ip_proto p = 17 \<Longrightarrow> udp_len (translate_in ip port p) = udp_len p"
proof -
  note o = translate_out_fields [OF t, of ip port] and i = translate_in_fields [OF t, of ip port]
  have hl: "20 \<le> hlen p" using t by (simp add: translatable_def wf_pkt_def)
  show tl: "tcp_len (translate_out ip port p) = tcp_len p" "tcp_len (translate_in ip port p) = tcp_len p"
    by (simp_all add: tcp_len_def o i)
  show ul: "udp_len (translate_out ip port p) = udp_len p" "udp_len (translate_in ip port p) = udp_len p"
    if "ip_proto p = 17"
  proof -
    have "hlen p + 8 \<le> length p" using that ok by (simp add: complete_def transport_ok_def)
    then show "udp_len (translate_out ip port p) = udp_len p" "udp_len (translate_in ip port p) = udp_len p"
      using translate_out_nth(2) [OF t, of _ ip port] translate_in_nth(2) [OF t, of _ ip port] hl
      by (simp_all add: udp_len_def o i)
  qed
  from ok o(3,9) i(3,9) tl ul show "complete (translate_out ip port p)" "complete (translate_in ip port p)"
    by (simp_all add: complete_def)
qed

lemma sent_out_rewritten:
  assumes "translatable p" and "complete p"
  shows "rewritten (hdr_ip_src_update (\<lambda>_. ip)) (udp_port_src_update (\<lambda>_. from_port port))
    (tcp_port_src_update (\<lambda>_. from_port port)) p (with_checksums (translate_out ip port p))"
  using translate_out_fields [OF assms(1), of ip port] complete_translated [OF assms, of ip port]
  by (intro rewritten_trans [OF translate_out_rewrites [OF assms] checksums_rewrite]) simp_all

lemma sent_in_rewritten:
  assumes "translatable p" and "complete p"
  shows "rewritten (hdr_ip_dst_update (\<lambda>_. ip)) (udp_port_dst_update (\<lambda>_. from_port port))
    (tcp_port_dst_update (\<lambda>_. from_port port)) p (with_checksums (translate_in ip port p))"
  using translate_in_fields [OF assms(1), of ip port] complete_translated [OF assms, of ip port]
  by (intro rewritten_trans [OF translate_in_rewrites [OF assms] checksums_rewrite]) simp_all

section \<open>Properties\<close>

text \<open>
  C17: translation in terms of the declared headers.  A packet of a flow that has a port, or
  still finds one, leaves with the header it came with but for the source address, the source
  port and the checksums; a reply to a connection in the table, but for the destination
  address, the destination port and the checksums.  All other fields, the options and the
  payload are the same.
\<close>

theorem translation_rewrites_fields:
  assumes "router_ok r" and "translatable pkt" and "complete pkt"
    and "(case intern_map r (flow_key pkt) of Some e \<Rightarrow> Some (public_port e) | None \<Rightarrow> chosen_port r pkt) = Some p"
    and "translatable reply" and "complete reply" and "extern_map r (reply_key reply) = Some e"
  shows "(\<exists>r' q. napt_out_handle r pkt = Inr (r', q) \<and> router_ok r' \<and>
      rewritten (\<lambda>h. h\<lparr>hdr_ip_src := public_addr r\<rparr>) (\<lambda>h. h\<lparr>udp_port_src := htons p\<rparr>)
        (\<lambda>h. h\<lparr>tcp_port_src := htons p\<rparr>) pkt q) \<and>
    (\<exists>r' q. napt_inc_handle r reply = Inr (r', q) \<and> router_ok r' \<and>
      rewritten (\<lambda>h. h\<lparr>hdr_ip_dst := lan_ip e\<rparr>) (\<lambda>h. h\<lparr>udp_port_dst := htons (lan_port e)\<rparr>)
        (\<lambda>h. h\<lparr>tcp_port_dst := htons (lan_port e)\<rparr>) reply q)"
proof
  have tr: "transport_ok pkt" "transport_ok reply" using assms(3,6) by (simp_all add: complete_def)
  have "\<exists>r'. napt_out_handle r pkt = Inr (r', with_checksums (translate_out (public_addr r) p pkt)) \<and> router_ok r'"
  proof (cases "intern_map r (flow_key pkt)")
    case None
    then have "chosen_port r pkt = Some p" using assms(4) by simp
    from napt_out_new [OF assms(1,2) tr(1) None this] show ?thesis by blast
  next
    case (Some f)
    then have "public_port f = p" using assms(4) by simp
    with napt_out_known [OF assms(1,2) tr(1) Some] show ?thesis by blast
  qed
  with sent_out_rewritten [OF assms(2,3), of "public_addr r" p]
  show "\<exists>r' q. napt_out_handle r pkt = Inr (r', q) \<and> router_ok r' \<and>
      rewritten (\<lambda>h. h\<lparr>hdr_ip_src := public_addr r\<rparr>) (\<lambda>h. h\<lparr>udp_port_src := htons p\<rparr>)
        (\<lambda>h. h\<lparr>tcp_port_src := htons p\<rparr>) pkt q"
    unfolding from_port_def by blast
  from napt_inc_hit [OF assms(1,5) tr(2) assms(7)] sent_in_rewritten [OF assms(5,6), of "lan_ip e" "lan_port e"]
  show "\<exists>r' q. napt_inc_handle r reply = Inr (r', q) \<and> router_ok r' \<and>
      rewritten (\<lambda>h. h\<lparr>hdr_ip_dst := lan_ip e\<rparr>) (\<lambda>h. h\<lparr>udp_port_dst := htons (lan_port e)\<rparr>)
        (\<lambda>h. h\<lparr>tcp_port_dst := htons (lan_port e)\<rparr>) reply q"
    unfolding from_port_def by blast
qed

lemma udp_packet_complete: "complete (udp_packet src sport dst dport)"
  using udp_packet_ok(2) [of src sport dst dport] udp_packet_fields(3,8) [of src sport dst dport]
  by (simp add: complete_def)

theorem translation_rewrites_fields_witness:
  "\<exists>he r' q. put_all (napt_put extern_key_bytes) five_flows (napt_extern_hashmap fresh_router) = Inr he \<and>
     napt_inc_handle (fresh_router\<lparr>napt_extern_hashmap := he\<rparr>) (udp_packet (IpAddr 8 8 8 8) 1 (IpAddr 192 168 0 2) 1024) =
       Inr (r', q) \<and>
     rewritten (\<lambda>h. h\<lparr>hdr_ip_dst := IpAddr 192 168 1 1\<rparr>) (\<lambda>h. h\<lparr>udp_port_dst := htons 5000\<rparr>)
       (\<lambda>h. h\<lparr>tcp_port_dst := htons 5000\<rparr>) (udp_packet (IpAddr 8 8 8 8) 1 (IpAddr 192 168 0 2) 1024) q"
proof -
  let ?reply = "udp_packet (IpAddr 8 8 8 8) 1 (IpAddr 192 168 0 2) 1024"
  let ?e = "flow_entry fresh_router (dns_query 1) 1024"
  obtain he where he: "put_all (napt_put extern_key_bytes) five_flows (napt_extern_hashmap fresh_router) = Inr he"
      "router_ok (fresh_router\<lparr>napt_extern_hashmap := he\<rparr>)"
      "extern_map (fresh_router\<lparr>napt_extern_hashmap := he\<rparr>) = map_of five_flows"
      "chosen_port (fresh_router\<lparr>napt_extern_hashmap := he\<rparr>) (dns_query 6) = Some 1024"
      "intern_map (fresh_router\<lparr>napt_extern_hashmap := he\<rparr>) (flow_key (dns_query 6)) = None" "\<not> free_slots 1 he"
    by (rule five_flows_filled)
  have "map_of five_flows (reply_key ?reply) = Some ?e"
    by (simp add: five_flows_def dns_query_def udp_packet_keys)
  then have hit: "extern_map (fresh_router\<lparr>napt_extern_hashmap := he\<rparr>) (reply_key ?reply) = Some ?e" by (simp add: he(3))
  have q6: "translatable (dns_query 6)" "complete (dns_query 6)"
    using udp_packet_ok(1) udp_packet_complete by (simp_all add: dns_query_def)
  have port: "(case intern_map (fresh_router\<lparr>napt_extern_hashmap := he\<rparr>) (flow_key (dns_query 6)) of
      Some e \<Rightarrow> Some (public_port e) | None \<Rightarrow> chosen_port (fresh_router\<lparr>napt_extern_hashmap := he\<rparr>) (dns_query 6)) = Some 1024"
    using he(4,5) by simp
  have e: "lan_ip ?e = IpAddr 192 168 1 1" "lan_port ?e = 5000"
    by (simp_all add: dns_query_def udp_packet_fields)
  from conjunct2 [OF translation_rewrites_fields [OF he(2) q6 port udp_packet_ok(1) udp_packet_complete hit]] he(1)
  show ?thesis unfolding e by blast
qed

text \<open>
  The code never checks the length of the header: with 12 bytes of it the port is written over
  the source address.
\<close>

lemma short_header_forges_source:
  assumes "hlen pkt = 12" and "16 \<le> length pkt"
  shows "ip_src (translate_out ip p pkt) = IpAddr (lo8 (from_port p)) (hi8 (from_port p)) (oct2 ip) (oct3 ip)"
  using assms
  by (cases ip) (simp add: translate_out_def ip_src_def ip_at_def nth_put16 length_splice nth_splice nth_append)

text \<open>
  On the wire the data offset is the upper half of its byte and FIN the lowest flag; the
  declared bit fields read them the other way round.  No code uses them.
\<close>

lemma tcp_flags_reversed:
  assumes "b ! 12 = 0x50" and "b ! 13 = 0x02"
  shows "data_offset (tcp_hdr_at b 0) = 0" and "ece_flag (tcp_hdr_at b 0)" and "\<not> syn_flag (tcp_hdr_at b 0)"
proof -
  have "ucast (0x50 :: u8) = (0 :: 4 word)" "bit (2 :: u8) 1" "\<not> bit (2 :: u8) 6" by (simp_all add: bit_numeral_rec)
  with assms show "data_offset (tcp_hdr_at b 0) = 0" "ece_flag (tcp_hdr_at b 0)" "\<not> syn_flag (tcp_hdr_at b 0)"
    by (simp_all add: tcp_hdr_at_def)
qed

end
