(* ===== verification/Napt_Threads.thy ===== *)
theory Napt_Threads
  imports System
begin

text \<open>
  The two receiving threads in \<open>src/ipv4.c\<close>: \<open>napt_out_handle\<close>, run for the LAN, and
  \<open>napt_inc_handle\<close>, run for the WAN, cut at every locking and unlocking of the translation
  tables and interleaved in any order, with whatever the rest of the router does in between.
  \<open>hashmap_get\<close> of \<open>src/hashmap.c\<close> unlocks the mutex when it finds the key and returns a
  pointer into the table, through which the entry is read afterwards: that is a section of
  its own.
\<close>

section \<open>The handler of outgoing packets in sections\<close>

text \<open>What the handler has read of its packet, and where it stands.\<close>

record flow =
  flow_pkt :: buf
  flow_transport :: nat
  flow_intern :: napt_intern_key
  flow_dst :: ip_addr
  flow_port_dst :: port
  flow_public :: ip_addr

datatype out_task =
    OutStart buf
  | OutLock flow
  | OutTry flow nat
  | OutUnlock flow "port option"
  | OutSend buf
  | OutDone

definition out_rewrite :: "router \<Rightarrow> flow \<Rightarrow> port \<Rightarrow> (router \<times> out_task) res" where
  "out_rewrite r f new_port_src =
     ebind (wr_ip (flow_pkt f) 12 (flow_public f)) (\<lambda>pkt1.
     ebind (wr16 pkt1 (flow_transport f) (from_port new_port_src)) (\<lambda>pkt2.
       Inr (r, OutSend pkt2)))"

text \<open>From the entry of the handler to the lookup in the intern table.\<close>

definition out_begin :: "router \<Rightarrow> buf \<Rightarrow> (router \<times> out_task) res" where
  "out_begin r pkt =
     ebind (rd_ip pkt 12) (\<lambda>src_addr.
     ebind (rd_ip pkt 16) (\<lambda>dst_addr.
     ebind (header_len pkt) (\<lambda>transport_ptr.
     ebind (rd8 pkt 9) (\<lambda>protocol.
       if protocol = 6 \<or> protocol = 17 then
         ebind (rd16 pkt transport_ptr) (\<lambda>psrc.
         ebind (rd16 pkt (transport_ptr + 2)) (\<lambda>pdst.
         ebind (interface_get_ip (interface_arr r) interface_get_wan_id) (\<lambda>pub_ip.
         let ikey = \<lparr>ik_ip_src = src_addr, ik_port_src = to_port psrc, ik_protocol = protocol\<rparr>;
             f = \<lparr>flow_pkt = pkt, flow_transport = transport_ptr, flow_intern = ikey, flow_dst = dst_addr,
                  flow_port_dst = to_port pdst, flow_public = pub_ip\<rparr>
         in ebind (lock_intern r) (\<lambda>r1.
         ebind (hashmap_get (napt_intern_hashmap r1) (intern_key_bytes ikey)) (\<lambda>(h, existing_res).
         let r2 = r1\<lparr>napt_intern_hashmap := h\<rparr> in
         case existing_res of
           Some p \<Rightarrow> ebind (rd16 (data (napt_intern_hashmap r2)) (p + 10)) (\<lambda>port. out_rewrite (unlock_intern r2) f port)
         | None \<Rightarrow> Inr (r2, OutLock f))))))
       else Inr (r, OutDone)))))"

text \<open>
  The other sections: the extern table is locked, each attempt is one section, and the tables
  are unlocked, the intern table only if a port was found.
\<close>

fun out_section :: "router \<Rightarrow> out_task \<Rightarrow> (router \<times> out_task) res" where
  "out_section r (OutStart pkt) = out_begin r pkt"
| "out_section r (OutLock f) = ebind (lock_extern r) (\<lambda>r1. Inr (r1, OutTry f 10))"
| "out_section r (OutTry f n) =
     ebind (napt_attempt 1 r (flow_intern f) (flow_dst f) (flow_port_dst f) (flow_public f)) (\<lambda>(r1, found).
       Inr (r1, if found = None \<and> 1 < n then OutTry f (n - 1) else OutUnlock f found))"
| "out_section r (OutUnlock f found) =
     (case found of
        None \<Rightarrow> Inr (unlock_extern r, OutDone)
      | Some port \<Rightarrow> out_rewrite (unlock_intern (unlock_extern r)) f port)"
| "out_section r (OutSend pkt) = ebind (send_ipv4 r pkt) (\<lambda>(r1, _). Inr (r1, OutDone))"
| "out_section r OutDone = Inr (r, OutDone)"

text \<open>The sections left; a thread that runs alone takes them one after the other.\<close>

fun out_work :: "out_task \<Rightarrow> nat" where
  "out_work (OutStart _) = 15"
| "out_work (OutLock _) = 14"
| "out_work (OutTry _ n) = n + 3"
| "out_work (OutUnlock _ _) = 2"
| "out_work (OutSend _) = 1"
| "out_work OutDone = 0"

lemma out_section_work: "out_section r t = Inr (r1, t1) \<Longrightarrow> t \<noteq> OutDone \<Longrightarrow> out_work t1 < out_work t"
  by (cases t)
    (auto simp: out_begin_def out_rewrite_def Let_def ebind_Inr_iff split: if_splits option.splits)

function out_run :: "router \<Rightarrow> out_task \<Rightarrow> router res" where
  "out_run r t = (if t = OutDone then Inr r else ebind (out_section r t) (\<lambda>(r1, t1). out_run r1 t1))"
  by pat_completeness auto
termination
  by (relation "measure (\<lambda>(r, t). out_work t)") (auto dest: out_section_work)

declare out_run.simps [simp del]

lemma out_run_simps [simp]:
  "out_run r OutDone = Inr r"
  "out_run r (OutSend pkt) = ebind (send_ipv4 r pkt) (\<lambda>(r1, _). Inr r1)"
  by (auto simp: out_run.simps ebind_assoc intro!: ebind_cong)

lemma napt_attempt_Suc:
  "napt_attempt (Suc n) r k dst port pub =
     ebind (napt_attempt 1 r k dst port pub) (\<lambda>(r1, found).
       case found of None \<Rightarrow> napt_attempt n r1 k dst port pub | Some p \<Rightarrow> Inr (r1, Some p))"
  by (auto simp: Let_def ebind_assoc intro!: ebind_cong)

lemma out_run_try:
  "out_run r (OutTry f (Suc n)) =
     ebind (napt_attempt (Suc n) r (flow_intern f) (flow_dst f) (flow_port_dst f) (flow_public f)) (\<lambda>(r1, found).
       out_run r1 (OutUnlock f found))"
proof (induction n arbitrary: r)
  case 0
  show ?case by (subst out_run.simps) (auto simp: ebind_assoc split_beta intro!: ebind_cong)
next
  case (Suc n)
  show ?case
    by (subst out_run.simps, subst napt_attempt_Suc)
      (auto simp: ebind_assoc Suc.IH split_beta simp del: napt_attempt.simps intro!: ebind_cong split: option.split)
qed

text \<open>Run without interruption, the sections are the handler they were cut from.\<close>

lemma out_handle_sections: "ebind (napt_out_handle r pkt) (\<lambda>(r1, _). Inr r1) = out_run r (OutStart pkt)"
proof -
  have rewrite: "ebind (out_rewrite r1 f p) (\<lambda>(r2, t). out_run r2 t) =
      ebind (wr_ip (flow_pkt f) 12 (flow_public f)) (\<lambda>pkt1.
      ebind (wr16 pkt1 (flow_transport f) (from_port p)) (\<lambda>pkt2.
      ebind (send_ipv4 r1 pkt2) (\<lambda>(r2, _). Inr r2)))" for r1 f p
    by (simp add: out_rewrite_def ebind_assoc)
  have unlock: "out_run r1 (OutUnlock f found) =
      (case found of None \<Rightarrow> Inr (unlock_extern r1)
       | Some p \<Rightarrow> ebind (out_rewrite (unlock_intern (unlock_extern r1)) f p) (\<lambda>(r2, t). out_run r2 t))" for r1 f found
    by (subst out_run.simps) (simp split: option.split)
  have lock: "out_run r1 (OutLock f) = ebind (lock_extern r1) (\<lambda>r2. out_run r2 (OutTry f 10))" for r1 f
    by (subst out_run.simps) (simp add: ebind_assoc)
  have tries: "out_run r1 (OutTry f 10) =
      ebind (napt_attempt 10 r1 (flow_intern f) (flow_dst f) (flow_port_dst f) (flow_public f)) (\<lambda>(r2, found).
        out_run r2 (OutUnlock f found))" for r1 f
    using out_run_try [of r1 f 9] by (simp del: napt_attempt.simps)
  have start: "out_run r (OutStart pkt) = ebind (out_begin r pkt) (\<lambda>(r2, t). out_run r2 t)"
    by (subst out_run.simps) simp
  show ?thesis
    unfolding start out_begin_def napt_out_handle_def napt_public_port_def
    by (auto simp: ebind_assoc Let_def rewrite unlock lock tries split_beta
        simp del: napt_attempt.simps intro!: ebind_cong split: option.split)
qed

section \<open>The handler of incoming packets in sections\<close>

text \<open>
  A pointer into the table names the block and the offset in it.  Each \<open>calloc\<close> of
  \<open>hashmap_grow\<close> is for a larger table than all before, so the number of slots names the
  block; the block of another size has been freed, and reading it is an access out of bounds.
\<close>

record entry_ptr =
  ptr_block :: nat
  ptr_offset :: nat

definition entry_ref :: "hashmap \<Rightarrow> entry_ptr \<Rightarrow> nat res" where
  "entry_ref h e = (if ptr_block e = size_allocated h then Inr (ptr_offset e) else Inl OutOfBounds)"

definition inc_lookup :: "router \<Rightarrow> buf \<Rightarrow> (router \<times> (nat \<times> entry_ptr) option) res" where
  "inc_lookup r0 pkt =
     ebind (header_len pkt) (\<lambda>transport_ptr.
     ebind (rd8 pkt 9) (\<lambda>protocol.
       if protocol = 6 \<or> protocol = 17 then
         ebind (rd16 pkt (transport_ptr + 2)) (\<lambda>pdst.
         ebind (rd16 pkt transport_ptr) (\<lambda>psrc.
         ebind (rd_ip pkt 12) (\<lambda>src_addr.
         let extern_key = \<lparr>ek_ip_dst = src_addr, ek_port_src = to_port pdst, ek_port_dst = to_port psrc,
                           ek_protocol = protocol\<rparr>
         in ebind (lock_extern r0) (\<lambda>r.
         ebind (hashmap_get (napt_extern_hashmap r) (extern_key_bytes extern_key)) (\<lambda>(h, entry).
         let r1 = r\<lparr>napt_extern_hashmap := h\<rparr> in
         case entry of
           None \<Rightarrow> Inr (unlock_extern r1, None)
         | Some p \<Rightarrow> Inr (r1, Some (transport_ptr, \<lparr>ptr_block = size_allocated h, ptr_offset = p\<rparr>)))))))
       else Inr (r0, None)))"

datatype inc_task =
    IncStart buf
  | IncRead buf nat entry_ptr
  | IncSend buf
  | IncDone

fun inc_section :: "router \<Rightarrow> inc_task \<Rightarrow> (router \<times> inc_task) res" where
  "inc_section r (IncStart pkt) =
     ebind (inc_lookup r pkt) (\<lambda>(r1, found).
       Inr (r1, case found of None \<Rightarrow> IncDone | Some (transport_ptr, e) \<Rightarrow> IncRead pkt transport_ptr e))"
| "inc_section r (IncRead pkt transport_ptr entry) =
     ebind (entry_ref (napt_extern_hashmap r) entry) (\<lambda>p.
     ebind (rd_ip (data (napt_extern_hashmap r)) p) (\<lambda>ip.
     ebind (wr_ip pkt 16 ip) (\<lambda>pkt1.
     ebind (rd16 (data (napt_extern_hashmap r)) (p + 4)) (\<lambda>port.
     ebind (wr16 pkt1 (transport_ptr + 2) (from_port port)) (\<lambda>pkt2.
       Inr (unlock_extern r, IncSend pkt2))))))"
| "inc_section r (IncSend pkt) = ebind (send_ipv4 r pkt) (\<lambda>(r1, _). Inr (r1, IncDone))"
| "inc_section r IncDone = Inr (r, IncDone)"

fun inc_work :: "inc_task \<Rightarrow> nat" where
  "inc_work (IncStart _) = 3"
| "inc_work (IncRead _ _ _) = 2"
| "inc_work (IncSend _) = 1"
| "inc_work IncDone = 0"

lemma inc_section_work: "inc_section r t = Inr (r1, t1) \<Longrightarrow> t \<noteq> IncDone \<Longrightarrow> inc_work t1 < inc_work t"
  by (cases t) (auto simp: ebind_Inr_iff split: option.splits)

function inc_run :: "router \<Rightarrow> inc_task \<Rightarrow> router res" where
  "inc_run r t = (if t = IncDone then Inr r else ebind (inc_section r t) (\<lambda>(r1, t1). inc_run r1 t1))"
  by pat_completeness auto
termination
  by (relation "measure (\<lambda>(r, t). inc_work t)") (auto dest: inc_section_work)

declare inc_run.simps [simp del]

lemma inc_handle_sections:
  "ebind (napt_inc_handle r pkt) (\<lambda>(r1, _). Inr r1) = inc_run r (IncStart pkt)"
proof -
  have finish: "inc_run r1 IncDone = Inr r1" for r1 by (simp add: inc_run.simps)
  have send: "inc_run r1 (IncSend q) = ebind (send_ipv4 r1 q) (\<lambda>(r2, _). Inr r2)" for r1 q
    by (subst inc_run.simps) (auto simp: ebind_assoc finish intro!: ebind_cong)
  have read: "inc_run r1 (IncRead q t e) =
      ebind (entry_ref (napt_extern_hashmap r1) e) (\<lambda>p.
      ebind (rd_ip (data (napt_extern_hashmap r1)) p) (\<lambda>ip.
      ebind (wr_ip q 16 ip) (\<lambda>pkt1.
      ebind (rd16 (data (napt_extern_hashmap r1)) (p + 4)) (\<lambda>port.
      ebind (wr16 pkt1 (t + 2) (from_port port)) (\<lambda>pkt2.
      ebind (send_ipv4 (unlock_extern r1) pkt2) (\<lambda>(r2, _). Inr r2))))))" for r1 q t e
    by (subst inc_run.simps) (simp add: ebind_assoc send)
  show ?thesis
    by (subst inc_run.simps)
      (auto simp: napt_inc_handle_def inc_lookup_def entry_ref_def Let_def ebind_assoc finish read
        intro!: ebind_cong split: option.split)
qed

section \<open>Both threads\<close>

text \<open>
  The shared state, where each of the two threads stands, and the packets each has taken up so
  far.  A thread takes up a packet when it is done with the one before.  The rest of the router
  may change anything but the translation tables and the configuration, at any time.
\<close>

record threads =
  shared :: router
  lan_thread :: out_task
  wan_thread :: inc_task
  lan_packets :: "buf list"
  wan_packets :: "buf list"

inductive nat_step :: "threads \<Rightarrow> threads \<Rightarrow> bool" where
  lan_packet: "lan_thread c = OutDone \<Longrightarrow>
    nat_step c (c\<lparr>lan_thread := OutStart pkt, lan_packets := lan_packets c @ [pkt]\<rparr>)"
| wan_packet: "wan_thread c = IncDone \<Longrightarrow>
    nat_step c (c\<lparr>wan_thread := IncStart pkt, wan_packets := wan_packets c @ [pkt]\<rparr>)"
| lan_section: "out_section (shared c) (lan_thread c) = Inr (r, t) \<Longrightarrow>
    nat_step c (c\<lparr>shared := r, lan_thread := t\<rparr>)"
| wan_section: "inc_section (shared c) (wan_thread c) = Inr (r, t) \<Longrightarrow>
    nat_step c (c\<lparr>shared := r, wan_thread := t\<rparr>)"
| elsewhere: "same_tables (shared c) r \<Longrightarrow> nat_step c (c\<lparr>shared := r\<rparr>)"

definition idle_threads :: "router \<Rightarrow> threads" where
  "idle_threads r =
     \<lparr>shared = r, lan_thread = OutDone, wan_thread = IncDone, lan_packets = [], wan_packets = []\<rparr>"

end
