(* ===== verification/Napt_Interleaved.thy ===== *)
theory Napt_Interleaved
  imports Napt_Threads
begin

text \<open>
  What holds of the two receiving threads however their sections interleave: an invariant of
  the tables, of the flow on its way into them and of the pointer read from them, by rule
  induction; the firewall that follows from it; and the mutual exclusion that one unlocking
  too many destroys.
\<close>

section \<open>What holds however they interleave\<close>

text \<open>The packet \<open>p\<close> of the LAN opened the connection that \<open>pkt\<close> of the WAN belongs to.\<close>

definition answers :: "buf \<Rightarrow> buf \<Rightarrow> bool" where
  "answers pkt p \<longleftrightarrow> ip_dst p = ip_src pkt \<and> tpt_dst p = tpt_src pkt \<and> ip_proto p = ip_proto pkt"

text \<open>The tables are in good order, whether their locks are held or not.\<close>

definition nat_tables :: "router \<Rightarrow> buf list \<Rightarrow> bool" where
  "nat_tables r ps \<longleftrightarrow>
     configured (interface_arr r) \<and> table_ok 9 (napt_extern_hashmap r) \<and> table_ok 7 (napt_intern_hashmap r) \<and>
     (\<forall>k e. ek_protocol k \<noteq> 0 \<longrightarrow> extern_map r k = Some e \<longrightarrow> (\<exists>p \<in> set ps. asked_for k e p))"

text \<open>A flow on its way into the tables is that of a packet taken up, and not yet in them.\<close>

definition flow_of :: "buf \<Rightarrow> flow \<Rightarrow> bool" where
  "flow_of p f \<longleftrightarrow> flow_intern f = flow_key p \<and> flow_dst f = ip_dst p \<and> flow_port_dst f = tpt_dst p \<and>
     (ip_proto p = 6 \<or> ip_proto p = 17) \<and> flow_pkt f = p \<and> flow_transport f = hlen p \<and> 20 \<le> length p"

fun lan_ok :: "router \<Rightarrow> buf list \<Rightarrow> out_task \<Rightarrow> bool" where
  "lan_ok r ps (OutStart p) \<longleftrightarrow> p \<in> set ps"
| "lan_ok r ps (OutLock f) \<longleftrightarrow> intern_map r (flow_intern f) = None \<and> (\<exists>p \<in> set ps. flow_of p f)"
| "lan_ok r ps (OutTry f n) \<longleftrightarrow> intern_map r (flow_intern f) = None \<and> (\<exists>p \<in> set ps. flow_of p f)"
| "lan_ok r ps (OutUnlock f found) \<longleftrightarrow> (\<exists>p \<in> set ps. flow_of p f)"
| "lan_ok r ps _ \<longleftrightarrow> True"

text \<open>The pointer \<open>hashmap_get\<close> returns for the entry in a slot.\<close>

definition slot_ptr :: "hashmap \<Rightarrow> nat \<Rightarrow> entry_ptr" where
  "slot_ptr h j = \<lparr>ptr_block = size_allocated h, ptr_offset = key_off h j + size_key h\<rparr>"

text \<open>
  The pointer of a lookup: the table it points into has been replaced since, or the entry is
  still where it was, and belongs to a packet the incoming one answers.
\<close>

definition ptr_ok :: "hashmap \<Rightarrow> buf list \<Rightarrow> buf \<Rightarrow> entry_ptr \<Rightarrow> bool" where
  "ptr_ok h ps pkt e \<longleftrightarrow> ptr_block e < size_allocated h \<or>
     (\<exists>j v p. e = slot_ptr h j \<and> j < size_allocated h \<and> tag_at h j = HASHMAP_TAG_TAKEN \<and>
        entry_at (val_at h j) 0 = v \<and> p \<in> set ps \<and> asked_for (reply_key pkt) v p)"

fun wan_ok :: "router \<Rightarrow> buf list \<Rightarrow> buf list \<Rightarrow> inc_task \<Rightarrow> bool" where
  "wan_ok r ps qs (IncStart pkt) \<longleftrightarrow> pkt \<in> set qs"
| "wan_ok r ps qs (IncRead pkt t e) \<longleftrightarrow> pkt \<in> set qs \<and> t = hlen pkt \<and> ptr_ok (napt_extern_hashmap r) ps pkt e"
| "wan_ok r ps qs (IncSend q) \<longleftrightarrow>
     (\<exists>pkt \<in> set qs. \<exists>p \<in> set ps. answers pkt p \<and> q = translate_in (ip_src p) (tpt_src p) pkt)"
| "wan_ok r ps qs IncDone \<longleftrightarrow> True"

definition threads_ok :: "threads \<Rightarrow> bool" where
  "threads_ok c \<longleftrightarrow> nat_tables (shared c) (lan_packets c) \<and> lan_ok (shared c) (lan_packets c) (lan_thread c) \<and>
     wan_ok (shared c) (lan_packets c) (wan_packets c) (wan_thread c)"

text \<open>What only takes or gives up locks, or changes nothing in the tables.\<close>

definition locks_only :: "router \<Rightarrow> router \<Rightarrow> bool" where
  "locks_only r r' \<longleftrightarrow> interface_arr r' = interface_arr r \<and>
     (\<exists>l. napt_extern_hashmap r' = (napt_extern_hashmap r)\<lparr>hm_lock := l\<rparr>) \<and>
     (\<exists>l. napt_intern_hashmap r' = (napt_intern_hashmap r)\<lparr>hm_lock := l\<rparr>)"

lemma unlock_lock: "\<exists>l. hashmap_unlock h = h\<lparr>hm_lock := l\<rparr>"
  by (auto simp: hashmap_unlock_def)

lemma same_lock: "\<exists>l. h = h\<lparr>hm_lock := l\<rparr>"
  by (rule exI [of _ "hm_lock h"]) simp

lemma locks_only_refl [simp]: "locks_only r r"
  by (simp add: locks_only_def same_lock)

lemma locks_only_trans: "locks_only r r1 \<Longrightarrow> locks_only r1 r2 \<Longrightarrow> locks_only r r2"
  by (auto simp: locks_only_def)

lemma locks_only_same: "same_tables r r' \<Longrightarrow> locks_only r r'"
  by (simp add: same_tables_def locks_only_def same_lock)

lemma locks_only_unlock [simp]: "locks_only r (unlock_extern r)" "locks_only r (unlock_intern r)"
  by (simp_all add: locks_only_def unlock_extern_def unlock_intern_def unlock_lock same_lock)

lemma locks_only_lock: "lock_extern r = Inr r' \<Longrightarrow> locks_only r r'" "lock_intern r = Inr r' \<Longrightarrow> locks_only r r'"
  by (auto simp: lock_extern_def lock_intern_def hashmap_lock_def mutex_lock_Inr_iff ebind_Inr_iff locks_only_def same_lock)

lemma ptr_ok_lock [simp]: "ptr_ok (h\<lparr>hm_lock := l\<rparr>) = ptr_ok h"
  by (auto simp: fun_eq_iff ptr_ok_def slot_ptr_def tag_at_def val_at_def key_off_def)

lemma locks_only_keep:
  assumes "locks_only r r'"
  shows "extern_map r' = extern_map r" "intern_map r' = intern_map r" "nat_tables r' = nat_tables r"
    "lan_ok r' = lan_ok r" "wan_ok r' = wan_ok r"
proof -
  show m: "extern_map r' = extern_map r" "intern_map r' = intern_map r"
    using assms by (auto simp: locks_only_def extern_map_def intern_map_def)
  show "nat_tables r' = nat_tables r"
    using assms m by (auto simp: locks_only_def nat_tables_def fun_eq_iff)
  have "lan_ok r' ps t = lan_ok r ps t" for ps t by (cases t) (simp_all add: m)
  then show "lan_ok r' = lan_ok r" by (simp add: fun_eq_iff)
  have "wan_ok r' ps qs t = wan_ok r ps qs t" for ps qs t
    using assms by (cases t) (auto simp: locks_only_def)
  then show "wan_ok r' = wan_ok r" by (simp add: fun_eq_iff)
qed

lemma ptr_ok_moves:
  assumes "ptr_ok h ps pkt e" and "moves h h'"
  shows "ptr_ok h' ps pkt e"
  using assms(1) unfolding ptr_ok_def
proof
  assume "ptr_block e < size_allocated h"
  moreover have "size_allocated h \<le> size_allocated h'"
    using assms(2) by (auto simp: moves_def in_place_def same_shape_def split: if_splits)
  ultimately show "ptr_block e < size_allocated h' \<or> (\<exists>j v p. e = slot_ptr h' j \<and> j < size_allocated h' \<and>
      tag_at h' j = HASHMAP_TAG_TAKEN \<and> entry_at (val_at h' j) 0 = v \<and> p \<in> set ps \<and> asked_for (reply_key pkt) v p)"
    by simp
next
  assume "\<exists>j v p. e = slot_ptr h j \<and> j < size_allocated h \<and> tag_at h j = HASHMAP_TAG_TAKEN \<and>
      entry_at (val_at h j) 0 = v \<and> p \<in> set ps \<and> asked_for (reply_key pkt) v p"
  then obtain j v p where s: "e = slot_ptr h j" "j < size_allocated h" "tag_at h j = HASHMAP_TAG_TAKEN"
      "entry_at (val_at h j) 0 = v" "p \<in> set ps" "asked_for (reply_key pkt) v p" by blast
  show "ptr_block e < size_allocated h' \<or> (\<exists>j v p. e = slot_ptr h' j \<and> j < size_allocated h' \<and>
      tag_at h' j = HASHMAP_TAG_TAKEN \<and> entry_at (val_at h' j) 0 = v \<and> p \<in> set ps \<and> asked_for (reply_key pkt) v p)"
  proof (cases "free_slots 1 h")
    case True
    then have "in_place h h'" using assms(2) by (simp add: moves_def)
    then have "slot_ptr h' j = slot_ptr h j" "size_allocated h' = size_allocated h"
      "tag_at h' j = HASHMAP_TAG_TAKEN" "val_at h' j = val_at h j"
      using s(2,3) by (auto simp: in_place_def same_shape_def slot_ptr_def key_off_def)
    with s show ?thesis by metis
  next
    case False
    then have "size_allocated h' = 2 * size_allocated h + 1" using assms(2) by (simp add: moves_def)
    then show ?thesis by (simp add: s(1) slot_ptr_def)
  qed
qed

text \<open>More packets taken up do no harm.\<close>

lemma more_packets:
  assumes "set ps \<subseteq> set ps'"
  shows "nat_tables r ps \<Longrightarrow> nat_tables r ps'" and "lan_ok r ps t \<Longrightarrow> lan_ok r ps' t"
    and "set qs \<subseteq> set qs' \<Longrightarrow> wan_ok r ps qs w \<Longrightarrow> wan_ok r ps' qs' w"
proof -
  show "nat_tables r ps \<Longrightarrow> nat_tables r ps'" using assms unfolding nat_tables_def by blast
  show "lan_ok r ps t \<Longrightarrow> lan_ok r ps' t" using assms by (cases t) auto
  assume qs: "set qs \<subseteq> set qs'" "wan_ok r ps qs w"
  have "ptr_ok h ps pkt e \<Longrightarrow> ptr_ok h ps' pkt e" for h pkt e using assms unfolding ptr_ok_def by blast
  with assms qs show "wan_ok r ps' qs' w" by (cases w) (simp; blast)+
qed

text \<open>The section at the start of an outgoing packet only touches the lock of the intern table.\<close>

lemma out_rewrite_result: "out_rewrite r f p = Inr (r', t) \<Longrightarrow> r' = r \<and> (\<exists>q. t = OutSend q)"
  by (auto simp: out_rewrite_def ebind_Inr_iff)

lemma out_begin_result:
  assumes "table_ok 7 (napt_intern_hashmap r)" and res: "out_begin r pkt = Inr (r', t)"
  shows "locks_only r r'" and "t = OutDone \<or> (\<exists>q. t = OutSend q) \<or>
    (\<exists>f. t = OutLock f \<and> flow_of pkt f \<and> intern_map r (flow_intern f) = None)"
proof -
  have "locks_only r r' \<and> (t = OutDone \<or> (\<exists>q. t = OutSend q) \<or>
    (\<exists>f. t = OutLock f \<and> flow_of pkt f \<and> intern_map r (flow_intern f) = None))"
  proof (cases "ip_proto pkt = 6 \<or> ip_proto pkt = 17")
    case False
    with res have "r' = r" "t = OutDone"
      by (auto simp: out_begin_def ebind_Inr_iff rd8_Inr_iff ip_proto_def split: if_splits)
    then show ?thesis by simp
  next
    case True
    have len: "20 \<le> length pkt" using res by (auto simp: out_begin_def ebind_Inr_iff rd_ip_Inr_iff)
    then obtain tp where "header_len pkt = Inr tp" using res by (auto simp: out_begin_def ebind_Inr_iff)
    then have reads: "rd_ip pkt 12 = Inr (ip_src pkt)" "rd_ip pkt 16 = Inr (ip_dst pkt)"
      "header_len pkt = Inr (hlen pkt)" "rd8 pkt 9 = Inr (ip_proto pkt)"
      using len by (simp_all add: rd_ip_ok rd8_ok ip_src_def ip_dst_def ip_proto_def header_len_result)
    obtain psrc pdst pub_ip r1 h e where
      p: "rd16 pkt (hlen pkt) = Inr psrc" "rd16 pkt (hlen pkt + 2) = Inr pdst" "lock_intern r = Inr r1"
        "hashmap_get (napt_intern_hashmap r1)
           (intern_key_bytes \<lparr>ik_ip_src = ip_src pkt, ik_port_src = to_port psrc, ik_protocol = ip_proto pkt\<rparr>) = Inr (h, e)"
      and rest: "(case e of
           Some q \<Rightarrow> ebind (rd16 (data h) (q + 10)) (\<lambda>port. out_rewrite (unlock_intern (r1\<lparr>napt_intern_hashmap := h\<rparr>))
             \<lparr>flow_pkt = pkt, flow_transport = hlen pkt,
              flow_intern = \<lparr>ik_ip_src = ip_src pkt, ik_port_src = to_port psrc, ik_protocol = ip_proto pkt\<rparr>,
              flow_dst = ip_dst pkt, flow_port_dst = to_port pdst, flow_public = pub_ip\<rparr> port)
         | None \<Rightarrow> Inr (r1\<lparr>napt_intern_hashmap := h\<rparr>, OutLock
             \<lparr>flow_pkt = pkt, flow_transport = hlen pkt,
              flow_intern = \<lparr>ik_ip_src = ip_src pkt, ik_port_src = to_port psrc, ik_protocol = ip_proto pkt\<rparr>,
              flow_dst = ip_dst pkt, flow_port_dst = to_port pdst, flow_public = pub_ip\<rparr>)) = Inr (r', t)"
      using res True by (auto simp: out_begin_def reads Let_def ebind_Inr_iff)
    have key: "to_port psrc = tpt_src pkt" "to_port pdst = tpt_dst pkt"
      using p(1,2) by (simp_all add: rd16_Inr_iff tpt_src_def tpt_dst_def)
    have l1: "locks_only r r1" by (rule locks_only_lock(2) [OF p(3)])
    have "\<exists>l. h = (napt_intern_hashmap r1)\<lparr>hm_lock := l\<rparr>"
      using hashmap_get_lock [OF p(4)] same_lock unlock_lock by metis
    then have "locks_only r1 (r1\<lparr>napt_intern_hashmap := h\<rparr>)" by (simp add: locks_only_def same_lock)
    with l1 have l2: "locks_only r (r1\<lparr>napt_intern_hashmap := h\<rparr>)" by (rule locks_only_trans)
    show ?thesis
    proof (cases e)
      case (Some q)
      with rest have "r' = unlock_intern (r1\<lparr>napt_intern_hashmap := h\<rparr>)" "\<exists>q. t = OutSend q"
        by (auto simp: ebind_Inr_iff dest!: out_rewrite_result)
      with l2 show ?thesis by (auto intro: locks_only_trans)
    next
      case None
      have "intern_map r (flow_key pkt) = None"
      proof (rule ccontr)
        assume "intern_map r (flow_key pkt) \<noteq> None"
        then obtain v where "intern_map r1 (flow_key pkt) = Some v" using locks_only_keep(2) [OF l1] by auto
        then have v: "napt_view intern_key_bytes (napt_intern_hashmap r1) (flow_key pkt) = Some v"
          by (simp add: intern_map_def)
        have "table_ok 7 (napt_intern_hashmap r1)" using assms(1) l1 by (auto simp: locks_only_def)
        from napt_get_slot [OF this v] p(4) None show False by (auto simp: key flow_key_def)
      qed
      with rest None l2 True len show ?thesis by (auto simp: flow_of_def flow_key_def key)
    qed
  qed
  then show "locks_only r r'" and "t = OutDone \<or> (\<exists>q. t = OutSend q) \<or>
    (\<exists>f. t = OutLock f \<and> flow_of pkt f \<and> intern_map r (flow_intern f) = None)" by blast+
qed

text \<open>An attempt to enter a flow: the port collides, or the flow's entry joins the table.\<close>

lemma try_result:
  assumes "nat_tables r ps" and "intern_map r (flow_intern f) = None" and "p \<in> set ps" and "flow_of p f"
  shows "\<exists>r' found. napt_attempt 1 r (flow_intern f) (flow_dst f) (flow_port_dst f) (flow_public f) = Inr (r', found) \<and>
    nat_tables r' ps \<and> (found = None \<longrightarrow> locks_only r r') \<and>
    (\<forall>qs w. wan_ok r ps qs w \<longrightarrow> wan_ok r' ps qs w)"
proof -
  let ?p = "random_port (rand_seq r (rand_pos r))"
  let ?k = "extern_key_of (flow_intern f) (flow_dst f) (flow_port_dst f) ?p"
  let ?e = "new_entry (flow_intern f) (flow_dst f) (flow_port_dst f) (flow_public f) ?p"
  have tab: "table_ok 9 (napt_extern_hashmap r)" "table_ok 7 (napt_intern_hashmap r)" "configured (interface_arr r)"
    using assms(1) by (simp_all add: nat_tables_def)
  have proto: "ik_protocol (flow_intern f) \<noteq> 0" using assms(4) by (auto simp: flow_of_def flow_key_def)
  note step = napt_attempt_step [OF tab(1,2) assms(2) proto refl, of "flow_dst f" "flow_port_dst f" 0 "flow_public f"]
  show ?thesis
  proof (cases "is_free r (flow_intern f) (flow_dst f) (flow_port_dst f) ?p")
    case True
    with step obtain he hi where
      h: "napt_attempt 1 r (flow_intern f) (flow_dst f) (flow_port_dst f) (flow_public f) =
          Inr (r\<lparr>rand_pos := rand_pos r + 1, napt_extern_hashmap := he, napt_intern_hashmap := hi\<rparr>, Some ?p)"
        "table_ok 9 he" "table_ok 7 hi" "napt_view extern_key_bytes he = (extern_base r)(?k \<mapsto> ?e)"
        "moves (napt_extern_hashmap r) he"
      unfolding One_nat_def by (auto simp del: napt_attempt.simps)
    let ?r = "r\<lparr>rand_pos := rand_pos r + 1, napt_extern_hashmap := he, napt_intern_hashmap := hi\<rparr>"
    have "asked_for ?k ?e p"
      using assms(4) by (simp add: flow_of_def asked_for_def extern_key_of_def new_entry_def flow_key_def)
    moreover have "extern_map ?r = (extern_base r)(?k \<mapsto> ?e)" by (simp add: extern_map_def h(4))
    ultimately have "\<exists>p \<in> set ps. asked_for k e p" if "ek_protocol k \<noteq> 0" "extern_map ?r k = Some e" for k e
      using that assms(1,3) base_below_map [OF that(1)] by (auto simp: nat_tables_def split: if_splits)
    then have "nat_tables ?r ps" using tab(3) h(2,3) by (simp add: nat_tables_def)
    moreover have "wan_ok ?r ps qs w" if "wan_ok r ps qs w" for qs w
      using that ptr_ok_moves [OF _ h(5)] by (cases w) auto
    ultimately show ?thesis using h(1) by blast
  next
    case False
    let ?r = "r\<lparr>rand_pos := rand_pos r + 1, napt_extern_hashmap := hashmap_unlock (napt_extern_hashmap r)\<rparr>"
    have "napt_attempt 1 r (flow_intern f) (flow_dst f) (flow_port_dst f) (flow_public f) = Inr (?r, None)"
      using step False by simp
    moreover have "locks_only r ?r" by (simp add: locks_only_def same_lock unlock_lock)
    moreover note locks_only_keep [OF this]
    ultimately show ?thesis using assms(1) by auto
  qed
qed

lemma out_section_ok:
  assumes "nat_tables r ps" and "lan_ok r ps t" and res: "out_section r t = Inr (r', t')"
  shows "nat_tables r' ps" and "lan_ok r' ps t'" and "wan_ok r ps qs w \<Longrightarrow> wan_ok r' ps qs w"
proof -
  have tab: "table_ok 7 (napt_intern_hashmap r)" using assms(1) by (simp add: nat_tables_def)
  have "nat_tables r' ps \<and> lan_ok r' ps t' \<and> (\<forall>qs w. wan_ok r ps qs w \<longrightarrow> wan_ok r' ps qs w)"
  proof (cases t)
    case (OutStart pkt)
    with res assms(2) out_begin_result [OF tab, of pkt r' t'] show ?thesis
      using locks_only_keep [of r r'] assms(1) by auto
  next
    case (OutLock f)
    with res obtain r1 where "lock_extern r = Inr r1" "r' = r1" "t' = OutTry f 10" by (auto simp: ebind_Inr_iff)
    with OutLock assms(1,2) locks_only_keep [OF locks_only_lock(1)] show ?thesis by auto
  next
    case (OutTry f n)
    with assms(2) obtain p where p: "intern_map r (flow_intern f) = None" "p \<in> set ps" "flow_of p f" by auto
    from try_result [OF assms(1) p] obtain r1 found where
      r1: "napt_attempt 1 r (flow_intern f) (flow_dst f) (flow_port_dst f) (flow_public f) = Inr (r1, found)"
        "nat_tables r1 ps" "found = None \<longrightarrow> locks_only r r1" "\<forall>qs w. wan_ok r ps qs w \<longrightarrow> wan_ok r1 ps qs w"
      by blast
    have "r' = r1" "t' = (if found = None \<and> 1 < n then OutTry f (n - 1) else OutUnlock f found)"
      using res r1(1) by (simp_all add: OutTry del: napt_attempt.simps)
    with r1 p locks_only_keep(2) [of r r1] show ?thesis by auto
  next
    case (OutUnlock f found)
    have "locks_only r (unlock_intern (unlock_extern r))" by (rule locks_only_trans [of _ "unlock_extern r"]) simp_all
    then have "locks_only r r' \<and> (t' = OutDone \<or> (\<exists>q. t' = OutSend q))"
      using res OutUnlock by (auto split: option.splits dest!: out_rewrite_result)
    with assms(1) locks_only_keep [of r r'] show ?thesis by auto
  next
    case (OutSend pkt)
    with res obtain q where "send_ipv4 r pkt = Inr (r', q)" "t' = OutDone" by (auto simp: ebind_Inr_iff)
    with assms(1) locks_only_keep [OF locks_only_same [OF send_ipv4_keeps]] show ?thesis by auto
  next
    case OutDone
    with res assms show ?thesis by simp
  qed
  then show "nat_tables r' ps" "lan_ok r' ps t'" "wan_ok r ps qs w \<Longrightarrow> wan_ok r' ps qs w" by blast+
qed

text \<open>The lookup for an incoming packet, and the reading of its entry later.\<close>

lemma inc_lookup_result:
  assumes "nat_tables r ps" and res: "inc_lookup r pkt = Inr (r', found)"
  shows "locks_only r r'" and "found = None \<or> (\<exists>e. found = Some (hlen pkt, e) \<and> ptr_ok (napt_extern_hashmap r) ps pkt e)"
proof -
  have tab: "table_ok 9 (napt_extern_hashmap r)" using assms(1) by (simp add: nat_tables_def)
  obtain tp where "header_len pkt = Inr tp" using res by (auto simp: inc_lookup_def ebind_Inr_iff)
  then have tp: "header_len pkt = Inr (hlen pkt)" using header_len_result by blast
  have "locks_only r r' \<and> (found = None \<or> (\<exists>e. found = Some (hlen pkt, e) \<and> ptr_ok (napt_extern_hashmap r) ps pkt e))"
  proof (cases "ip_proto pkt = 6 \<or> ip_proto pkt = 17")
    case False
    with res have "r' = r" "found = None"
      by (auto simp: inc_lookup_def ebind_Inr_iff rd8_Inr_iff ip_proto_def split: if_splits)
    then show ?thesis by simp
  next
    case True
    have "10 \<le> length pkt" using res by (auto simp: inc_lookup_def tp ebind_Inr_iff rd8_Inr_iff)
    then have proto: "rd8 pkt 9 = Inr (ip_proto pkt)" by (simp add: rd8_ok ip_proto_def)
    have "16 \<le> length pkt"
      using res True by (auto simp: inc_lookup_def tp proto ebind_Inr_iff rd_ip_Inr_iff)
    then have reads: "rd8 pkt 9 = Inr (ip_proto pkt)" "rd_ip pkt 12 = Inr (ip_src pkt)"
      using proto by (simp_all add: rd_ip_ok ip_src_def)
    obtain psrc pdst r1 h e where
      p: "rd16 pkt (hlen pkt) = Inr psrc" "rd16 pkt (hlen pkt + 2) = Inr pdst" "lock_extern r = Inr r1"
        "hashmap_get (napt_extern_hashmap r1) (extern_key_bytes
           \<lparr>ek_ip_dst = ip_src pkt, ek_port_src = to_port pdst, ek_port_dst = to_port psrc, ek_protocol = ip_proto pkt\<rparr>)
           = Inr (h, e)"
      and rest: "(case e of None \<Rightarrow> Inr (unlock_extern (r1\<lparr>napt_extern_hashmap := h\<rparr>), None)
         | Some q \<Rightarrow> Inr (r1\<lparr>napt_extern_hashmap := h\<rparr>, Some (hlen pkt, \<lparr>ptr_block = size_allocated h, ptr_offset = q\<rparr>)))
         = (Inr (r', found) :: (router \<times> (nat \<times> entry_ptr) option) res)"
      using res True unfolding inc_lookup_def Let_def tp reads ebind.simps if_P [OF True]
      by (elim ebind_InrE) (simp split: prod.splits del: add_2_eq_Suc')
    have key: "\<lparr>ek_ip_dst = ip_src pkt, ek_port_src = to_port pdst, ek_port_dst = to_port psrc, ek_protocol = ip_proto pkt\<rparr>
        = reply_key pkt"
      using p(1,2) by (simp add: rd16_Inr_iff reply_key_def tpt_src_def tpt_dst_def)
    have l1: "locks_only r r1" by (rule locks_only_lock(1) [OF p(3)])
    obtain l where h: "h = (napt_extern_hashmap r1)\<lparr>hm_lock := l\<rparr>"
      using hashmap_get_lock [OF p(4)] same_lock unlock_lock by metis
    then have "locks_only r1 (r1\<lparr>napt_extern_hashmap := h\<rparr>)" by (auto simp: locks_only_def same_lock)
    with l1 have l2: "locks_only r (r1\<lparr>napt_extern_hashmap := h\<rparr>)" by (rule locks_only_trans)
    show ?thesis
    proof (cases e)
      case None
      with rest have "r' = unlock_extern (r1\<lparr>napt_extern_hashmap := h\<rparr>)" "found = None" by auto
      with l2 show ?thesis by (auto intro: locks_only_trans)
    next
      case (Some q)
      let ?h = "napt_extern_hashmap r1"
      have tab1: "table_ok 9 ?h" using tab l1 by (auto simp: locks_only_def)
      have "napt_view extern_key_bytes ?h (reply_key pkt) \<noteq> None"
        using napt_get_none [OF tab1, of extern_key_bytes "reply_key pkt"] p(4) Some by (auto simp: key)
      then obtain v where v: "napt_view extern_key_bytes ?h (reply_key pkt) = Some v" by blast
      from napt_get_slot [OF tab1 v] p(4) Some obtain j where
        j: "j < size_allocated ?h" "tag_at ?h j = HASHMAP_TAG_TAKEN" "entry_at (val_at ?h j) 0 = v"
          "q = key_off ?h j + size_key ?h" by (auto simp: key)
      have "extern_map r (reply_key pkt) = Some v" using v locks_only_keep(1) [OF l1] by (simp add: extern_map_def)
      moreover have "ek_protocol (reply_key pkt) \<noteq> 0" using True by (auto simp: reply_key_def)
      ultimately obtain p where "p \<in> set ps" "asked_for (reply_key pkt) v p" using assms(1) by (auto simp: nat_tables_def)
      with j have "ptr_ok ?h ps pkt (slot_ptr ?h j)" by (auto simp: ptr_ok_def)
      moreover have "ptr_ok ?h = ptr_ok (napt_extern_hashmap r)" using l1 by (auto simp: locks_only_def)
      ultimately have "ptr_ok (napt_extern_hashmap r) ps pkt (slot_ptr ?h j)" by simp
      moreover have "found = Some (hlen pkt, slot_ptr ?h j)"
        using rest Some by (auto simp: slot_ptr_def h j(4))
      moreover have "r' = r1\<lparr>napt_extern_hashmap := h\<rparr>" using rest Some by simp
      ultimately show ?thesis using l2 by blast
    qed
  qed
  then show "locks_only r r'"
    and "found = None \<or> (\<exists>e. found = Some (hlen pkt, e) \<and> ptr_ok (napt_extern_hashmap r) ps pkt e)" by blast+
qed

lemma inc_read_result:
  assumes "nat_tables r ps" and "ptr_ok (napt_extern_hashmap r) ps pkt e"
    and res: "inc_section r (IncRead pkt (hlen pkt) e) = Inr (r', t)"
  shows "locks_only r r'" and "\<exists>p \<in> set ps. answers pkt p \<and> t = IncSend (translate_in (ip_src p) (tpt_src p) pkt)"
proof -
  let ?h = "napt_extern_hashmap r"
  have tab: "layout_ok ?h" "size_value ?h = 24"
    using assms(1) hm_inv_layout by (auto simp: nat_tables_def table_ok_def)
  have block: "ptr_block e = size_allocated ?h"
    using res by (auto simp: entry_ref_def split: if_splits)
  then obtain j v p where s: "e = slot_ptr ?h j" "j < size_allocated ?h" "entry_at (val_at ?h j) 0 = v"
      "p \<in> set ps" "asked_for (reply_key pkt) v p"
    using assms(2) by (auto simp: ptr_ok_def)
  have "answers pkt p" "ip_src p = lan_ip v" "tpt_src p = lan_port v"
    using s(5) by (auto simp: asked_for_def answers_def reply_key_def)
  moreover obtain pkt1 pkt2 where w: "wr_ip pkt 16 (lan_ip v) = Inr pkt1"
      "wr16 pkt1 (hlen pkt + 2) (from_port (lan_port v)) = Inr pkt2" "r' = unlock_extern r" "t = IncSend pkt2"
    using res slot_entry [OF tab s(2,3)] s(1)
    by (auto simp: entry_ref_def slot_ptr_def ebind_Inr_iff simp del: add_2_eq_Suc')
  have "pkt1 = splice 16 (ip_bytes (lan_ip v)) pkt" using w(1) by (simp add: wr_ip_Inr_iff)
  moreover have "Suc (hlen pkt + 2) < length pkt1" using w(2) by (auto simp: wr16_def ebind_Inr_iff wr8_Inr_iff)
  then have "pkt2 = put16 pkt1 (hlen pkt + 2) (from_port (lan_port v))"
    using w(2) wr16_put16 [of "hlen pkt + 2" pkt1] by simp
  ultimately have "t = IncSend (translate_in (ip_src p) (tpt_src p) pkt)" using w(4) by (simp add: translate_in_def)
  with s(4) \<open>answers pkt p\<close> show "\<exists>p \<in> set ps. answers pkt p \<and> t = IncSend (translate_in (ip_src p) (tpt_src p) pkt)"
    by blast
  show "locks_only r r'" by (simp add: w(3))
qed

lemma inc_section_ok:
  assumes "nat_tables r ps" and "wan_ok r ps qs t" and res: "inc_section r t = Inr (r', t')"
  shows "locks_only r r'" and "wan_ok r' ps qs t'"
proof -
  have "locks_only r r' \<and> wan_ok r' ps qs t'"
  proof (cases t)
    case (IncStart pkt)
    with res obtain found where f: "inc_lookup r pkt = Inr (r', found)"
      "t' = (case found of None \<Rightarrow> IncDone | Some (tp, e) \<Rightarrow> IncRead pkt tp e)" by (auto simp: ebind_Inr_iff)
    note l = inc_lookup_result [OF assms(1) f(1)]
    from l(1) have "ptr_ok (napt_extern_hashmap r') = ptr_ok (napt_extern_hashmap r)" by (auto simp: locks_only_def)
    with l f(2) assms(2) IncStart show ?thesis by auto
  next
    case (IncRead pkt tp e)
    with assms(2) have w: "pkt \<in> set qs" "tp = hlen pkt" "ptr_ok (napt_extern_hashmap r) ps pkt e" by simp_all
    from res IncRead w(2) have "inc_section r (IncRead pkt (hlen pkt) e) = Inr (r', t')" by simp
    from inc_read_result [OF assms(1) w(3) this] w(1) show ?thesis by fastforce
  next
    case (IncSend pkt)
    with res obtain q where "send_ipv4 r pkt = Inr (r', q)" "t' = IncDone" by (auto simp: ebind_Inr_iff)
    then show ?thesis using locks_only_same [OF send_ipv4_keeps] by auto
  next
    case IncDone
    with res show ?thesis by simp
  qed
  then show "locks_only r r'" and "wan_ok r' ps qs t'" by blast+
qed

lemma threads_ok_step:
  assumes "nat_step c d" and "threads_ok c"
  shows "threads_ok d"
proof -
  have ok: "nat_tables (shared c) (lan_packets c)" "lan_ok (shared c) (lan_packets c) (lan_thread c)"
    "wan_ok (shared c) (lan_packets c) (wan_packets c) (wan_thread c)"
    using assms(2) by (simp_all add: threads_ok_def)
  from assms(1) show ?thesis
  proof (cases rule: nat_step.cases)
    case (lan_packet pkt)
    have more: "set (lan_packets c) \<subseteq> set (lan_packets c @ [pkt])" by auto
    with lan_packet ok more_packets(1) [OF more] more_packets(3) [OF more order_refl] show ?thesis by (simp add: threads_ok_def)
  next
    case (wan_packet pkt)
    with ok show ?thesis by (simp add: threads_ok_def)
  next
    case (lan_section r t)
    with out_section_ok [OF ok(1,2) lan_section(2)] ok(3) show ?thesis by (simp add: threads_ok_def)
  next
    case (wan_section r t)
    from inc_section_ok [OF ok(1,3) wan_section(2)] have "locks_only (shared c) r"
      "wan_ok r (lan_packets c) (wan_packets c) t" by blast+
    with wan_section(1) ok locks_only_keep [of "shared c" r] show ?thesis by (simp add: threads_ok_def)
  next
    case (elsewhere r)
    with ok locks_only_keep [OF locks_only_same [OF elsewhere(2)]] show ?thesis by (simp add: threads_ok_def)
  qed
qed

lemma threads_ok_reach:
  assumes "nat_step\<^sup>*\<^sup>* (idle_threads r) c" and "tables_ok r" and "\<And>k. ek_protocol k \<noteq> 0 \<Longrightarrow> extern_map r k = None"
  shows "threads_ok c"
  using assms(1)
proof (induction rule: rtranclp_induct)
  case base
  show ?case using assms(2,3) by (simp add: threads_ok_def idle_threads_def nat_tables_def tables_ok_def extern_ok_def)
next
  case (step c d)
  with threads_ok_step show ?case by blast
qed

section \<open>Sections on well-formed packets\<close>

definition flow_for :: "router \<Rightarrow> buf \<Rightarrow> flow" where
  "flow_for r pkt =
     \<lparr>flow_pkt = pkt, flow_transport = hlen pkt, flow_intern = flow_key pkt, flow_dst = ip_dst pkt,
      flow_port_dst = tpt_dst pkt, flow_public = public_addr r\<rparr>"

lemma out_rewrite_ok:
  assumes "translatable p" and "flow_of p f"
  shows "out_rewrite r f port = Inr (r, OutSend (translate_out (flow_public f) port p))"
proof -
  have "20 \<le> hlen p" "hlen p + 4 \<le> length p" using assms(1) by (auto simp: translatable_def wf_pkt_def)
  with assms(2) show ?thesis
    by (simp add: out_rewrite_def flow_of_def wr_ip_ok wr16_put16 length_splice translate_out_def)
qed

lemma flow_for_of: "translatable pkt \<Longrightarrow> flow_of pkt (flow_for r pkt)"
  by (auto simp: flow_of_def flow_for_def translatable_def wf_pkt_def)

lemma out_begin_eq:
  assumes "translatable pkt" and "configured (interface_arr r)"
  shows "out_begin r pkt =
    ebind (lock_intern r) (\<lambda>r1.
    ebind (hashmap_get (napt_intern_hashmap r1) (intern_key_bytes (flow_key pkt))) (\<lambda>(h, e).
      case e of
        Some p \<Rightarrow> ebind (rd16 (data h) (p + 10)) (\<lambda>port.
          Inr (unlock_intern (r1\<lparr>napt_intern_hashmap := h\<rparr>), OutSend (translate_out (public_addr r) port pkt)))
      | None \<Rightarrow> Inr (r1\<lparr>napt_intern_hashmap := h\<rparr>, OutLock (flow_for r pkt))))"
proof -
  have proto: "ip_proto pkt = 6 \<or> ip_proto pkt = 17" using assms(1) by (simp add: translatable_def)
  have f: "\<lparr>flow_pkt = pkt, flow_transport = hlen pkt, flow_intern = flow_key pkt, flow_dst = ip_dst pkt,
      flow_port_dst = tpt_dst pkt, flow_public = public_addr r\<rparr> = flow_for r pkt" by (simp add: flow_for_def)
  have "flow_public (flow_for r pkt) = public_addr r" by (simp add: flow_for_def)
  moreover have "interface_get_ip (interface_arr r) interface_get_wan_id = Inr (public_addr r)"
    using interface_get_ip_wan [OF assms(2)] by (simp add: public_addr_def)
  ultimately show ?thesis
    using proto
    by (auto simp: out_begin_def header_reads [OF assms(1)] ports_ok [OF assms(1)] Let_def f
        out_rewrite_ok [OF assms(1) flow_for_of [OF assms(1)]]
        simp del: add_2_eq_Suc' simp flip: flow_key_def intro!: ebind_cong split: option.split)
qed

lemma inc_read_slot:
  assumes "translatable pkt" and "h = napt_extern_hashmap r" and "table_ok 9 h"
    and "j < size_allocated h" and "entry_at (val_at h j) 0 = e"
  shows "inc_section r (IncRead pkt (hlen pkt) (slot_ptr h j)) =
    Inr (unlock_extern r, IncSend (translate_in (lan_ip e) (lan_port e) pkt))"
proof -
  have tab: "layout_ok h" "size_value h = 24" using assms(3) hm_inv_layout by (auto simp: table_ok_def)
  have "20 \<le> hlen pkt" "hlen pkt + 4 \<le> length pkt" using assms(1) by (auto simp: translatable_def wf_pkt_def)
  then have "wr_ip pkt 16 ip = Inr (splice 16 (ip_bytes ip) pkt)"
    "wr16 (splice 16 (ip_bytes ip) pkt) (hlen pkt + 2) (from_port q) = Inr (translate_in ip q pkt)" for ip q
    by (simp_all add: wr_ip_ok wr16_put16 length_splice translate_in_def)
  then show ?thesis
    using slot_entry [OF tab assms(4,5)] by (simp add: entry_ref_def slot_ptr_def flip: assms(2) del: add_2_eq_Suc')
qed

section \<open>What can stop a section\<close>

lemma lock_fault: "lock_extern r = Inl f \<Longrightarrow> f = Blocked" "lock_intern r = Inl f \<Longrightarrow> f = Blocked"
  by (auto simp: lock_extern_def lock_intern_def hashmap_lock_def mutex_lock_def ebind_Inl_iff split: if_splits)

lemma out_begin_fault:
  assumes "translatable pkt" and "nat_tables r ps" and res: "out_begin r pkt = Inl f"
  shows "f = Blocked"
proof (cases "lock_intern r")
  case (Inl g)
  with res lock_fault(2) [OF Inl] show ?thesis
    using out_begin_eq [OF assms(1), of r] assms(2) by (simp add: nat_tables_def)
next
  case (Inr r1)
  have tab: "table_ok 7 (napt_intern_hashmap r1)"
    using assms(2) locks_only_lock(2) [OF Inr] by (auto simp: nat_tables_def locks_only_def)
  have "\<exists>x. out_begin r pkt = Inr x"
  proof (cases "napt_view intern_key_bytes (napt_intern_hashmap r1) (flow_key pkt)")
    case None
    from napt_get_none [OF tab this] show ?thesis
      using out_begin_eq [OF assms(1), of r] assms(2) Inr by (simp add: nat_tables_def)
  next
    case (Some e)
    have "data (hashmap_unlock h) = data h" for h by (simp add: hashmap_unlock_def)
    with napt_get_entry [OF tab Some] show ?thesis
      using out_begin_eq [OF assms(1), of r] assms(2) Inr by (auto simp: nat_tables_def)
  qed
  with res show ?thesis by simp
qed

lemma out_section_fault:
  assumes "\<forall>p \<in> set ps. translatable p" and "nat_tables r ps" and "lan_ok r ps t" and res: "out_section r t = Inl f"
  shows "f = Blocked \<or> (\<exists>q. t = OutSend q)"
proof (cases t)
  case (OutStart pkt)
  with assms out_begin_fault show ?thesis by auto
next
  case (OutLock fl)
  with res lock_fault(1) show ?thesis by (auto simp: ebind_Inl_iff)
next
  case (OutTry fl n)
  with assms(3) obtain p where "intern_map r (flow_intern fl) = None" "p \<in> set ps" "flow_of p fl" by auto
  from try_result [OF assms(2) this] res show ?thesis by (auto simp: OutTry simp del: napt_attempt.simps)
next
  case (OutUnlock fl found)
  with assms(1,3) obtain p where "translatable p" "flow_of p fl" by auto
  from out_rewrite_ok [OF this] res OutUnlock show ?thesis by (auto split: option.splits)
qed (use res in auto)

lemma inc_lookup_fault:
  assumes t: "translatable pkt" and "nat_tables r ps" and res: "inc_lookup r pkt = Inl f"
  shows "f = Blocked"
proof (cases "lock_extern r")
  case (Inl g)
  with res lock_fault(1) [OF Inl] t show ?thesis
    by (auto simp: inc_lookup_def header_reads [OF t] ports_ok [OF t] translatable_def simp del: add_2_eq_Suc')
next
  case (Inr r1)
  have tab: "table_ok 9 (napt_extern_hashmap r1)"
    using assms(2) locks_only_lock(1) [OF Inr] by (auto simp: nat_tables_def locks_only_def)
  have "\<exists>h e. hashmap_get (napt_extern_hashmap r1) (extern_key_bytes k) = Inr (h, e)" for k
    using napt_get_none [OF tab, of extern_key_bytes k] napt_get_entry [OF tab, of extern_key_bytes k]
    by (cases "napt_view extern_key_bytes (napt_extern_hashmap r1) k") auto
  then obtain h e where "hashmap_get (napt_extern_hashmap r1) (extern_key_bytes
      \<lparr>ek_ip_dst = ip_src pkt, ek_port_src = tpt_dst pkt, ek_port_dst = tpt_src pkt, ek_protocol = ip_proto pkt\<rparr>) = Inr (h, e)"
    by blast
  with res Inr t show ?thesis
    by (auto simp: inc_lookup_def header_reads [OF t] ports_ok [OF t] translatable_def Let_def
        simp del: add_2_eq_Suc' split: option.splits)
qed

lemma inc_section_fault:
  assumes "\<forall>p \<in> set qs. translatable p" and "nat_tables r ps" and "wan_ok r ps qs t" and res: "inc_section r t = Inl f"
  shows "f = Blocked \<or> (\<exists>q. t = IncSend q) \<or> f = OutOfBounds \<and>
    (\<exists>pkt n e. t = IncRead pkt n e \<and> ptr_block e < size_allocated (napt_extern_hashmap r))"
proof (cases t)
  case (IncStart pkt)
  with assms inc_lookup_fault show ?thesis by (auto simp: ebind_Inl_iff)
next
  case (IncRead pkt n e)
  with assms(1,3) have w: "translatable pkt" "n = hlen pkt" "ptr_ok (napt_extern_hashmap r) ps pkt e" by auto
  have tab: "table_ok 9 (napt_extern_hashmap r)" using assms(2) by (simp add: nat_tables_def)
  show ?thesis
  proof (cases "ptr_block e < size_allocated (napt_extern_hashmap r)")
    case True
    with res IncRead show ?thesis by (auto simp: entry_ref_def)
  next
    case False
    with w(3) obtain j where "e = slot_ptr (napt_extern_hashmap r) j" "j < size_allocated (napt_extern_hashmap r)"
      by (auto simp: ptr_ok_def)
    with inc_read_slot [OF w(1) refl tab this(2) refl] res IncRead w(2) show ?thesis by simp
  qed
qed (use res in auto)

section \<open>Reaching the other thread's critical section\<close>

text \<open>An outgoing packet of a new flow is taken up and both tables are locked for it.\<close>

lemma flow_taken_up:
  assumes ok: "napt_ok r" "configured (interface_arr r)" and "translatable pkt" and "intern_map r (flow_key pkt) = None"
    and c: "shared c = r" "lan_thread c = OutDone"
  obtains r2 where "nat_step\<^sup>*\<^sup>* c (c\<lparr>shared := r2, lan_thread := OutTry (flow_for r pkt) 10, lan_packets := lan_packets c @ [pkt]\<rparr>)"
    and "locks_only r r2" and "napt_only r r2" and "rand_pos r2 = rand_pos r" and "held (hm_lock (napt_extern_hashmap r2))"
proof -
  define r1 where "r1 = r\<lparr>napt_intern_hashmap := (napt_intern_hashmap r)\<lparr>hm_lock := (hm_lock (napt_intern_hashmap r))\<lparr>held := True\<rparr>\<rparr>\<rparr>"
  define r2 where "r2 = r1\<lparr>napt_extern_hashmap := (napt_extern_hashmap r)\<lparr>hm_lock := (hm_lock (napt_extern_hashmap r))\<lparr>held := True\<rparr>\<rparr>\<rparr>"
  have l1: "lock_intern r = Inr r1" using ok(1) by (simp add: lock_intern_def hashmap_lock_free napt_ok_def r1_def)
  have l2: "lock_extern r1 = Inr r2" using ok(1) by (simp add: lock_extern_def hashmap_lock_free napt_ok_def r1_def r2_def)
  have "table_ok 7 (napt_intern_hashmap r1)" using ok(1) by (simp add: napt_ok_def r1_def)
  moreover have "napt_view intern_key_bytes (napt_intern_hashmap r1) (flow_key pkt) = None"
    using assms(4) by (simp add: r1_def intern_map_def)
  ultimately have "hashmap_get (napt_intern_hashmap r1) (intern_key_bytes (flow_key pkt)) = Inr (napt_intern_hashmap r1, None)"
    by (rule napt_get_none)
  then have "out_begin r pkt = Inr (r1, OutLock (flow_for r pkt))"
    by (simp add: out_begin_eq [OF assms(3) ok(2)] l1)
  then have s2: "out_section r (OutStart pkt) = Inr (r1, OutLock (flow_for r pkt))" by simp
  have s3: "out_section r1 (OutLock (flow_for r pkt)) = Inr (r2, OutTry (flow_for r pkt) 10)" by (simp add: l2)
  let ?c1 = "c\<lparr>lan_thread := OutStart pkt, lan_packets := lan_packets c @ [pkt]\<rparr>"
  let ?c2 = "?c1\<lparr>shared := r1, lan_thread := OutLock (flow_for r pkt)\<rparr>"
  let ?c3 = "?c2\<lparr>shared := r2, lan_thread := OutTry (flow_for r pkt) 10\<rparr>"
  have "nat_step c ?c1" by (rule nat_step.lan_packet [OF c(2)])
  moreover have "nat_step ?c1 ?c2" by (rule nat_step.lan_section) (use s2 c(1) in simp)
  moreover have "nat_step ?c2 ?c3" by (rule nat_step.lan_section) (use s3 in simp)
  ultimately have "nat_step\<^sup>*\<^sup>* c ?c3"
    by (meson converse_rtranclp_into_rtranclp r_into_rtranclp)
  moreover have "?c3 = c\<lparr>shared := r2, lan_thread := OutTry (flow_for r pkt) 10, lan_packets := lan_packets c @ [pkt]\<rparr>"
    by simp
  moreover have "locks_only r r2" by (rule locks_only_trans [OF locks_only_lock(2) [OF l1] locks_only_lock(1) [OF l2]])
  moreover have "napt_only r r2" "rand_pos r2 = rand_pos r" "held (hm_lock (napt_extern_hashmap r2))"
    by (simp_all add: napt_only_def r1_def r2_def)
  ultimately show ?thesis using that by metis
qed

text \<open>The attempt to enter it succeeds at once if the next port is free.\<close>

lemma try_enters:
  assumes "table_ok 9 (napt_extern_hashmap s)" and "table_ok 7 (napt_intern_hashmap s)"
    and "translatable pkt" and "intern_map s (flow_key pkt) = None" and p: "p = random_port (rand_seq s (rand_pos s))"
    and "is_free s (flow_key pkt) (ip_dst pkt) (tpt_dst pkt) p"
  obtains s' where "out_section s (OutTry (flow_for r pkt) n) = Inr (s', OutUnlock (flow_for r pkt) (Some p))"
    and "table_ok 9 (napt_extern_hashmap s')" and "moves (napt_extern_hashmap s) (napt_extern_hashmap s')"
    and "extern_map s' = (extern_base s)(flow_extern_key pkt p \<mapsto>
           new_entry (flow_key pkt) (ip_dst pkt) (tpt_dst pkt) (public_addr r) p)"
proof -
  have f: "flow_intern (flow_for r pkt) = flow_key pkt" "flow_dst (flow_for r pkt) = ip_dst pkt"
    "flow_port_dst (flow_for r pkt) = tpt_dst pkt" "flow_public (flow_for r pkt) = public_addr r"
    by (simp_all add: flow_for_def)
  from napt_attempt_step [OF assms(1,2,4) flow_proto [OF assms(3)] p, of "ip_dst pkt" "tpt_dst pkt" 0 "public_addr r"]
    assms(6)
  obtain he hi where
    he: "napt_attempt 1 s (flow_key pkt) (ip_dst pkt) (tpt_dst pkt) (public_addr r) =
        Inr (s\<lparr>rand_pos := rand_pos s + 1, napt_extern_hashmap := he, napt_intern_hashmap := hi\<rparr>, Some p)"
      "table_ok 9 he" "moves (napt_extern_hashmap s) he"
      "napt_view extern_key_bytes he = (extern_base s)(extern_key_of (flow_key pkt) (ip_dst pkt) (tpt_dst pkt) p \<mapsto>
         new_entry (flow_key pkt) (ip_dst pkt) (tpt_dst pkt) (public_addr r) p)"
    unfolding One_nat_def by (auto simp del: napt_attempt.simps)
  let ?s = "s\<lparr>rand_pos := rand_pos s + 1, napt_extern_hashmap := he, napt_intern_hashmap := hi\<rparr>"
  have "out_section s (OutTry (flow_for r pkt) n) = Inr (?s, OutUnlock (flow_for r pkt) (Some p))"
    using he(1) by (simp add: f del: napt_attempt.simps)
  with he(2-4) that [of ?s] show ?thesis by (simp add: extern_map_def flow_extern_key_def)
qed

lemma flow_entered:
  assumes ok: "napt_ok r" "configured (interface_arr r)" and t: "translatable pkt" and new: "intern_map r (flow_key pkt) = None"
    and p: "p = random_port (rand_seq r (rand_pos r))" and free: "is_free r (flow_key pkt) (ip_dst pkt) (tpt_dst pkt) p"
    and c: "shared c = r" "lan_thread c = OutDone"
  obtains r' where "nat_step\<^sup>*\<^sup>* c (c\<lparr>shared := r', lan_thread := OutSend (translate_out (public_addr r) p pkt),
      lan_packets := lan_packets c @ [pkt]\<rparr>)"
    and "extern_ok r'" and "extern_map r' = (extern_base r)(flow_extern_key pkt p \<mapsto>
           new_entry (flow_key pkt) (ip_dst pkt) (tpt_dst pkt) (public_addr r) p)"
proof -
  let ?f = "flow_for r pkt"
  obtain r2 where "nat_step\<^sup>*\<^sup>* c (c\<lparr>shared := r2, lan_thread := OutTry ?f 10, lan_packets := lan_packets c @ [pkt]\<rparr>)"
      and r2: "locks_only r r2" "napt_only r r2" "rand_pos r2 = rand_pos r"
    by (rule flow_taken_up [OF ok t new c])
  moreover define c2 where "c2 = c\<lparr>shared := r2, lan_thread := OutTry ?f 10, lan_packets := lan_packets c @ [pkt]\<rparr>"
  ultimately have s2: "nat_step\<^sup>*\<^sup>* c c2" by simp
  note m = locks_only_keep(1,2) [OF r2(1)]
  have base: "extern_base r2 = extern_base r" using r2(1) by (auto simp: extern_base_def locks_only_def)
  have tab: "table_ok 9 (napt_extern_hashmap r2)" "table_ok 7 (napt_intern_hashmap r2)"
    using r2(1) ok(1) by (auto simp: locks_only_def napt_ok_def)
  have "is_free r2 (flow_key pkt) (ip_dst pkt) (tpt_dst pkt) p" "intern_map r2 (flow_key pkt) = None"
    "p = random_port (rand_seq r2 (rand_pos r2))"
    using free new p r2(3) napt_only_simps(7) [OF r2(2)] by (simp_all add: is_free_def m)
  then obtain r3 where r3: "out_section r2 (OutTry ?f 10) = Inr (r3, OutUnlock ?f (Some p))" "table_ok 9 (napt_extern_hashmap r3)"
      "extern_map r3 = (extern_base r2)(flow_extern_key pkt p \<mapsto>
         new_entry (flow_key pkt) (ip_dst pkt) (tpt_dst pkt) (public_addr r) p)"
    using try_enters [OF tab t] by metis
  define c3 where "c3 = c2\<lparr>shared := r3, lan_thread := OutUnlock ?f (Some p)\<rparr>"
  have s3: "nat_step c2 c3" unfolding c3_def by (rule nat_step.lan_section) (use r3(1) in \<open>simp add: c2_def del: out_section.simps\<close>)
  let ?r' = "unlock_intern (unlock_extern r3)"
  let ?c4 = "c3\<lparr>shared := ?r', lan_thread := OutSend (translate_out (public_addr r) p pkt)\<rparr>"
  have "flow_public ?f = public_addr r" by (simp add: flow_for_def)
  then have "out_section r3 (OutUnlock ?f (Some p)) = Inr (?r', OutSend (translate_out (public_addr r) p pkt))"
    using out_rewrite_ok [OF t flow_for_of [OF t], of ?r' r p] by simp
  then have "nat_step c3 ?c4" by (intro nat_step.lan_section) (simp add: c3_def)
  with s2 s3 have "nat_step\<^sup>*\<^sup>* c ?c4" by (meson rtranclp.rtrancl_into_rtrancl)
  moreover have "?c4 = c\<lparr>shared := ?r', lan_thread := OutSend (translate_out (public_addr r) p pkt), lan_packets := lan_packets c @ [pkt]\<rparr>"
    by (simp add: c3_def c2_def)
  moreover have "extern_ok ?r'" "extern_map ?r' = extern_map r3"
    using r3(2) by (simp_all add: extern_ok_def extern_map_def unlock_intern_def unlock_extern_def)
  ultimately show ?thesis using that r3(3) base by simp
qed

text \<open>The entry of a reply stands in a taken slot, and the lookup leaves the table unlocked.\<close>

lemma inc_lookup_hit:
  assumes t: "translatable pkt" and ok: "extern_ok r" and hit: "extern_map r (reply_key pkt) = Some e"
  obtains j where "inc_lookup r pkt = Inr (r, Some (hlen pkt, slot_ptr (napt_extern_hashmap r) j))"
    and "j < size_allocated (napt_extern_hashmap r)" and "tag_at (napt_extern_hashmap r) j = HASHMAP_TAG_TAKEN"
    and "entry_at (val_at (napt_extern_hashmap r) j) 0 = e"
proof -
  let ?x = "napt_extern_hashmap r"
  let ?h = "?x\<lparr>hm_lock := (hm_lock ?x)\<lparr>held := True\<rparr>\<rparr>"
  have free: "\<not> held (hm_lock ?x)" and tab: "table_ok 9 ?h" using ok by (simp_all add: extern_ok_def)
  have same: "tag_at ?h = tag_at ?x" "val_at ?h = val_at ?x" "key_off ?h = key_off ?x"
    by (auto simp: fun_eq_iff tag_at_def val_at_def key_off_def)
  have "napt_view extern_key_bytes ?h (reply_key pkt) = Some e" using hit by (simp add: extern_map_def)
  from napt_get_slot [OF tab this] obtain j where j: "j < size_allocated ?h" "tag_at ?h j = HASHMAP_TAG_TAKEN" "entry_at (val_at ?h j) 0 = e"
      "hashmap_get ?h (extern_key_bytes (reply_key pkt)) = Inr (hashmap_unlock ?h, Some (key_off ?h j + size_key ?h))"
    by blast
  have restored: "r\<lparr>napt_extern_hashmap := hashmap_unlock ?h\<rparr> = r"
    using free by (simp add: hashmap_unlock_def mutex_unlock_def)
  have "ip_proto pkt = 6 \<or> ip_proto pkt = 17" using t by (auto simp: translatable_def)
  then have "inc_lookup r pkt = Inr (r, Some (hlen pkt, slot_ptr ?x j))"
    using j(4) free
    by (simp add: inc_lookup_def header_reads [OF t] ports_ok [OF t] lock_extern_def hashmap_lock_free
        reply_key_def slot_ptr_def restored same hashmap_unlock_def del: add_2_eq_Suc')
  with j same show ?thesis using that [of j] by simp
qed

text \<open>A reply is taken up and finds its entry.\<close>

lemma reply_taken_up:
  assumes "extern_ok r" and "translatable reply" and "extern_map r (reply_key reply) = Some e"
    and c: "shared c = r" "wan_thread c = IncDone"
  obtains j where "nat_step\<^sup>*\<^sup>* c (c\<lparr>wan_thread := IncRead reply (hlen reply) (slot_ptr (napt_extern_hashmap r) j),
      wan_packets := wan_packets c @ [reply]\<rparr>)"
    and "j < size_allocated (napt_extern_hashmap r)" and "tag_at (napt_extern_hashmap r) j = HASHMAP_TAG_TAKEN"
    and "entry_at (val_at (napt_extern_hashmap r) j) 0 = e"
proof -
  obtain j where j: "inc_lookup r reply = Inr (r, Some (hlen reply, slot_ptr (napt_extern_hashmap r) j))"
      "j < size_allocated (napt_extern_hashmap r)" "tag_at (napt_extern_hashmap r) j = HASHMAP_TAG_TAKEN"
      "entry_at (val_at (napt_extern_hashmap r) j) 0 = e"
    by (rule inc_lookup_hit [OF assms(2,1,3)])
  let ?c1 = "c\<lparr>wan_thread := IncStart reply, wan_packets := wan_packets c @ [reply]\<rparr>"
  let ?t = "IncRead reply (hlen reply) (slot_ptr (napt_extern_hashmap r) j)"
  let ?c2 = "?c1\<lparr>shared := r, wan_thread := ?t\<rparr>"
  have "inc_section r (IncStart reply) = Inr (r, ?t)" using j(1) by simp
  then have "nat_step ?c1 ?c2" by (intro nat_step.wan_section) (use c(1) in simp)
  moreover have "nat_step c ?c1" by (rule nat_step.wan_packet [OF c(2)])
  moreover have "?c2 = c\<lparr>wan_thread := ?t, wan_packets := wan_packets c @ [reply]\<rparr>" using c(1) by simp
  ultimately have "nat_step\<^sup>*\<^sup>* c (c\<lparr>wan_thread := ?t, wan_packets := wan_packets c @ [reply]\<rparr>)"
    by (metis converse_rtranclp_into_rtranclp r_into_rtranclp)
  with j that show ?thesis by blast
qed

text \<open>Its delivery gives up the lock of the table, whoever holds it.\<close>

lemma reply_delivered:
  assumes "table_ok 9 h" and "configured (interface_arr r)" and "devices_inv (macs r)" and "timer_inv r"
    and "translatable reply" and "transport_ok reply" and h: "h = napt_extern_hashmap r"
    and j: "j < size_allocated h" "entry_at (val_at h j) 0 = e"
    and c: "shared c = r" "wan_thread c = IncRead reply (hlen reply) (slot_ptr h j)"
  obtains r3 where "nat_step\<^sup>*\<^sup>* c (c\<lparr>shared := r3, wan_thread := IncDone\<rparr>)" and "timer_only (unlock_extern r) r3"
proof -
  let ?q = "translate_in (lan_ip e) (lan_port e) reply"
  let ?c1 = "c\<lparr>shared := unlock_extern r, wan_thread := IncSend ?q\<rparr>"
  have "wf_pkt ?q" "transport_ok ?q" using translate_in_fields(8,9) [OF assms(5)] assms(6) by simp_all
  moreover have "configured (interface_arr (unlock_extern r))" "devices_inv (macs (unlock_extern r))" "timer_inv (unlock_extern r)"
    using assms(2-4) by (simp_all add: unlock_extern_def timer_inv_def)
  ultimately obtain r3 q where r3: "send_ipv4 (unlock_extern r) ?q = Inr (r3, q)" "timer_only (unlock_extern r) r3"
    using send_ipv4_effect by blast
  have "nat_step c ?c1"
    by (rule nat_step.wan_section) (use inc_read_slot [OF assms(5) h assms(1) j] c in simp)
  moreover have "inc_section (unlock_extern r) (IncSend ?q) = Inr (r3, IncDone)" using r3(1) by simp
  then have "nat_step ?c1 (?c1\<lparr>shared := r3, wan_thread := IncDone\<rparr>)" by (intro nat_step.wan_section) simp
  moreover have "?c1\<lparr>shared := r3, wan_thread := IncDone\<rparr> = c\<lparr>shared := r3, wan_thread := IncDone\<rparr>" by simp
  ultimately have "nat_step\<^sup>*\<^sup>* c (c\<lparr>shared := r3, wan_thread := IncDone\<rparr>)"
    by (metis converse_rtranclp_into_rtranclp r_into_rtranclp)
  with r3(2) that show ?thesis by blast
qed

text \<open>An insertion between lookup and reading: without room, the entry is gone.\<close>

lemma read_after_insert:
  assumes "translatable reply" and h': "h' = napt_extern_hashmap r" "table_ok 9 h'" and "moves h h'"
    and j: "j < size_allocated h" "tag_at h j = HASHMAP_TAG_TAKEN" "entry_at (val_at h j) 0 = e"
  shows "inc_section r (IncRead reply (hlen reply) (slot_ptr h j)) =
    (if free_slots 1 h then Inr (unlock_extern r, IncSend (translate_in (lan_ip e) (lan_port e) reply))
     else Inl OutOfBounds)"
proof (cases "free_slots 1 h")
  case True
  then have "in_place h h'" using assms(4) by (simp add: moves_def)
  then have "slot_ptr h j = slot_ptr h' j" "j < size_allocated h'" "entry_at (val_at h' j) 0 = e"
    using j by (auto simp: in_place_def same_shape_def slot_ptr_def key_off_def)
  with inc_read_slot [OF assms(1) h' this(2,3)] True show ?thesis by simp
next
  case False
  then have "size_allocated h' = 2 * size_allocated h + 1" using assms(4) by (simp add: moves_def)
  with False show ?thesis by (simp add: entry_ref_def slot_ptr_def flip: h'(1))
qed

text \<open>
  A reply is looked up, a new flow locks the tables, the reply is delivered, and a second one
  gets in while the first attempt to enter the flow is still to come.
\<close>

lemma both_inside:
  assumes "router_ok r" and "translatable pkt" and "intern_map r (flow_key pkt) = None"
    and "translatable reply" and "transport_ok reply" and "extern_map r (reply_key reply) = Some e"
  obtains b c k where "nat_step\<^sup>*\<^sup>* (idle_threads r) b" and "lan_thread b = OutTry (flow_for r pkt) 10"
    and "inc_section (shared b) (IncStart reply) = Inl Blocked"
    and "nat_step\<^sup>*\<^sup>* b c" and "lan_thread c = OutTry (flow_for r pkt) 10"
    and "wan_thread c = IncRead reply (hlen reply) (slot_ptr (napt_extern_hashmap (shared c)) k)"
    and "locks_only r (shared c)" and "rand_seq (shared c) = rand_seq r" and "rand_pos (shared c) = rand_pos r"
    and "k < size_allocated (napt_extern_hashmap (shared c))"
    and "tag_at (napt_extern_hashmap (shared c)) k = HASHMAP_TAG_TAKEN"
    and "entry_at (val_at (napt_extern_hashmap (shared c)) k) 0 = e"
proof -
  note okD = router_okD [OF assms(1)]
  let ?h = "napt_extern_hashmap r"
  let ?i = "idle_threads r"
  have i: "shared ?i = r" "wan_thread ?i = IncDone" "lan_thread ?i = OutDone" by (simp_all add: idle_threads_def)
  obtain j where "nat_step\<^sup>*\<^sup>* ?i (?i\<lparr>wan_thread := IncRead reply (hlen reply) (slot_ptr ?h j),
      wan_packets := wan_packets ?i @ [reply]\<rparr>)" and j: "j < size_allocated ?h" "entry_at (val_at ?h j) 0 = e"
    by (rule reply_taken_up [OF extern_ok_napt [OF okD(4)] assms(4,6) i(1,2)])
  then obtain a where a: "nat_step\<^sup>*\<^sup>* ?i a" "shared a = r" "lan_thread a = OutDone"
      "wan_thread a = IncRead reply (hlen reply) (slot_ptr ?h j)" using i by simp
  let ?f = "flow_for r pkt"
  obtain r2 where r2: "nat_step\<^sup>*\<^sup>* a (a\<lparr>shared := r2, lan_thread := OutTry ?f 10, lan_packets := lan_packets a @ [pkt]\<rparr>)"
      "locks_only r r2" "napt_only r r2" "rand_pos r2 = rand_pos r" "held (hm_lock (napt_extern_hashmap r2))"
    by (rule flow_taken_up [OF okD(4,1) assms(2,3) a(2,3)])
  define b where "b = a\<lparr>shared := r2, lan_thread := OutTry ?f 10, lan_packets := lan_packets a @ [pkt]\<rparr>"
  have b: "nat_step\<^sup>*\<^sup>* ?i b" "shared b = r2" "lan_thread b = OutTry ?f 10"
    using a(1) r2(1) by (simp_all add: b_def)
  let ?h2 = "napt_extern_hashmap r2"
  obtain l where h2: "?h2 = ?h\<lparr>hm_lock := l\<rparr>" using r2(2) by (auto simp: locks_only_def)
  have slot: "slot_ptr ?h2 = slot_ptr ?h" "j < size_allocated ?h2" "entry_at (val_at ?h2 j) 0 = e" "table_ok 9 ?h2"
    using j okD(4) by (auto simp: h2 slot_ptr_def key_off_def val_at_def fun_eq_iff napt_ok_def)
  have wait: "inc_section (shared b) (IncStart reply) = Inl Blocked"
    using assms(4) r2(5)
    by (auto simp: b(2) inc_lookup_def header_reads [OF assms(4)] ports_ok [OF assms(4)] translatable_def Let_def
        lock_extern_def hashmap_lock_def mutex_lock_held simp del: add_2_eq_Suc')
  have "configured (interface_arr r2)" "devices_inv (macs r2)" "timer_inv r2"
    using okD napt_only_simps [OF r2(3)] by (simp_all add: timer_inv_def)
  moreover have "wan_thread b = IncRead reply (hlen reply) (slot_ptr ?h2 j)" by (simp add: b_def a(4) slot(1))
  ultimately obtain r3 where r3: "nat_step\<^sup>*\<^sup>* b (b\<lparr>shared := r3, wan_thread := IncDone\<rparr>)" "timer_only (unlock_extern r2) r3"
    using reply_delivered [OF slot(4) _ _ _ assms(4,5) refl slot(2,3) b(2)] by blast
  let ?h3 = "napt_extern_hashmap r3"
  have l3: "locks_only r r3"
    using r2(2) timer_only_simps(1,5,6) [OF r3(2)]
    by (blast intro: locks_only_trans locks_only_unlock locks_only_same [unfolded same_tables_def])
  have h3: "?h3 = hashmap_unlock ?h2" using timer_only_simps(5) [OF r3(2)] by (simp add: unlock_extern_def)
  have rand: "rand_seq r3 = rand_seq r" "rand_pos r3 = rand_pos r"
    using timer_only_simps(7,8) [OF r3(2)] napt_only_simps(7) [OF r2(3)] r2(4) by (simp_all add: unlock_extern_def)
  note m3 = locks_only_keep(1,2) [OF l3]
  have tab: "table_ok 9 ?h3" "table_ok 7 (napt_intern_hashmap r3)"
    using l3 okD(4) by (auto simp: locks_only_def napt_ok_def)
  have "extern_ok r3" using tab(1) by (simp add: extern_ok_def h3)
  moreover have "extern_map r3 (reply_key reply) = Some e" using assms(6) m3 by simp
  moreover define b' where "b' = b\<lparr>shared := r3, wan_thread := IncDone\<rparr>"
  ultimately obtain k where k0: "nat_step\<^sup>*\<^sup>* b' (b'\<lparr>wan_thread := IncRead reply (hlen reply) (slot_ptr ?h3 k),
      wan_packets := wan_packets b' @ [reply]\<rparr>)" and k: "k < size_allocated ?h3" "tag_at ?h3 k = HASHMAP_TAG_TAKEN" "entry_at (val_at ?h3 k) 0 = e"
    using reply_taken_up [OF _ assms(4), of r3 e b'] by auto
  define c where "c = b'\<lparr>wan_thread := IncRead reply (hlen reply) (slot_ptr ?h3 k), wan_packets := wan_packets b' @ [reply]\<rparr>"
  have "nat_step\<^sup>*\<^sup>* b b'" using r3(1) by (simp add: b'_def)
  then have c: "nat_step\<^sup>*\<^sup>* b c" "shared c = r3" "lan_thread c = OutTry ?f 10"
      "wan_thread c = IncRead reply (hlen reply) (slot_ptr ?h3 k)"
    using k0 b(3) by (simp_all add: c_def b'_def)
  show ?thesis
    using that [OF b(1,3) wait c(1,3)] c(2,4) l3 rand k by simp
qed

section \<open>Properties\<close>



text \<open>
  C24: a reply breaks the mutual exclusion of the tables.  While the LAN thread enters a new
  flow, the extern table is locked and an incoming packet has to wait.  But the delivery of a
  reply looked up before unlocks the table a second time: now a further reply gets in, and
  both threads are in their critical sections.  If the insertion of the flow then has to grow
  the table, the WAN thread reads freed memory.
\<close>

theorem reply_breaks_exclusion:
  assumes "router_ok r" and "translatable pkt" and "intern_map r (flow_key pkt) = None"
    and "is_free r (flow_key pkt) (ip_dst pkt) (tpt_dst pkt) (random_port (rand_seq r (rand_pos r)))"
    and "translatable reply" and "transport_ok reply" and "extern_map r (reply_key reply) = Some e"
  shows "\<exists>b c d f port ptr.
    nat_step\<^sup>*\<^sup>* (idle_threads r) b \<and> lan_thread b = OutTry f 10 \<and>
    inc_section (shared b) (IncStart reply) = Inl Blocked \<and>
    nat_step\<^sup>*\<^sup>* b c \<and> lan_thread c = OutTry f 10 \<and> wan_thread c = IncRead reply (hlen reply) ptr \<and>
    nat_step c d \<and> lan_thread d = OutUnlock f (Some port) \<and> wan_thread d = wan_thread c \<and>
    inc_section (shared d) (wan_thread d) =
      (if free_slots 1 (napt_extern_hashmap r)
       then Inr (unlock_extern (shared d), IncSend (translate_in (lan_ip e) (lan_port e) reply))
       else Inl OutOfBounds)"
proof -
  obtain b c k where b: "nat_step\<^sup>*\<^sup>* (idle_threads r) b" "lan_thread b = OutTry (flow_for r pkt) 10"
      "inc_section (shared b) (IncStart reply) = Inl Blocked"
    and c: "nat_step\<^sup>*\<^sup>* b c" "lan_thread c = OutTry (flow_for r pkt) 10"
      "wan_thread c = IncRead reply (hlen reply) (slot_ptr (napt_extern_hashmap (shared c)) k)"
    and r3: "locks_only r (shared c)" "rand_seq (shared c) = rand_seq r" "rand_pos (shared c) = rand_pos r"
    and k: "k < size_allocated (napt_extern_hashmap (shared c))"
      "tag_at (napt_extern_hashmap (shared c)) k = HASHMAP_TAG_TAKEN"
      "entry_at (val_at (napt_extern_hashmap (shared c)) k) 0 = e"
    by (rule both_inside [OF assms(1-3,5-7)])
  let ?f = "flow_for r pkt"
  let ?r3 = "shared c"
  let ?h3 = "napt_extern_hashmap ?r3"
  note m3 = locks_only_keep(1,2) [OF r3(1)]
  have tab: "table_ok 9 ?h3" "table_ok 7 (napt_intern_hashmap ?r3)"
    using r3(1) router_okD(4) [OF assms(1)] by (auto simp: locks_only_def napt_ok_def)
  let ?p = "random_port (rand_seq r (rand_pos r))"
  have "is_free ?r3 (flow_key pkt) (ip_dst pkt) (tpt_dst pkt) ?p" using assms(4) by (simp add: is_free_def m3)
  moreover have "intern_map ?r3 (flow_key pkt) = None" using assms(3) by (simp add: m3)
  ultimately obtain r4 where r4: "out_section ?r3 (OutTry ?f 10) = Inr (r4, OutUnlock ?f (Some ?p))"
      "table_ok 9 (napt_extern_hashmap r4)" "moves ?h3 (napt_extern_hashmap r4)"
    using try_enters [OF tab assms(2), of ?p r 10] r3(2,3) by metis
  define d where "d = c\<lparr>shared := r4, lan_thread := OutUnlock ?f (Some ?p)\<rparr>"
  have "out_section (shared c) (lan_thread c) = Inr (r4, OutUnlock ?f (Some ?p))" by (simp only: r4(1) c(2))
  then have step: "nat_step c d" unfolding d_def by (rule nat_step.lan_section)
  have read: "inc_section (shared d) (wan_thread d) =
      (if free_slots 1 (napt_extern_hashmap r) then Inr (unlock_extern (shared d), IncSend (translate_in (lan_ip e) (lan_port e) reply))
       else Inl OutOfBounds)"
    using read_after_insert [OF assms(5) refl r4(2,3) k]
    using r3(1) by (auto simp: d_def c(3) locks_only_def simp del: inc_section.simps)
  have "lan_thread d = OutUnlock ?f (Some ?p)" "wan_thread d = wan_thread c" by (simp_all add: d_def)
  note facts = b c step this read
  show ?thesis
    using facts by (intro exI conjI)
qed

theorem reply_breaks_exclusion_witness:
  "\<exists>he b c d ptr. put_all (napt_put extern_key_bytes) five_flows (napt_extern_hashmap fresh_router) = Inr he \<and>
     nat_step\<^sup>*\<^sup>* (idle_threads (fresh_router\<lparr>napt_extern_hashmap := he\<rparr>)) b \<and>
     inc_section (shared b) (IncStart (udp_packet (IpAddr 8 8 8 8) 1 (IpAddr 192 168 0 2) 1024)) = Inl Blocked \<and>
     nat_step\<^sup>*\<^sup>* b c \<and> wan_thread c = IncRead (udp_packet (IpAddr 8 8 8 8) 1 (IpAddr 192 168 0 2) 1024) 20 ptr \<and>
     nat_step c d \<and> inc_section (shared d) (wan_thread d) = Inl OutOfBounds"
proof -
  let ?reply = "udp_packet (IpAddr 8 8 8 8) 1 (IpAddr 192 168 0 2) 1024"
  obtain he where he: "put_all (napt_put extern_key_bytes) five_flows (napt_extern_hashmap fresh_router) = Inr he"
      "router_ok (fresh_router\<lparr>napt_extern_hashmap := he\<rparr>)"
      "extern_map (fresh_router\<lparr>napt_extern_hashmap := he\<rparr>) = map_of five_flows"
      "chosen_port (fresh_router\<lparr>napt_extern_hashmap := he\<rparr>) (dns_query 6) = Some 1024"
      "intern_map (fresh_router\<lparr>napt_extern_hashmap := he\<rparr>) (flow_key (dns_query 6)) = None" "\<not> free_slots 1 he"
    by (rule five_flows_filled)
  let ?r = "fresh_router\<lparr>napt_extern_hashmap := he\<rparr>"
  have zero: "rand_seq ?r = (\<lambda>_. 0)" using fresh_router_ok(5) by simp
  then have "random_port (rand_seq ?r (rand_pos ?r)) = 1024" by (simp add: random_port_def)
  moreover have "extern_map ?r (flow_extern_key (dns_query 6) 1024) = None"
    using zero_rand_port [OF zero, of "dns_query 6"] he(4) by (simp split: if_splits)
  ultimately have free: "is_free ?r (flow_key (dns_query 6)) (ip_dst (dns_query 6)) (tpt_dst (dns_query 6))
      (random_port (rand_seq ?r (rand_pos ?r)))" by (simp add: is_free_def flow_extern_key_def)
  have "map_of five_flows (reply_key ?reply) = Some (flow_entry fresh_router (dns_query 1) 1024)"
    by (simp add: five_flows_def dns_query_def udp_packet_keys)
  then have "extern_map ?r (reply_key ?reply) = Some (flow_entry fresh_router (dns_query 1) 1024)" by (simp add: he(3))
  moreover have "translatable (dns_query 6)" by (simp add: dns_query_def udp_packet_ok)
  ultimately show ?thesis
    using reply_breaks_exclusion [OF he(2) _ he(5) free udp_packet_ok] he(1,6) udp_packet_hlen by fastforce
qed

end
