(* ===== verification/Threads.thy ===== *)
theory Threads
  imports Clean_Runs "HOL-Library.Multiset"
begin

text \<open>
  Threads: sending, ARP and expiry again, cut at the locks they take.  The receiving threads
  and the timer thread run at the same time, and between two critical sections of one thread
  any other may run.  A thread is the list of the sections it has still to run; a step of the
  system lets one thread run its next section.  What a thread does outside of the locks
  (checksums, copies, reading the configuration) touches its own memory only, so it is part of
  the section before or after.
\<close>

section \<open>Critical sections\<close>

text \<open>
  \<open>Checking\<close> to \<open>Unresolved\<close> are \<open>send_ipv4\<close> of \<open>src/outgoing.c\<close>: up to
  \<open>has_mac_for_ip\<close>, then \<open>get_mac_from_ip\<close> and the write, or \<open>timer_add_packet\<close>.
  \<open>Learning\<close> and \<open>Releasing\<close> are \<open>arp_handle\<close> of \<open>src/arp.c\<close>: \<open>update_ip_mac_pair\<close>,
  then the locked part of \<open>timer_update_packets\<close>, which leaves the packets to send.
  \<open>Expiring\<close> is the signal of the timer, if it is still running.
\<close>

datatype task =
    Checking buf
  | Resolved buf nat ip_addr
  | Unresolved buf nat ip_addr
  | Learning ip_addr mac_addr
  | Releasing ip_addr
  | Expiring

definition check_next_hop :: "router \<Rightarrow> buf \<Rightarrow> (router \<times> task list) res" where [simp]:
  "check_next_hop r pkt =
     ebind (rd_ip pkt 16) (\<lambda>dst_ip.
     ebind (get_interface_for_ip (interface_arr r) dst_ip) (\<lambda>int_id.
     ebind (fill_checksums pkt) (\<lambda>pkt1.
     ebind (local_dst r int_id dst_ip) (\<lambda>hop.
     ebind (has_mac_for_ip (macs r) hop) (\<lambda>(d, known).
       Inr (r\<lparr>macs := d\<rparr>, [if known then Resolved pkt1 int_id hop else Unresolved pkt1 int_id hop]))))))"

definition send_resolved :: "router \<Rightarrow> buf \<Rightarrow> nat \<Rightarrow> ip_addr \<Rightarrow> (router \<times> task list) res" where [simp]:
  "send_resolved r pkt int_id hop =
     ebind (interface_get_mac_addr (interface_arr r) int_id) (\<lambda>src_mac.
     ebind (get_mac_from_ip (macs r) hop) (\<lambda>(d, dst_mac).
     let r1 = r\<lparr>macs := d\<rparr> in
     ebind (interface_get_type (interface_arr r1) int_id) (\<lambda>t.
       if t = INT_TYPE_ETHER then
         ebind (rd16 pkt 2) (\<lambda>total_length.
         ebind (rd_bytes pkt 0 (unat (ntohs total_length))) (\<lambda>payload.
           Inr (write_frame r1 int_id (ether_frame dst_mac src_mac 0x0800 payload), [])))
       else Inr (r1, []))))"

definition queue_unresolved :: "router \<Rightarrow> buf \<Rightarrow> nat \<Rightarrow> ip_addr \<Rightarrow> (router \<times> task list) res" where [simp]:
  "queue_unresolved r pkt int_id hop =
     ebind (rd16 pkt 2) (\<lambda>total_length.
     ebind (rd_bytes pkt 0 (unat (ntohs total_length))) (\<lambda>new_pkt.
     ebind (timer_add_packet r new_pkt int_id hop) (\<lambda>r1. Inr (r1, []))))"

definition release_waiting :: "router \<Rightarrow> ip_addr \<Rightarrow> (router \<times> task list) res" where [simp]:
  "release_waiting r ip =
     ebind (lock_timer r) (\<lambda>r1.
       case unlink_node (delta_list r1) ip of
         None \<Rightarrow> Inr (unlock_timer r1, [])
       | Some (n, ns) \<Rightarrow>
           Inr (unlock_timer (r1\<lparr>delta_list := ns, timer_left := unlink_timer r1 ip\<rparr>),
                map Checking (pkt_list n)))"

fun run_section :: "router \<Rightarrow> task \<Rightarrow> (router \<times> task list) res" where
  "run_section r (Checking pkt) = check_next_hop r pkt"
| "run_section r (Resolved pkt int_id hop) = send_resolved r pkt int_id hop"
| "run_section r (Unresolved pkt int_id hop) = queue_unresolved r pkt int_id hop"
| "run_section r (Learning ip mac) = ebind (learn r ip mac) (\<lambda>r1. Inr (r1, [Releasing ip]))"
| "run_section r (Releasing ip) = release_waiting r ip"
| "run_section r Expiring =
     (if timer_left r = (0, 0) then Inr (r, [])
      else ebind (timer_handler (r\<lparr>timer_left := (0, 0)\<rparr>)) (\<lambda>r1. Inr (r1, [])))"

text \<open>The sections one after the other are the functions they were cut from.\<close>

lemma send_ipv4_sections:
  "ebind (send_ipv4 r pkt) (\<lambda>(r2, _). Inr r2) =
     ebind (run_section r (Checking pkt)) (\<lambda>(r1, ts). ebind (run_section r1 (hd ts)) (\<lambda>(r2, _). Inr r2))"
  by (auto simp: send_ipv4_def ebind_assoc split_beta Let_def intro!: ebind_cong)

fun task_packets :: "task \<Rightarrow> buf list" where
  "task_packets (Checking pkt) = [pkt]"
| "task_packets (Resolved pkt _ _) = [pkt]"
| "task_packets (Unresolved pkt _ _) = [pkt]"
| "task_packets _ = []"

lemma timer_update_packets_sections:
  "timer_update_packets r ip =
     ebind (run_section r (Releasing ip)) (\<lambda>(r1, ts). send_packets (concat (map task_packets ts)) r1)"
proof -
  have "concat (map task_packets (map Checking ps)) = ps" for ps by (induction ps) simp_all
  then show ?thesis
    by (auto simp: timer_update_packets_def ebind_assoc intro!: ebind_cong split: option.split)
qed

section \<open>Threads and their steps\<close>

type_synonym pool = "router \<times> task list list"

inductive pool_step :: "pool \<Rightarrow> pool \<Rightarrow> bool" where
  run: "i < length ths \<Longrightarrow> ths ! i = t # ts \<Longrightarrow> run_section r t = Inr (r', new) \<Longrightarrow>
    pool_step (r, ths) (r', ths[i := new @ ts])"

inductive_cases pool_stepE: "pool_step (r, ths) q"

definition finished :: "pool \<Rightarrow> bool" where
  "finished q \<longleftrightarrow> (\<forall>ts \<in> set (snd q). ts = [])"

section \<open>Every run ends\<close>

text \<open>
  A released packet may have to be checked again, but each release uses up a section of its
  own, so releases count before packets.
\<close>

fun release_work :: "task \<Rightarrow> nat" where
  "release_work (Learning _ _) = 2"
| "release_work (Releasing _) = 1"
| "release_work _ = 0"

fun packet_work :: "task \<Rightarrow> nat" where
  "packet_work (Checking _) = 2"
| "packet_work (Resolved _ _ _) = 1"
| "packet_work (Unresolved _ _ _) = 1"
| "packet_work Expiring = 1"
| "packet_work _ = 0"

definition total_work :: "(task \<Rightarrow> nat) \<Rightarrow> pool \<Rightarrow> nat" where
  "total_work f q = sum_list (map f (concat (snd q)))"

lemma section_work:
  assumes "run_section r t = Inr (r', new)"
  shows "sum_list (map release_work new) < release_work t \<or>
    sum_list (map release_work new) = release_work t \<and> sum_list (map packet_work new) < packet_work t"
proof -
  have zero: "sum_list (map (release_work \<circ> Checking) ps) = 0" for ps by (induction ps) simp_all
  show ?thesis
    using assms
    by (cases t) (auto simp: ebind_Inr_iff Let_def zero split: if_splits option.splits)
qed

lemma sum_list_concat_update:
  fixes f :: "task \<Rightarrow> nat"
  assumes "i < length ths"
  shows "sum_list (map f (concat (ths[i := xs]))) + sum_list (map f (ths ! i)) =
    sum_list (map f (concat ths)) + sum_list (map f xs)"
  using assms
proof (induction ths arbitrary: i)
  case Nil
  then show ?case by simp
next
  case (Cons th ths)
  then show ?case by (cases i) (simp_all add: algebra_simps)
qed

lemma pool_step_work:
  assumes "pool_step p q"
  shows "total_work release_work q < total_work release_work p \<or>
    total_work release_work q = total_work release_work p \<and> total_work packet_work q < total_work packet_work p"
  using assms
proof (cases rule: pool_step.cases)
  case (run i ths t ts r r' new)
  have "total_work f q + f t = total_work f p + sum_list (map f new)" for f
    using sum_list_concat_update [OF run(3), of f "new @ ts"] run(4) by (simp add: run(1,2) total_work_def)
  from this [of release_work] this [of packet_work] section_work [OF run(5)] show ?thesis by linarith
qed

lemma pool_step_wf: "wfP (\<lambda>q p. pool_step p q)"
proof -
  have "{(q, p). pool_step p q} \<subseteq> measures [total_work release_work, total_work packet_work]"
    using pool_step_work by auto
  then show ?thesis unfolding wfp_def by (rule wf_subset [OF wf_measures])
qed

end
