(* ===== verification/Threads_Safety.thy ===== *)
theory Threads_Safety
  imports Threads
begin

text \<open>
  What holds whatever way the threads interleave: their shared state stays well formed, no
  section faults or finds its lock taken for ever, and no packet gets lost except by the
  expiry that gives up on it.  And what does not: a packet can end up in the queue of a next
  hop whose address has just been learned.
\<close>

section \<open>Accounting for packets\<close>

text \<open>What identifies a packet while its checksums are rewritten and it is copied.\<close>

definition label :: "buf \<Rightarrow> ip_addr \<times> ip_addr \<times> u8 \<times> nat" where
  "label p = (ip_src p, ip_dst p, ip_proto p, total_len p)"

definition labels :: "buf list \<Rightarrow> (ip_addr \<times> ip_addr \<times> u8 \<times> nat) multiset" where
  "labels ps = image_mset label (mset ps)"

definition queued :: "delta_node list \<Rightarrow> buf list" where
  "queued ns = concat (map pkt_list ns)"

definition delivered :: "(nat \<times> buf) list \<Rightarrow> buf list" where
  "delivered fs = map (\<lambda>(_, f). drop 14 f) (filter (\<lambda>(_, f). frame_type f = ETHERTYPE_IPV4) fs)"

definition shared_labels :: "router \<Rightarrow> (ip_addr \<times> ip_addr \<times> u8 \<times> nat) multiset" where
  "shared_labels r = labels (queued (delta_list r)) + labels (delivered (sent r))"

definition pool_labels :: "pool \<Rightarrow> (ip_addr \<times> ip_addr \<times> u8 \<times> nat) multiset" where
  "pool_labels q = labels (concat (map task_packets (concat (snd q)))) + shared_labels (fst q)"

lemma labels_simps [simp]:
  "labels [] = {#}" "labels (p # ps) = add_mset (label p) (labels ps)"
  "labels (ps @ qs) = labels ps + labels qs"
  by (simp_all add: labels_def)

lemma queued_simps [simp]:
  "queued [] = []" "queued (n # ns) = pkt_list n @ queued ns" "queued (ns @ ms) = queued ns @ queued ms"
  by (simp_all add: queued_def)

lemma frame_type_ether [simp]: "frame_type (ether_frame a b t p) = t"
  by (cases a; cases b) (simp add: frame_type_def ether_frame_def numeral_eq_Suc)

lemma drop_ether [simp]: "drop 14 (ether_frame a b t p) = p"
  by (cases a; cases b) (simp add: ether_frame_def)

lemma delivered_simps [simp]:
  "delivered [] = []" "delivered (fs @ gs) = delivered fs @ delivered gs"
  "delivered ((i, ether_frame a b 0x0800 p) # fs) = p # delivered fs"
  "delivered ((i, request_frame r j ip) # fs) = delivered fs"
  by (simp_all add: delivered_def request_frame_def ETHERTYPE_IPV4_def)

lemma delivered_retries [simp]: "delivered (retry_frames r ns) = []"
  by (induction ns) (simp_all add: retry_frames_def)

lemma labels_concat_update:
  assumes "i < length ths"
  shows "labels (concat (map task_packets (concat (ths[i := xs])))) + labels (concat (map task_packets (ths ! i))) =
    labels (concat (map task_packets (concat ths))) + labels (concat (map task_packets xs))"
  using assms
proof (induction ths arbitrary: i)
  case Nil
  then show ?case by simp
next
  case (Cons th ths)
  then show ?case by (cases i) (simp_all add: algebra_simps)
qed

lemma label_take: "wf_pkt p \<Longrightarrow> label (take (total_len p) p) = label p"
  using take_fields [of p] by (auto simp: label_def wf_pkt_def ip_src_def ip_at_def)

lemma label_with_checksums:
  "wf_pkt p \<Longrightarrow> transport_ok p \<Longrightarrow> label (with_checksums p) = label p"
  using same_header_fields [OF with_checksums_spec(2)] by (simp add: label_def)

text \<open>The queue under the operations on the list.\<close>

lemma queued_enqueue:
  "enqueue_existing ns dst pkt t = Inr (Some ns', t') \<Longrightarrow>
   labels (queued ns') = add_mset (label pkt) (labels (queued ns))"
  by (induction ns arbitrary: t t' ns') (auto simp: Let_def ebind_Inr_iff split: if_splits)

lemma queued_unlink:
  "unlink_node ns dst = Some (n, ns') \<Longrightarrow> labels (queued ns) = labels (pkt_list n) + labels (queued ns')"
  by (induction ns arbitrary: ns') (auto split: if_splits list.splits)

lemma queued_requeued: "queued (requeued d ns) = queued ns"
  by (induction d ns rule: requeued.induct) simp_all

lemma queued_filter: "labels (queued (filter P ns)) \<subseteq># labels (queued ns)"
  by (induction ns) (auto intro: subset_mset.add_mono simp: subset_mset.add_increasing)

lemma queued_after_expiry: "labels (queued (after_expiry (head_expired ns))) \<subseteq># labels (queued ns)"
proof -
  let ?h = "head_expired ns"
  have "queued ?h = queued ns" by (cases ns) (simp_all add: head_expired_def)
  moreover have "labels (queued ?h) = labels (queued (unexpired ?h)) + labels (queued (expired ?h))"
    using arg_cong [OF expired_unexpired [of ?h], of "\<lambda>ms. labels (queued ms)"] by (simp add: add.commute)
  ultimately show ?thesis
    using queued_filter [of "\<lambda>n. retry_amt n = 0" "expired ?h"]
    by (simp add: after_expiry_def queued_requeued to_retry_def)
qed

lemma queued_add_packet:
  assumes "timer_add_packet r pkt int_id dst = Inr r'"
  shows "labels (queued (delta_list r')) = add_mset (label pkt) (labels (queued (delta_list r)))"
proof -
  have "delta_list (unlock_timer q) = delta_list q" for q by (simp add: unlock_timer_def)
  with assms show ?thesis
    by (auto simp: timer_add_packet_def lock_timer_def ebind_Inr_iff Let_def queued_enqueue
        split: option.splits if_splits dest!: send_arp_delta)
qed

section \<open>What holds between sections\<close>

definition steady :: "router \<Rightarrow> bool" where
  "steady r \<longleftrightarrow> configured (interface_arr r) \<and> devices_inv (macs r) \<and> delta_ok (delta_list r) \<and>
     \<not> held (timer_mutex r) \<and> queue_ready r"

definition known :: "router \<Rightarrow> ip_addr set" where
  "known r = dom (device_map (macs r))"

text \<open>What a section may rely on when its turn comes.\<close>

fun task_ok :: "router \<Rightarrow> task \<Rightarrow> bool" where
  "task_ok r (Checking p) \<longleftrightarrow> wf_pkt p \<and> transport_ok p \<and> (sealed p \<or> next_hop (wan r) (ip_dst p) \<in> known r)"
| "task_ok r (Resolved q i hop) \<longleftrightarrow> wf_pkt q \<and> i = lan_or_wan (ip_dst q) \<and> hop \<in> known r"
| "task_ok r (Unresolved q i hop) \<longleftrightarrow> wf_pkt q \<and> i < 2 \<and> ready_for (wan r) hop (take (total_len q) q)"
| "task_ok r (Learning ip mac) \<longleftrightarrow> True"
| "task_ok r (Releasing ip) \<longleftrightarrow> ip \<in> known r"
| "task_ok r Expiring \<longleftrightarrow> True"

lemma steadyD:
  assumes "steady r"
  shows "configured (interface_arr r)" "devices_inv (macs r)" "delta_ok (delta_list r)"
    "\<not> held (timer_mutex r)" "queue_ready r"
  using assms by (simp_all add: steady_def)

text \<open>What one section does, for the threads it interleaves with and for the packets.\<close>

definition sound_step :: "router \<Rightarrow> task \<Rightarrow> router \<Rightarrow> task list \<Rightarrow> bool" where
  "sound_step r t r' new \<longleftrightarrow> steady r' \<and> wan r' = wan r \<and> known r \<subseteq> known r' \<and>
     (\<forall>u \<in> set new. task_ok r' u \<and> u \<noteq> Expiring) \<and>
     labels (concat (map task_packets new)) + shared_labels r' \<subseteq># labels (task_packets t) + shared_labels r \<and>
     (t \<noteq> Expiring \<longrightarrow>
        labels (concat (map task_packets new)) + shared_labels r' = labels (task_packets t) + shared_labels r)"

lemma task_ok_mono: "task_ok r t \<Longrightarrow> wan r' = wan r \<Longrightarrow> known r \<subseteq> known r' \<Longrightarrow> task_ok r' t"
  by (cases t) auto

section \<open>Section by section\<close>

lemma section_checking:
  assumes "steady r" and "task_ok r (Checking p)"
  defines "hop \<equiv> next_hop (wan r) (ip_dst p)"
  shows "run_section r (Checking p) =
    Inr (r, [if hop \<in> known r then Resolved (with_checksums p) (lan_or_wan (ip_dst p)) hop
             else Unresolved (with_checksums p) (lan_or_wan (ip_dst p)) hop])"
proof -
  have ok: "wf_pkt p" "transport_ok p" using assms(2) by simp_all
  have "rd_ip p 16 = Inr (ip_dst p)" using wf_pkt_length [OF ok(1)] by (simp add: rd_ip_ok ip_dst_def)
  moreover have "get_interface_for_ip (interface_arr r) (ip_dst p) = Inr (lan_or_wan (ip_dst p))"
    using steadyD(1) [OF assms(1)] by (simp add: get_interface_for_ip_configured lan_or_wan_def)
  ultimately show ?thesis
    using with_checksums_spec(1) [OF ok] steadyD(2) [OF assms(1)] steadyD(1) [OF assms(1)]
    by (simp add: local_dst_spec has_mac_for_ip_spec hop_def known_def domIff)
qed

lemma checking_sound:
  assumes "steady r" and "task_ok r (Checking p)"
  shows "\<exists>r' new. run_section r (Checking p) = Inr (r', new) \<and> sound_step r (Checking p) r' new"
proof -
  let ?q = "with_checksums p" and ?hop = "next_hop (wan r) (ip_dst p)"
  have ok: "wf_pkt p" "transport_ok p" using assms(2) by simp_all
  note f = same_header_fields [OF with_checksums_spec(2) [OF ok]]
  have "ready_for (wan r) ?hop (take (total_len ?q) ?q)" if "?hop \<notin> known r"
    using ready_copy [of p "wan r"] assms(2) that f by simp
  then show ?thesis
    using assms(1) f ok lan_or_wan_less
    by (simp add: section_checking [OF assms] sound_step_def label_with_checksums del: run_section.simps)
qed

lemma section_resolved:
  assumes "steady r" and "wf_pkt q" and "device_map (macs r) hop = Some mac"
  shows "run_section r (Resolved q (lan_or_wan (ip_dst q)) hop) =
    Inr (write_frame r (lan_or_wan (ip_dst q)) (ipv4_frame r mac q), [])"
proof -
  have tl: "ebind (rd16 q 2) g = g (le16 (q ! 2) (q ! 3))" for g :: "u16 \<Rightarrow> (router \<times> task list) res"
    using wf_pkt_length [OF assms(2)] by (simp add: rd16_ok eval_nat_numeral)
  have tl': "unat (ntohs (le16 (q ! 2) (q ! 3))) = total_len q" by (simp add: total_len_def)
  have "total_len q \<le> length q" using assms(2) by (simp add: wf_pkt_def)
  then have payload: "rd_bytes q 0 (total_len q) = Inr (take (total_len q) q)" by (simp add: rd_bytes_ok)
  show ?thesis
    using steadyD(1,2) [OF assms(1)] assms(3) lan_or_wan_less [of "ip_dst q"]
    by (simp add: Let_def get_mac_from_ip_spec interface_get_mac_configured interface_get_type_configured
        tl tl' payload ipv4_frame_def del: ntohs_le16)
qed

lemma resolved_sound:
  assumes "steady r" and "task_ok r (Resolved q i hop)"
  shows "\<exists>r' new. run_section r (Resolved q i hop) = Inr (r', new) \<and> sound_step r (Resolved q i hop) r' new"
proof -
  obtain mac where "device_map (macs r) hop = Some mac" using assms(2) by (auto simp: known_def)
  note s = section_resolved [OF assms(1) _ this, of q]
  have "steady (write_frame r i f)" for f
    using assms(1) by (simp add: steady_def write_frame_def queue_ready_def)
  then show ?thesis
    using s assms(2)
    by (simp add: sound_step_def write_frame_def shared_labels_def known_def ipv4_frame_def label_take
        del: run_section.simps)
qed

lemma section_unresolved:
  assumes "wf_pkt q"
  shows "run_section r (Unresolved q i hop) =
    ebind (timer_add_packet r (take (total_len q) q) i hop) (\<lambda>r'. Inr (r', []))"
proof -
  have "rd16 q 2 = Inr (le16 (q ! 2) (q ! 3))"
    using wf_pkt_length [OF assms] by (simp add: rd16_ok eval_nat_numeral)
  moreover have "unat (ntohs (le16 (q ! 2) (q ! 3))) = total_len q" by (simp add: total_len_def)
  moreover have "rd_bytes q 0 (total_len q) = Inr (take (total_len q) q)"
    using assms by (simp add: rd_bytes_ok wf_pkt_def)
  ultimately show ?thesis by (simp del: ntohs_le16)
qed

lemma unresolved_sound:
  assumes "steady r" and "task_ok r (Unresolved q i hop)"
  shows "\<exists>r' new. run_section r (Unresolved q i hop) = Inr (r', new) \<and> sound_step r (Unresolved q i hop) r' new"
proof -
  let ?b = "take (total_len q) q"
  note ok = steadyD [OF assms(1)]
  have q: "wf_pkt q" "i < 2" "ready_for (wan r) hop ?b" using assms(2) by simp_all
  from timer_add_packet_effect [OF ok(3,4,1) q(2), of ?b hop] obtain r' where
    r': "timer_add_packet r ?b i hop = Inr r'" "delta_ok (delta_list r')" "timer_only r r'"
      "waiting (delta_list r') = (waiting (delta_list r))(hop := waiting (delta_list r) hop @ [?b])"
      "sent r' = sent r @ (if hop \<in> dn_ip_addr ` set (delta_list r) then [] else [(i, request_frame r i hop)])"
    by blast
  note same = timer_only_simps [OF r'(3)]
  have "queue_ready r'"
    using ok(5) q(3) unfolding queue_ready_def r'(4) same(2) by auto
  then have "steady r'" using ok r'(2) same by (simp add: steady_def)
  moreover have "shared_labels r' = add_mset (label q) (shared_labels r)"
    using queued_add_packet [OF r'(1)] r'(5) q(1) by (simp add: shared_labels_def label_take)
  ultimately have "sound_step r (Unresolved q i hop) r' []"
    using same by (simp add: sound_step_def known_def)
  then show ?thesis using r'(1) section_unresolved [OF q(1), of r i hop] by auto
qed

lemma learning_sound:
  assumes "steady r"
  shows "\<exists>r' new. run_section r (Learning ip mac) = Inr (r', new) \<and> sound_step r (Learning ip mac) r' new"
proof -
  from learn_spec [OF steadyD(2) [OF assms], of ip mac] obtain d where
    d: "learn r ip mac = Inr (r\<lparr>macs := d\<rparr>)" "devices_inv d"
      "device_map d = (device_map (macs r))(ip \<mapsto> mac)" by blast
  have "steady (r\<lparr>macs := d\<rparr>)" using assms d(2) by (simp add: steady_def queue_ready_def)
  with d show ?thesis by (auto simp: sound_step_def known_def shared_labels_def)
qed

lemma section_releasing:
  assumes "steady r"
  shows "\<exists>r'. run_section r (Releasing ip) = Inr (r', map Checking (waiting (delta_list r) ip)) \<and>
    delta_ok (delta_list r') \<and> timer_only r r' \<and> sent r' = sent r \<and>
    waiting (delta_list r') = (waiting (delta_list r))(ip := []) \<and>
    labels (queued (delta_list r)) = labels (waiting (delta_list r) ip) + labels (queued (delta_list r'))"
proof (cases "unlink_node (delta_list r) ip")
  case None
  note ok = steadyD [OF assms]
  have "waiting (delta_list r) ip = []"
    using unlink_node_spec [OF ok(3), of ip] None by (simp add: waiting_none)
  then show ?thesis
    using None ok(3,4) by (auto simp: lock_timer_free unlock_timer_def timer_only_def)
next
  case (Some x)
  note ok = steadyD [OF assms]
  obtain n ns where x: "x = (n, ns)" by (cases x)
  have u: "delta_ok ns" "waiting (delta_list r) ip = pkt_list n" "waiting ns = (waiting (delta_list r))(ip := [])"
    using unlink_node_spec [OF ok(3), of ip] Some x by auto
  show ?thesis
    using Some x u ok(4) queued_unlink [of "delta_list r" ip n ns]
    by (auto simp: lock_timer_free unlock_timer_def timer_only_def)
qed

lemma task_packets_checking [simp]: "concat (map (task_packets \<circ> Checking) ps) = ps"
  by (induction ps) simp_all

lemma releasing_sound:
  assumes "steady r" and "task_ok r (Releasing ip)"
  shows "\<exists>r' new. run_section r (Releasing ip) = Inr (r', new) \<and> sound_step r (Releasing ip) r' new"
proof -
  note ok = steadyD [OF assms(1)]
  from section_releasing [OF assms(1), of ip] obtain r' where
    r': "run_section r (Releasing ip) = Inr (r', map Checking (waiting (delta_list r) ip))"
      "delta_ok (delta_list r')" "timer_only r r'" "sent r' = sent r"
      "waiting (delta_list r') = (waiting (delta_list r))(ip := [])"
      "labels (queued (delta_list r)) = labels (waiting (delta_list r) ip) + labels (queued (delta_list r'))"
    by blast
  note same = timer_only_simps [OF r'(3)]
  have "steady r'" using ok r'(2,5) same by (auto simp: steady_def queue_ready_def)
  moreover have "\<forall>u \<in> set (map Checking (waiting (delta_list r) ip)). task_ok r' u \<and> u \<noteq> Expiring"
    using ok(5) assms(2) same by (auto simp: queue_ready_def ready_for_def known_def)
  ultimately have "sound_step r (Releasing ip) r' (map Checking (waiting (delta_list r) ip))"
    using r'(4,6) same unfolding sound_step_def by (simp add: known_def shared_labels_def del: set_map task_ok.simps)
  with r'(1) show ?thesis by blast
qed

lemma expiring_sound:
  assumes "steady r"
  shows "\<exists>r' new. run_section r Expiring = Inr (r', new) \<and> sound_step r Expiring r' new"
proof (cases "timer_left r = (0, 0)")
  case True
  then show ?thesis using assms by (simp add: sound_step_def)
next
  case False
  let ?r = "r\<lparr>timer_left := (0, 0)\<rparr>"
  note ok = steadyD [OF assms]
  from timer_handler_expired [of ?r] ok obtain r' where
    r': "timer_handler ?r = Inr r'" "timer_inv r'" "timer_only ?r r'"
      "delta_list r' = after_expiry (head_expired (delta_list r))"
      "sent r' = sent r @ retry_frames ?r (to_retry (head_expired (delta_list r)))"
    by auto
  note same = timer_only_simps [OF r'(3)]
  have "distinct (map dn_ip_addr (delta_list r))" using ok(3) by (simp add: delta_ok_def)
  note left = waiting_after_expiry [OF this]
  have "set (waiting (delta_list r') ip) \<subseteq> set (waiting (delta_list r) ip)" for ip
    unfolding r'(4) left by auto
  then have "queue_ready r'" using ok(5) same by (auto simp: queue_ready_def)
  then have "steady r'" using ok r'(2) same by (simp add: steady_def timer_inv_def)
  moreover have "shared_labels r' \<subseteq># shared_labels r"
    using queued_after_expiry [of "delta_list r"] r'(4,5) by (simp add: shared_labels_def)
  ultimately have "sound_step r Expiring r' []" using same by (simp add: sound_step_def known_def)
  then show ?thesis using False r'(1) by auto
qed

lemma section_sound:
  assumes "steady r" and "task_ok r t"
  shows "\<exists>r' new. run_section r t = Inr (r', new) \<and> sound_step r t r' new"
  using assms checking_sound resolved_sound unresolved_sound learning_sound releasing_sound expiring_sound
  by (cases t) blast+

section \<open>Threads\<close>

definition pool_ok :: "pool \<Rightarrow> bool" where
  "pool_ok q \<longleftrightarrow> steady (fst q) \<and> (\<forall>ts \<in> set (snd q). \<forall>t \<in> set ts. task_ok (fst q) t)"

definition expires :: "pool \<Rightarrow> bool" where
  "expires q \<longleftrightarrow> (\<exists>ts \<in> set (snd q). Expiring \<in> set ts)"

lemma pool_ok_advance:
  assumes "pool_ok (r, ths)" and "i < length ths" and "ths ! i = t # ts" and "sound_step r t r' new"
  shows "pool_ok (r', ths[i := new @ ts])" and "expires (r', ths[i := new @ ts]) \<Longrightarrow> expires (r, ths)"
    and "pool_labels (r', ths[i := new @ ts]) \<subseteq># pool_labels (r, ths)"
    and "t \<noteq> Expiring \<Longrightarrow> pool_labels (r', ths[i := new @ ts]) = pool_labels (r, ths)"
proof -
  have thread: "t # ts \<in> set ths" using assms(2,3) by (metis nth_mem)
  have parts: "set (ths[i := new @ ts]) \<subseteq> insert (new @ ts) (set ths)" by (rule set_update_subset_insert)
  have keep: "task_ok r' u" if "task_ok r u" for u
    using task_ok_mono [OF that] assms(4) by (simp add: sound_step_def)
  have "task_ok r' u" if us: "us \<in> set (ths[i := new @ ts])" and u: "u \<in> set us" for us u
  proof -
    from parts us have "us = new @ ts \<or> us \<in> set ths" by auto
    with u consider "u \<in> set new" | "u \<in> set ts" | "us \<in> set ths" by auto
    then show ?thesis
      using thread assms(1,4) keep u by cases (auto simp: pool_ok_def sound_step_def)
  qed
  then show "pool_ok (r', ths[i := new @ ts])" using assms(4) by (simp add: pool_ok_def sound_step_def)
  show "expires (r, ths)" if "expires (r', ths[i := new @ ts])"
  proof -
    from that obtain us where us: "us \<in> set (ths[i := new @ ts])" "Expiring \<in> set us" by (auto simp: expires_def)
    then have "us = new @ ts \<or> us \<in> set ths" using parts by auto
    moreover have "Expiring \<notin> set new" using assms(4) by (auto simp: sound_step_def)
    ultimately have "Expiring \<in> set ts \<or> us \<in> set ths" using us(2) by auto
    moreover have "Expiring \<in> set ts \<Longrightarrow> Expiring \<in> set (t # ts)" by simp
    ultimately have "\<exists>vs \<in> set ths. Expiring \<in> set vs" using us(2) thread by blast
    then show ?thesis by (simp add: expires_def)
  qed
  have moved: "labels (concat (map task_packets (concat (ths[i := new @ ts])))) + labels (task_packets t) =
      labels (concat (map task_packets (concat ths))) + labels (concat (map task_packets new))"
    using labels_concat_update [OF assms(2), of "new @ ts"] assms(3) by (simp add: algebra_simps)
  let ?new = "labels (concat (map task_packets new)) + shared_labels r'"
  let ?old = "labels (task_packets t) + shared_labels r"
  have "?new \<subseteq># ?old" and same: "t \<noteq> Expiring \<Longrightarrow> ?new = ?old"
    using assms(4) by (simp_all add: sound_step_def)
  then obtain lost where lost: "?old = ?new + lost" by (metis subset_mset.add_diff_inverse)
  have balance: "A + S = A' + S' + L" if "A' + T = A + N" "T + S = N + S' + L"
    for A S A' S' L T N :: "(ip_addr \<times> ip_addr \<times> u8 \<times> nat) multiset"
  proof -
    have "(A + S) + N = (A + N) + S" by (simp only: ac_simps)
    also have "\<dots> = A' + (T + S)" unfolding that(1) [symmetric] by (simp only: ac_simps)
    also have "\<dots> = (A' + S' + L) + N" unfolding that(2) by (simp only: ac_simps)
    finally show ?thesis by simp
  qed
  have "pool_labels (r, ths) = pool_labels (r', ths[i := new @ ts]) + lost"
    using balance [OF moved lost] by (simp add: pool_labels_def)
  moreover have "lost = {#}" if "t \<noteq> Expiring" using lost same [OF that] by simp
  ultimately show "pool_labels (r', ths[i := new @ ts]) \<subseteq># pool_labels (r, ths)"
    and "t \<noteq> Expiring \<Longrightarrow> pool_labels (r', ths[i := new @ ts]) = pool_labels (r, ths)" by simp_all
qed

lemma pool_step_sound:
  assumes "pool_ok p" and "pool_step p q"
  shows "pool_ok q \<and> (expires q \<longrightarrow> expires p) \<and> pool_labels q \<subseteq># pool_labels p \<and>
    (\<not> expires p \<longrightarrow> pool_labels q = pool_labels p)"
  using assms(2)
proof (cases rule: pool_step.cases)
  case (run i ths t ts r r' new)
  have ok: "pool_ok (r, ths)" using assms(1) run(1) by simp
  have thread: "t # ts \<in> set ths" using run(3,4) by (metis nth_mem)
  then have "steady r" "task_ok r t" using ok by (auto simp: pool_ok_def)
  from section_sound [OF this] run(5) have "sound_step r t r' new" by auto
  note adv = pool_ok_advance [OF ok run(3,4) this]
  have "t \<noteq> Expiring" if "\<not> expires (r, ths)" using that thread by (force simp: expires_def)
  with adv show ?thesis by (auto simp: run(1,2))
qed

lemma pool_progress:
  assumes "pool_ok (r, ths)" and "i < length ths" and "ths ! i \<noteq> []"
  shows "\<exists>r' new. run_section r (hd (ths ! i)) = Inr (r', new) \<and>
    pool_step (r, ths) (r', ths[i := new @ tl (ths ! i)])"
proof -
  have thread: "ths ! i = hd (ths ! i) # tl (ths ! i)" using assms(3) by simp
  moreover have "ths ! i \<in> set ths" using assms(2) by simp
  ultimately have "steady r" "task_ok r (hd (ths ! i))"
    using assms(1,3) by (auto simp: pool_ok_def)
  from section_sound [OF this] obtain r' new where "run_section r (hd (ths ! i)) = Inr (r', new)" by blast
  with pool_step.run [OF assms(2) thread] show ?thesis by blast
qed

section \<open>A thread alone\<close>

lemma alone_step:
  assumes "run_section r t = Inr (r', new)" and "pool_step\<^sup>*\<^sup>* (r, [t # ts]) q" and "finished q"
  shows "pool_step\<^sup>*\<^sup>* (r', [new @ ts]) q"
  using assms(2)
proof (cases rule: converse_rtranclpE)
  case base
  with assms(3) show ?thesis by (auto simp: finished_def)
next
  case (step p)
  from step(1) have "p = (r', [new @ ts])" using assms(1) by (auto elim!: pool_stepE)
  with step(2) show ?thesis by simp
qed

lemma alone_done:
  assumes "pool_step\<^sup>*\<^sup>* (r, [[]]) q"
  shows "q = (r, [[]])"
  using assms by (cases rule: converse_rtranclpE) (auto elim!: pool_stepE)

text \<open>Packets on the wire; the effect of whole stretches of a thread that runs alone.\<close>

definition out_labels :: "router \<Rightarrow> (ip_addr \<times> ip_addr \<times> u8 \<times> nat) multiset" where
  "out_labels r = labels (delivered (sent r))"

lemma queue_effect:
  assumes "steady r" and "task_ok r (Unresolved q i hop)"
  shows "\<exists>r'. run_section r (Unresolved q i hop) = Inr (r', []) \<and> steady r' \<and> wan r' = wan r \<and>
    macs r' = macs r \<and> out_labels r' = out_labels r \<and>
    waiting (delta_list r') = (waiting (delta_list r))(hop := waiting (delta_list r) hop @ [take (total_len q) q])"
proof -
  have q: "wf_pkt q" "i < 2" using assms(2) by simp_all
  from timer_add_packet_effect [OF steadyD(3,4,1) [OF assms(1)] q(2), of "take (total_len q) q" hop] obtain r' where
    r': "timer_add_packet r (take (total_len q) q) i hop = Inr r'" "timer_only r r'"
      "waiting (delta_list r') = (waiting (delta_list r))(hop := waiting (delta_list r) hop @ [take (total_len q) q])"
      "sent r' = sent r @ (if hop \<in> dn_ip_addr ` set (delta_list r) then [] else [(i, request_frame r i hop)])"
    by blast
  then have run: "run_section r (Unresolved q i hop) = Inr (r', [])"
    by (simp add: section_unresolved [OF q(1)] del: run_section.simps)
  with section_sound [OF assms] have "steady r'" by (auto simp: sound_step_def)
  with run r' timer_only_simps [OF r'(2)] show ?thesis by (auto simp: out_labels_def)
qed

lemma deliver_alone:
  assumes "steady r" and "task_ok r (Checking b)" and hop: "next_hop (wan r) (ip_dst b) \<in> known r"
    and "pool_step\<^sup>*\<^sup>* (r, [Checking b # ts]) q" and "finished q"
  shows "\<exists>r'. steady r' \<and> delta_list r' = delta_list r \<and> out_labels r' = add_mset (label b) (out_labels r) \<and>
    pool_step\<^sup>*\<^sup>* (r', [ts]) q"
proof -
  let ?c = "with_checksums b" and ?hop = "next_hop (wan r) (ip_dst b)"
  have ok: "wf_pkt b" "transport_ok b" using assms(2) by simp_all
  note f = same_header_fields [OF with_checksums_spec(2) [OF ok]]
  have "run_section r (Checking b) = Inr (r, [Resolved ?c (lan_or_wan (ip_dst ?c)) ?hop])"
    using section_checking [OF assms(1,2)] hop f by simp
  from alone_step [OF this assms(4,5)] have next_step: "pool_step\<^sup>*\<^sup>* (r, [Resolved ?c (lan_or_wan (ip_dst ?c)) ?hop # ts]) q"
    by simp
  obtain mac where "device_map (macs r) ?hop = Some mac" using hop by (auto simp: known_def)
  from section_resolved [OF assms(1) _ this, of ?c] f(4) ok(1) have
    written: "run_section r (Resolved ?c (lan_or_wan (ip_dst ?c)) ?hop) =
      Inr (write_frame r (lan_or_wan (ip_dst ?c)) (ipv4_frame r mac ?c), [])" by blast
  let ?r = "write_frame r (lan_or_wan (ip_dst ?c)) (ipv4_frame r mac ?c)"
  have "steady ?r" using assms(1) by (simp add: steady_def write_frame_def queue_ready_def)
  moreover have "out_labels ?r = add_mset (label b) (out_labels r)"
    using f(4) ok by (simp add: out_labels_def write_frame_def ipv4_frame_def label_take label_with_checksums)
  ultimately show ?thesis
    using alone_step [OF written next_step assms(5)] by (intro exI [of _ ?r]) (simp add: write_frame_def)
qed

lemma arp_alone:
  assumes "steady r" and "pool_step\<^sup>*\<^sup>* (r, [Learning hop mac # ts]) q" and "finished q"
  shows "\<exists>r'. steady r' \<and> wan r' = wan r \<and> known r' = insert hop (known r) \<and> out_labels r' = out_labels r \<and>
    waiting (delta_list r') = (waiting (delta_list r))(hop := []) \<and>
    (\<forall>b \<in> set (waiting (delta_list r) hop). task_ok r' (Checking b) \<and> next_hop (wan r) (ip_dst b) = hop) \<and>
    pool_step\<^sup>*\<^sup>* (r', [map Checking (waiting (delta_list r) hop) @ ts]) q"
proof -
  from learn_spec [OF steadyD(2) [OF assms(1)], of hop mac] obtain d where
    d: "learn r hop mac = Inr (r\<lparr>macs := d\<rparr>)" "devices_inv d"
      "device_map d = (device_map (macs r))(hop \<mapsto> mac)" by blast
  let ?r = "r\<lparr>macs := d\<rparr>"
  have st: "steady ?r" using assms(1) d(2) by (simp add: steady_def queue_ready_def)
  have kn: "known ?r = insert hop (known r)" using d(3) by (auto simp: known_def)
  have "run_section r (Learning hop mac) = Inr (?r, [Releasing hop])" using d(1) by simp
  from alone_step [OF this assms(2,3)] have rel: "pool_step\<^sup>*\<^sup>* (?r, [Releasing hop # ts]) q" by simp
  from section_releasing [OF st, of hop] obtain r' where
    r': "run_section ?r (Releasing hop) = Inr (r', map Checking (waiting (delta_list r) hop))"
      "timer_only ?r r'" "sent r' = sent r" "waiting (delta_list r') = (waiting (delta_list r))(hop := [])"
    by auto
  have "task_ok ?r (Releasing hop)" using kn by simp
  from section_sound [OF st this] r'(1) have sound: "steady r'"
      "\<forall>u \<in> set (map Checking (waiting (delta_list r) hop)). task_ok r' u"
    by (auto simp: sound_step_def)
  have hops: "\<forall>b \<in> set (waiting (delta_list r) hop). next_hop (wan r) (ip_dst b) = hop"
    using steadyD(5) [OF assms(1)] by (simp add: queue_ready_def ready_for_def)
  have same: "wan r' = wan r" "known r' = insert hop (known r)" "out_labels r' = out_labels r"
    using timer_only_simps [OF r'(2)] kn r'(3) by (simp_all add: known_def out_labels_def)
  have "\<forall>b \<in> set (waiting (delta_list r) hop). task_ok r' (Checking b)" using sound(2) by simp
  with sound(1) same r'(4) hops alone_step [OF r'(1) rel assms(3)] show ?thesis by blast
qed

section \<open>Properties\<close>


text \<open>A fresh router and a packet from the LAN to a host beyond the gateway.\<close>

definition idle_router :: router where
  "idle_router = start_router (\<lambda>_. 0)"

definition query :: buf where
  "query = udp_packet (IpAddr 192 168 1 50) 5000 (IpAddr 8 8 8 8) 53"

lemma idle_router_ok: "steady idle_router" "known idle_router = {}" "delta_list idle_router = []"
  "wan idle_router = init_wan"
proof -
  note ok = router_okD [OF start_router_ok(1), of "\<lambda>_. 0"]
  show "delta_list idle_router = []" "wan idle_router = init_wan"
    by (simp_all add: idle_router_def start_router_ok)
  show "steady idle_router"
    using ok start_router_ok(5) by (simp add: idle_router_def steady_def timer_inv_def queue_ready_def)
  show "known idle_router = {}"
    by (simp add: idle_router_def start_router_def napt_init_def router_at_start_def known_def)
qed

lemma query_ok: "sealed query" "next_hop init_wan (ip_dst query) = IpAddr 192 168 0 1"
proof -
  show "sealed query" using packet_in_buffer(8) [OF refl, of _ _ _ _ "[]"] by (simp add: query_def)
  have "ip_dst query = IpAddr 8 8 8 8" by (simp add: query_def udp_packet_fields)
  then show "next_hop init_wan (ip_dst query) = IpAddr 192 168 0 1"
    by (simp add: next_hop_def init_wan_def) code_simp
qed


text \<open>The interleaving that goes wrong, and the two orders that do not.\<close>

lemma wakeup_lost:
  assumes "steady r" and "sealed p" and hop: "hop = next_hop (wan r) (ip_dst p)" and "hop \<notin> known r"
    and "waiting (delta_list r) hop = []"
  shows "\<exists>q. pool_step\<^sup>*\<^sup>* (r, [[Checking p], [Learning hop mac]]) q \<and> finished q \<and> hop \<in> known (fst q) \<and>
    out_labels (fst q) = out_labels r \<and> map label (waiting (delta_list (fst q)) hop) = [label p]"
proof -
  let ?u = "Unresolved (with_checksums p) (lan_or_wan (ip_dst p)) hop"
  note ok = sealed_ok(1,2) [OF assms(2)]
  have chk: "task_ok r (Checking p)" using assms(2) ok by simp
  have 1: "run_section r (Checking p) = Inr (r, [?u])" using section_checking [OF assms(1) chk] assms(3,4) by simp
  with checking_sound [OF assms(1) chk] have u: "task_ok r ?u" by (auto simp: sound_step_def)
  have "pool_step (r, [[Checking p], [Learning hop mac]]) (r, [[?u], [Learning hop mac]])"
    using pool_step.run [OF _ _ 1, of 0 "[[Checking p], [Learning hop mac]]" "[]"] by simp
  moreover obtain r1 where 2: "run_section r (Learning hop mac) = Inr (r1, [Releasing hop])"
      "steady r1" "wan r1 = wan r" "known r1 = insert hop (known r)" "out_labels r1 = out_labels r"
      "delta_list r1 = delta_list r"
    using learn_spec [OF steadyD(2) [OF assms(1)], of hop mac] assms(1)
    by (auto simp: known_def out_labels_def steady_def queue_ready_def)
  from pool_step.run [OF _ _ 2(1), of 1 "[[?u], [Learning hop mac]]" "[]"]
  have "pool_step (r, [[?u], [Learning hop mac]]) (r1, [[?u], [Releasing hop]])" by simp
  moreover from section_releasing [OF 2(2), of hop] obtain r2 where
    3: "run_section r1 (Releasing hop) = Inr (r2, [])" "timer_only r1 r2" "sent r2 = sent r1"
      "waiting (delta_list r2) = (waiting (delta_list r))(hop := [])"
    using 2(6) assms(5) by auto
  from pool_step.run [OF _ _ 3(1), of 1 "[[?u], [Releasing hop]]" "[]"]
  have "pool_step (r1, [[?u], [Releasing hop]]) (r2, [[?u], []])" by simp
  moreover have s2: "steady r2" and w2: "wan r2 = wan r" and k2: "known r2 = insert hop (known r)"
    using releasing_sound [OF 2(2), of hop] 2(3,4) 3(1) timer_only_simps [OF 3(2)]
    by (auto simp: sound_step_def known_def)
  have u2: "task_ok r2 ?u" using task_ok_mono [OF u w2] k2 by blast
  from queue_effect [OF s2 u2] obtain r3 where
    4: "run_section r2 ?u = Inr (r3, [])" "macs r3 = macs r2" "out_labels r3 = out_labels r2"
      "waiting (delta_list r3) hop = waiting (delta_list r2) hop @ [take (total_len (with_checksums p)) (with_checksums p)]"
    by auto
  from pool_step.run [OF _ _ 4(1), of 0 "[[?u], []]" "[]"]
  have "pool_step (r2, [[?u], []]) (r3, [[], []])" by simp
  ultimately have "pool_step\<^sup>*\<^sup>* (r, [[Checking p], [Learning hop mac]]) (r3, [[], []])"
    by (meson converse_rtranclp_into_rtranclp rtranclp.rtrancl_refl)
  moreover have "wf_pkt (with_checksums p)"
    using same_header_fields(4) [OF with_checksums_spec(2) [OF ok]] ok(1) by simp
  then have "map label (waiting (delta_list r3) hop) = [label p]"
    using 4(4) 3(4) by (simp add: label_take label_with_checksums ok)
  moreover have "out_labels r3 = out_labels r" using 4(3) 3(3) 2(5) by (simp add: out_labels_def)
  moreover have "hop \<in> known r3" using 4(2) k2 by (simp add: known_def)
  ultimately show ?thesis by (intro exI [of _ "(r3, [[], []])"]) (simp add: finished_def)
qed

lemma sent_before_arp:
  assumes "steady r" and "sealed p" and hop: "hop = next_hop (wan r) (ip_dst p)" and "hop \<notin> known r"
    and "waiting (delta_list r) hop = []"
    and run: "pool_step\<^sup>*\<^sup>* (r, [[Checking p, Learning hop mac]]) q" and fin: "finished q"
  shows "waiting (delta_list (fst q)) hop = [] \<and> out_labels (fst q) = add_mset (label p) (out_labels r)"
proof -
  let ?c = "with_checksums p"
  let ?u = "Unresolved ?c (lan_or_wan (ip_dst p)) hop" and ?b = "take (total_len ?c) ?c"
  note ok = sealed_ok(1,2) [OF assms(2)]
  note f = same_header_fields [OF with_checksums_spec(2) [OF ok]]
  have chk: "task_ok r (Checking p)" using assms(2) ok by simp
  have 1: "run_section r (Checking p) = Inr (r, [?u])" using section_checking [OF assms(1) chk] assms(3,4) by simp
  with checking_sound [OF assms(1) chk] have u: "task_ok r ?u" by (auto simp: sound_step_def)
  from alone_step [OF 1 run fin] have run1: "pool_step\<^sup>*\<^sup>* (r, [?u # [Learning hop mac]]) q" by simp
  from queue_effect [OF assms(1) u] obtain r1 where
    2: "run_section r ?u = Inr (r1, [])" "steady r1" "wan r1 = wan r" "out_labels r1 = out_labels r"
      "waiting (delta_list r1) hop = [?b]" using assms(5) by auto
  from alone_step [OF 2(1) run1 fin] have "pool_step\<^sup>*\<^sup>* (r1, [Learning hop mac # []]) q" by simp
  from arp_alone [OF 2(2) this fin] 2(3,5) obtain r2 where
    3: "steady r2" "wan r2 = wan r" "known r2 = insert hop (known r1)" "out_labels r2 = out_labels r1"
      "waiting (delta_list r2) hop = []" "task_ok r2 (Checking ?b)" "next_hop (wan r1) (ip_dst ?b) = hop"
      "pool_step\<^sup>*\<^sup>* (r2, [Checking ?b # []]) q" by auto
  from deliver_alone [OF 3(1,6) _ 3(8) fin] 3(2,3,7) 2(3) obtain r3 where
    4: "delta_list r3 = delta_list r2" "out_labels r3 = add_mset (label ?b) (out_labels r2)"
      "pool_step\<^sup>*\<^sup>* (r3, [[]]) q" by auto
  have "label ?b = label p" using f(4) ok by (simp add: label_take label_with_checksums)
  with alone_done [OF 4(3)] 4(1,2) 3(4,5) 2(4) show ?thesis by simp
qed

lemma sent_after_arp:
  assumes "steady r" and "sealed p" and hop: "hop = next_hop (wan r) (ip_dst p)" and "waiting (delta_list r) hop = []"
    and run: "pool_step\<^sup>*\<^sup>* (r, [[Learning hop mac, Checking p]]) q" and fin: "finished q"
  shows "waiting (delta_list (fst q)) hop = [] \<and> out_labels (fst q) = add_mset (label p) (out_labels r)"
proof -
  from arp_alone [OF assms(1) run fin] assms(4) obtain r1 where
    1: "steady r1" "wan r1 = wan r" "known r1 = insert hop (known r)" "out_labels r1 = out_labels r"
      "waiting (delta_list r1) hop = []" "pool_step\<^sup>*\<^sup>* (r1, [Checking p # []]) q" by auto
  have "task_ok r1 (Checking p)" using assms(2) sealed_ok(1,2) [OF assms(2)] by simp
  from deliver_alone [OF 1(1) this _ 1(6) fin] 1(2,3) hop obtain r2 where
    2: "delta_list r2 = delta_list r1" "out_labels r2 = add_mset (label p) (out_labels r1)"
      "pool_step\<^sup>*\<^sup>* (r2, [[]]) q" by auto
  with alone_done [OF 2(3)] 1(4,5) show ?thesis by simp
qed

text \<open>
  C14: a wake-up can get lost.  One thread sends a packet whose next hop is not resolved while
  another handles the ARP packet of that very host.  If the second learns the address and
  looks for waiting packets between the first one's look-up and its queueing, the packet stays
  in the queue although the address is known, with nothing left to run but the timer; when the
  two threads run one after the other, in either order, the packet leaves.
\<close>

theorem arp_wakeup_lost:
  assumes "steady r" and "sealed p" and "hop = next_hop (wan r) (ip_dst p)" and "hop \<notin> known r"
    and "waiting (delta_list r) hop = []"
  shows "(\<exists>q. pool_step\<^sup>*\<^sup>* (r, [[Checking p], [Learning hop mac]]) q \<and> finished q \<and> hop \<in> known (fst q) \<and>
      out_labels (fst q) = out_labels r \<and> map label (waiting (delta_list (fst q)) hop) = [label p]) \<and>
    (\<forall>q. pool_step\<^sup>*\<^sup>* (r, [[Checking p, Learning hop mac]]) q \<or> pool_step\<^sup>*\<^sup>* (r, [[Learning hop mac, Checking p]]) q \<longrightarrow>
      finished q \<longrightarrow> waiting (delta_list (fst q)) hop = [] \<and> out_labels (fst q) = add_mset (label p) (out_labels r))"
proof (rule conjI [OF wakeup_lost [OF assms]], intro allI impI)
  fix q
  assume "pool_step\<^sup>*\<^sup>* (r, [[Checking p, Learning hop mac]]) q \<or> pool_step\<^sup>*\<^sup>* (r, [[Learning hop mac, Checking p]]) q"
    and fin: "finished q"
  then show "waiting (delta_list (fst q)) hop = [] \<and> out_labels (fst q) = add_mset (label p) (out_labels r)"
    using sent_before_arp [OF assms _ fin] sent_after_arp [OF assms(1-3,5) _ fin] by (elim disjE) assumption+
qed

theorem arp_wakeup_lost_witness:
  "\<exists>q. pool_step\<^sup>*\<^sup>* (idle_router, [[Checking query], [Learning (IpAddr 192 168 0 1) (MacAddr 2 0 0 0 0 9)]]) q \<and>
     finished q \<and> map label (waiting (delta_list (fst q)) (IpAddr 192 168 0 1)) = [label query]"
proof -
  have hop: "IpAddr 192 168 0 1 = next_hop (wan idle_router) (ip_dst query)"
    by (simp add: idle_router_ok(4) query_ok(2))
  have "IpAddr 192 168 0 1 \<notin> known idle_router" "waiting (delta_list idle_router) (IpAddr 192 168 0 1) = []"
    by (simp_all add: idle_router_ok)
  from arp_wakeup_lost [OF idle_router_ok(1) query_ok(1) hop this, where mac = "MacAddr 2 0 0 0 0 9", THEN conjunct1]
  show ?thesis by (elim exE conjE) (intro exI conjI)
qed

end
