(* ===== verification/Text.thy ===== *)
theory Text
  imports Devices "HOL-Library.Char_ord"
begin

text \<open>
  The strings the program prints: \<open>to_string_ip\<close> and \<open>to_string_mac\<close> of \<open>src/utils.c\<close>,
  \<open>mac_addr_to_string\<close> of \<open>src/main.c\<close>, \<open>print_word\<close> of \<open>src/hashmap.c\<close> and
  \<open>print_pairs\<close> of \<open>src/devices.c\<close>, with the conversions of \<open>printf\<close> they use.  A C string in memory is a list of characters that a NUL
  character ends.
\<close>

section \<open>Conversions\<close>

definition hex_digit :: "nat \<Rightarrow> char" where
  "hex_digit d = ''0123456789abcdef'' ! d"

text \<open>\<open>%02x\<close> of a byte, \<open>%d\<close> of a byte.\<close>

definition hex2 :: "u8 \<Rightarrow> string" where
  "hex2 b = [hex_digit (unat b div 16), hex_digit (unat b mod 16)]"

definition dec_digit :: "nat \<Rightarrow> char" where
  "dec_digit d = ''0123456789'' ! d"

definition dec_byte :: "u8 \<Rightarrow> string" where
  "dec_byte b =
     (let n = unat b in
      if n < 10 then [dec_digit n]
      else if n < 100 then [dec_digit (n div 10), dec_digit (n mod 10)]
      else [dec_digit (n div 100), dec_digit (n div 10 mod 10), dec_digit (n mod 10)])"

section \<open>The functions\<close>

fun to_string_ip :: "ip_addr \<Rightarrow> string" where
  "to_string_ip (IpAddr a b c d) =
     dec_byte a @ ''.'' @ dec_byte b @ ''.'' @ dec_byte c @ ''.'' @ dec_byte d"

fun to_string_mac :: "mac_addr \<Rightarrow> string" where
  "to_string_mac (MacAddr a b c d e f) =
     hex2 a @ '':'' @ hex2 b @ '':'' @ hex2 c @ '':'' @ hex2 d @ '':'' @ hex2 e @ '':'' @ hex2 f"

definition print_word :: "buf \<Rightarrow> string" where
  "print_word key = ''0x'' @ concat (map hex2 key) @ [CHR 0x0A]"

definition pair_line :: "ip_mac_pair \<Rightarrow> string" where
  "pair_line p = to_string_ip (fst p) @ '': '' @ to_string_mac (snd p) @ [CHR 0x0A]"

fun print_loop :: "ip_mac_pair option list \<Rightarrow> nat list \<Rightarrow> string res" where
  "print_loop arr [] = Inr []"
| "print_loop arr (i # is) =
     ebind (rd_pair arr i) (\<lambda>p. ebind (print_loop arr is) (\<lambda>rest. Inr (pair_line p @ rest)))"

definition print_pairs :: "devices \<Rightarrow> string res" where
  "print_pairs d = print_loop (ip_mac_map_arr d) [0..<ip_mac_map_amt d]"

text \<open>
  \<open>mac_addr_to_string\<close> formats into a block of 18 characters from \<open>malloc\<close>, whose
  contents are arbitrary: each round writes two digits and a NUL (\<open>sprintf\<close>), then puts a
  colon, or at the end a NUL, in place of the third character.
\<close>

definition put_chars :: "string \<Rightarrow> nat \<Rightarrow> string \<Rightarrow> string res" where
  "put_chars block i cs =
     (if i + length cs \<le> length block then Inr (splice i cs block) else Inl OutOfBounds)"

fun mac_string_loop :: "buf \<Rightarrow> nat \<Rightarrow> string \<Rightarrow> string res" where
  "mac_string_loop [] i block = Inr block"
| "mac_string_loop (b # bs) i block =
     ebind (put_chars block (i * 3) (hex2 b @ [CHR 0x00])) (\<lambda>block1.
     ebind (put_chars block1 (i * 3 + 2) [if i = 5 then CHR 0x00 else CHR '':'']) (\<lambda>block2.
       mac_string_loop bs (i + 1) block2))"

definition mac_addr_to_string :: "string \<Rightarrow> mac_addr \<Rightarrow> string res" where
  "mac_addr_to_string block mac_addr = mac_string_loop (mac_bytes mac_addr) 0 block"

definition c_string :: "string \<Rightarrow> string" where
  "c_string block = takeWhile (\<lambda>c. c \<noteq> CHR 0x00) block"

section \<open>What they print\<close>

lemma hex_digit_not_nul: "d < 16 \<Longrightarrow> hex_digit d \<noteq> CHR 0x00"
  by (auto simp: hex_digit_def less_Suc_eq numeral_eq_Suc)

lemma hex2_not_nul: "c \<in> set (hex2 b) \<Longrightarrow> c \<noteq> CHR 0x00"
proof -
  have "unat b < 256" by (rule unat_u8_less)
  then have "unat b div 16 < 16" "unat b mod 16 < 16" by simp_all
  then have no: "hex_digit (unat b div 16) \<noteq> CHR 0x00" "hex_digit (unat b mod 16) \<noteq> CHR 0x00"
    using hex_digit_not_nul by blast+
  assume "c \<in> set (hex2 b)"
  then have "c = hex_digit (unat b div 16) \<or> c = hex_digit (unat b mod 16)" by (simp add: hex2_def)
  with no show "c \<noteq> CHR 0x00" by metis
qed

lemma print_pairs_spec:
  assumes "devices_inv d"
  shows "print_pairs d = Inr (concat (map pair_line (device_pairs d)))"
proof -
  have "print_loop (ip_mac_map_arr d) is = Inr (concat (map (\<lambda>i. pair_line (device_pairs d ! i)) is))"
    if "\<forall>i \<in> set is. i < ip_mac_map_amt d" for "is"
    using that by (induction "is") (simp_all add: rd_pair_used [OF assms])
  moreover have "map (\<lambda>i. pair_line (device_pairs d ! i)) [0..<ip_mac_map_amt d] = map pair_line (device_pairs d)"
    using length_device_pairs [OF assms] by (intro nth_equalityI) simp_all
  ultimately show ?thesis by (simp add: print_pairs_def)
qed

lemma length_hex2 [simp]: "length (hex2 b) = 2"
  by (simp add: hex2_def)

lemma mac_string_round:
  assumes "length pre = i * 3" and "3 \<le> length rest"
  shows "mac_string_loop (b # bs) i (pre @ rest) =
    mac_string_loop bs (i + 1) (pre @ hex2 b @ [if i = 5 then CHR 0x00 else CHR '':''] @ drop 3 rest)"
proof -
  have "put_chars (pre @ rest) (i * 3) (hex2 b @ [CHR 0x00]) = Inr (pre @ hex2 b @ [CHR 0x00] @ drop 3 rest)"
    using assms by (simp add: put_chars_def splice_def)
  moreover have "put_chars (pre @ hex2 b @ [CHR 0x00] @ drop 3 rest) (i * 3 + 2) [c] =
      Inr (pre @ hex2 b @ [c] @ drop 3 rest)" for c
    using assms by (simp add: put_chars_def splice_def)
  ultimately show ?thesis by simp
qed

lemma mac_string_short:
  assumes "length block < i * 3 + 3"
  shows "mac_string_loop (b # bs) i block = Inl OutOfBounds"
  using assms by (simp add: put_chars_def)

text \<open>Rounds that fit, then one that does not.\<close>

lemma mac_string_overrun_at:
  assumes "length xs * 3 \<le> length rest" and "length rest < length xs * 3 + 3" and "length pre = i * 3"
  shows "mac_string_loop (xs @ b # bs) i (pre @ rest) = Inl OutOfBounds"
  using assms
proof (induction xs arbitrary: i pre rest)
  case Nil
  then have "length (pre @ rest) < i * 3 + 3" by simp
  from mac_string_short [OF this] show ?case by simp
next
  case (Cons x xs)
  let ?cell = "hex2 x @ [if i = 5 then CHR 0x00 else CHR '':'']"
  have "mac_string_loop ((x # xs) @ b # bs) i (pre @ rest) =
      mac_string_loop (xs @ b # bs) (Suc i) ((pre @ ?cell) @ drop 3 rest)"
    using mac_string_round [OF Cons.prems(3), of rest x "xs @ b # bs"] Cons.prems(1) by simp
  also have "\<dots> = Inl OutOfBounds" by (rule Cons.IH) (use Cons.prems in simp_all)
  finally show ?case .
qed

lemma mac_string_overrun:
  "length xs * 3 \<le> length block \<Longrightarrow> length block < length xs * 3 + 3 \<Longrightarrow>
   mac_string_loop (xs @ b # bs) 0 block = Inl OutOfBounds"
  using mac_string_overrun_at [of xs block "[]" 0] by (simp del: mac_string_loop.simps)

text \<open>After some rounds: the bytes done, each with its separator, and the rest of the block.\<close>

lemma mac_string_rounds:
  assumes "length pre = i * 3" and "length bs * 3 \<le> length rest"
  shows "mac_string_loop bs i (pre @ rest) =
    Inr (pre @ concat (map (\<lambda>(j, b). hex2 b @ [if j = 5 then CHR 0x00 else CHR '':'']) (zip [i..<i + length bs] bs))
         @ drop (length bs * 3) rest)"
  using assms
proof (induction bs arbitrary: i pre rest)
  case Nil
  then show ?case by simp
next
  case (Cons b bs)
  let ?cell = "hex2 b @ [if i = 5 then CHR 0x00 else CHR '':'']"
  have "mac_string_loop (b # bs) i (pre @ rest) = mac_string_loop bs (Suc i) ((pre @ ?cell) @ drop 3 rest)"
    using mac_string_round [OF Cons.prems(1), of rest b bs] Cons.prems(2) by simp
  also have "\<dots> = Inr ((pre @ ?cell) @
      concat (map (\<lambda>(j, b). hex2 b @ [if j = 5 then CHR 0x00 else CHR '':'']) (zip [Suc i..<Suc i + length bs] bs))
      @ drop (length bs * 3) (drop 3 rest))"
    by (rule Cons.IH) (use Cons.prems in simp_all)
  moreover have "drop (length bs * 3) (drop 3 rest) = drop (length (b # bs) * 3) rest"
    by (simp add: add.commute)
  moreover have "zip [i..<i + length (b # bs)] (b # bs) = (i, b) # zip [Suc i..<Suc i + length bs] bs"
    by (simp add: upt_conv_Cons del: upt_Suc)
  ultimately show ?case by (simp del: mac_string_loop.simps drop_drop upt_Suc)
qed

lemma mac_bytes_string:
  assumes "length block = 18"
  shows "mac_addr_to_string block m = Inr (to_string_mac m @ [CHR 0x00])"
proof -
  obtain a b c d e f where m: "m = MacAddr a b c d e f" by (cases m)
  from mac_string_rounds [of "[]" 0 "mac_bytes m" block] assms show ?thesis
    by (simp add: mac_addr_to_string_def m upt_rec)
qed

lemma c_string_nul: "(\<And>c. c \<in> set cs \<Longrightarrow> c \<noteq> CHR 0x00) \<Longrightarrow> c_string (cs @ [CHR 0x00]) = cs"
  by (simp add: c_string_def takeWhile_append)

lemma to_string_mac_not_nul: "c \<in> set (to_string_mac m) \<Longrightarrow> c \<noteq> CHR 0x00"
  using hex2_not_nul by (cases m) auto

section \<open>Reading them back\<close>

definition digit_value :: "char \<Rightarrow> nat" where
  "digit_value c = of_char c - 48"

definition dec_value :: "string \<Rightarrow> nat" where
  "dec_value cs = foldl (\<lambda>n c. 10 * n + digit_value c) 0 cs"

lemma dec_table: "\<forall>n \<in> set [0..<256]. dec_value (dec_byte (of_nat n)) = n \<and> CHR ''.'' \<notin> set (dec_byte (of_nat n)) \<and>
    length (dec_byte (of_nat n)) \<le> 3"
  by code_simp

lemma dec_byte_spec: "dec_value (dec_byte b) = unat b" "CHR ''.'' \<notin> set (dec_byte b)" "length (dec_byte b) \<le> 3"
  using dec_table unat_u8_less [of b] by (auto dest!: bspec [of _ _ "unat b"])

lemma dec_byte_inj: "dec_byte a = dec_byte b \<Longrightarrow> a = b"
  using dec_byte_spec(1) by (metis word_unat_eq_iff)

lemma split_at_dot:
  assumes "CHR ''.'' \<notin> set a" and "CHR ''.'' \<notin> set b" and "a @ ''.'' @ x = b @ ''.'' @ y"
  shows "a = b \<and> x = y"
proof -
  have "takeWhile (\<lambda>c. c \<noteq> CHR ''.'') (a @ ''.'' @ x) = a" "takeWhile (\<lambda>c. c \<noteq> CHR ''.'') (b @ ''.'' @ y) = b"
    using assms(1,2) by (auto simp: takeWhile_append)
  with assms(3) show ?thesis by auto
qed

lemma to_string_ip_inj:
  assumes "to_string_ip p = to_string_ip q"
  shows "p = q"
proof -
  obtain a b c d e f g h where pq: "p = IpAddr a b c d" "q = IpAddr e f g h" by (cases p; cases q)
  note dots = dec_byte_spec(2)
  have s: "dec_byte a @ ''.'' @ (dec_byte b @ ''.'' @ dec_byte c @ ''.'' @ dec_byte d) =
      dec_byte e @ ''.'' @ (dec_byte f @ ''.'' @ dec_byte g @ ''.'' @ dec_byte h)"
    using assms unfolding pq by simp
  from split_at_dot [OF dots dots s] have 1: "dec_byte a = dec_byte e"
    and s1: "dec_byte b @ ''.'' @ (dec_byte c @ ''.'' @ dec_byte d) = dec_byte f @ ''.'' @ (dec_byte g @ ''.'' @ dec_byte h)"
    by blast+
  from split_at_dot [OF dots dots s1] have 2: "dec_byte b = dec_byte f"
    and s2: "dec_byte c @ ''.'' @ dec_byte d = dec_byte g @ ''.'' @ dec_byte h" by blast+
  from split_at_dot [OF dots dots s2] have 3: "dec_byte c = dec_byte g" "dec_byte d = dec_byte h" by blast+
  from 1 2 3 dec_byte_inj show ?thesis unfolding pq by blast
qed

lemma length_to_string_ip: "length (to_string_ip p) \<le> 15"
proof (cases p)
  case (IpAddr a b c d)
  then show ?thesis
    using dec_byte_spec(3) [of a] dec_byte_spec(3) [of b] dec_byte_spec(3) [of c] dec_byte_spec(3) [of d] by simp
qed

section \<open>Properties\<close>

text \<open>
  The two functions that print a MAC address agree.  \<open>mac_addr_to_string\<close> stays within
  its block of 18 characters whatever \<open>malloc\<close> left in it, fills it exactly, and the string
  it builds is the one \<open>to_string_mac\<close> prints; a smaller block would be overrun.
\<close>

theorem mac_strings_agree:
  "(length block = 18 \<longrightarrow> (\<exists>b. mac_addr_to_string block m = Inr b \<and> length b = 18 \<and> c_string b = to_string_mac m)) \<and>
   (length block < 18 \<longrightarrow> mac_addr_to_string block m = Inl OutOfBounds)"
proof (intro conjI impI)
  assume "length block = 18"
  note mac_bytes_string [OF this, of m]
  moreover have "length (to_string_mac m @ [CHR 0x00]) = 18" by (cases m) simp
  moreover have "c_string (to_string_mac m @ [CHR 0x00]) = to_string_mac m"
    by (rule c_string_nul) (rule to_string_mac_not_nul)
  ultimately show "\<exists>b. mac_addr_to_string block m = Inr b \<and> length b = 18 \<and> c_string b = to_string_mac m" by blast
next
  assume short: "length block < 18"
  let ?k = "length block div 3"
  have k: "?k < 6" "length block < ?k * 3 + 3" using short by simp_all
  obtain b bs where rest: "drop ?k (mac_bytes m) = b # bs"
    using k(1) by (cases m; cases "drop ?k (mac_bytes m)") auto
  have fits: "length (take ?k (mac_bytes m)) * 3 \<le> length block" using k(1) by simp
  have more: "mac_string_loop (xs @ b # bs) 0 block = Inl OutOfBounds"
    if "length xs * 3 \<le> length block" "length block < length xs * 3 + 3" for xs
    using mac_string_overrun [OF that] .
  have "length (take ?k (mac_bytes m)) = ?k" using k(1) by (cases m) simp
  then show "mac_addr_to_string block m = Inl OutOfBounds"
    using more [of "take ?k (mac_bytes m)"] fits k(2) rest
    by (metis append_take_drop_id mac_addr_to_string_def)
qed

theorem mac_strings_agree_witness:
  "\<exists>b. mac_addr_to_string (replicate 18 (CHR ''x'')) (MacAddr 2 0 0xAB 0 0 1) = Inr b \<and>
     c_string b = ''02:00:ab:00:00:01''"
proof -
  have "to_string_mac (MacAddr 2 0 0xAB 0 0 1) = ''02:00:ab:00:00:01''" by code_simp
  moreover have "length (replicate 18 (CHR ''x'')) = 18" by simp
  ultimately show ?thesis
    using mac_strings_agree [of "replicate 18 (CHR ''x'')" "MacAddr 2 0 0xAB 0 0 1"] by metis
qed

end
