(* ===== verification/Wifi.thy ===== *)
theory Wifi
  imports Ethernet
begin

text \<open>
  \<open>wifi_handle\<close> of \<open>src/wifi.c\<close>, unfinished: it tests \<open>ethertype\<close> and follows
  \<open>inner_pkt_data\<close>, two local variables it never sets.  What they happen to hold is a
  parameter: any number, and a pointer to some bytes or (\<open>None\<close>) to nothing.
\<close>

record pkt_wifi_hdr =
  frame_control :: u16
  duration :: u16
  addr_src :: mac_addr
  addr_dst :: mac_addr
  addr_transm :: mac_addr
  seq_control :: u16
  addr_recvr :: mac_addr
  qos_control :: u16
  ht_control :: u32

definition wifi_handle :: "u16 \<Rightarrow> buf option \<Rightarrow> router \<Rightarrow> pkt_wifi_hdr \<Rightarrow> nat \<Rightarrow> router res" where
  "wifi_handle ethertype inner_pkt_data r pkt_ptr int_id =
     (if ethertype = ETHERTYPE_IPV4 then
        case inner_pkt_data of
          None \<Rightarrow> Inl Uninitialised
        | Some pkt \<Rightarrow> ebind (ipv4_handle r pkt int_id) (\<lambda>(r1, _). Inr r1)
      else if ethertype = ETHERTYPE_ARP then
        case inner_pkt_data of
          None \<Rightarrow> Inl Uninitialised
        | Some pkt \<Rightarrow> ebind (rd_arp pkt 0) (\<lambda>arp. arp_handle r arp int_id)
      else Inr r)"

text \<open>
  What it does is up to the garbage alone: two frames with nothing in common are handled
  alike, and with the wrong garbage any frame is a fault.
\<close>

lemma wifi_ignores_frame:
  "wifi_handle ethertype inner r f int_id = wifi_handle ethertype inner r g int_id"
  "\<exists>ethertype inner. wifi_handle ethertype inner r f int_id = Inl Uninitialised"
  "\<exists>ethertype inner. wifi_handle ethertype inner r f int_id = Inr r"
proof -
  show "wifi_handle ethertype inner r f int_id = wifi_handle ethertype inner r g int_id"
    by (simp add: wifi_handle_def)
  have "wifi_handle ETHERTYPE_IPV4 None r f int_id = Inl Uninitialised" by (simp add: wifi_handle_def)
  then show "\<exists>ethertype inner. wifi_handle ethertype inner r f int_id = Inl Uninitialised" by blast
  have "wifi_handle 0 None r f int_id = Inr r"
    by (simp add: wifi_handle_def ETHERTYPE_IPV4_def ETHERTYPE_ARP_def)
  then show "\<exists>ethertype inner. wifi_handle ethertype inner r f int_id = Inr r" by blast
qed

end
