(* ===== verification/Spec2Isabelle.thy ===== *)
theory Spec2Isabelle
  imports Program Sent_Frames Headers Napt_Interleaved Threads_Safety Text Wifi
begin

text \<open>
  A verification of the user-space router of this repository (\<open>src/router\<close>): a process
  that reads Ethernet frames from two raw sockets (\<open>veth-router\<close>, the LAN side, and
  \<open>veth-hostroute\<close>, the WAN side), forwards IPv4 between them with address and port
  translation, resolves next hops by ARP, and hands out LAN addresses by DHCP.

  \<^bold>\<open>How the program fits together.\<close>
  \<open>main\<close> initialises the tables and the timer, scans the machine's addresses and starts one
  receiving thread per interface, beside the timer thread and the DHCP thread.  A receiving
  thread passes each frame to \<open>ethernet_handle\<close>, which records the sender's MAC address and
  dispatches to \<open>ipv4_handle\<close> or \<open>arp_handle\<close>.  \<open>ipv4_handle\<close> translates
  (\<open>napt_out_handle\<close>, \<open>napt_inc_handle\<close>) and hands the packet to \<open>send_ipv4\<close>, which fills
  in checksums and writes the frame, or, if the MAC address of the next hop is not known,
  queues the packet in the delta list (\<open>timer_add_packet\<close>).  An ARP packet releases the queue
  of its sender (\<open>timer_update_packets\<close>); the expiry of the timer repeats the request once and
  then drops the queue (\<open>timer_handler\<close>).

  \<^bold>\<open>Conventions\<close> (\<open>Prelude\<close>, \<open>Sync\<close>).
  C integers are words of their width, memory is a list of bytes with bounds-checked reads and
  writes (low byte first), and a computation that can go wrong returns \<open>'a res\<close>: a fault
  (out of bounds, null pointer, endless loop, a lock never released, unset variable, missing
  return value) or a result.  A lock is a state component; locking one that is held is the
  fault \<open>Blocked\<close>.  Operations keep the names of the C functions and are in the order of the
  source; a parameter stands for what the environment provides: the contents of fresh memory,
  the numbers \<open>rand\<close> returns, the clock, the frames read, the addresses of the machine, the
  outcome of opening sockets and files.

  \<^bold>\<open>Which theory models what.\<close>
  \<^item> \<open>Addresses\<close>: \<open>structs.h\<close> and the masks and comparisons of \<open>utils.c\<close>; masks agree with
    prefixes of at most 24 bits, and prefix lengths read back.  \<open>Text\<close>: what is printed
    (\<open>utils.c\<close>, \<open>print_pairs\<close>, \<open>print_word\<close>, \<open>mac_addr_to_string\<close>).
  \<^item> \<open>Interfaces\<close>: the table of \<open>interfaces.c\<close> with its bit fields and the choice of the
    outgoing interface, which is the longest matching prefix.
  \<^item> \<open>Devices\<close>: the MAC table of \<open>devices.c\<close>, a growing array, refines a finite map.
  \<^item> \<open>Hashmap\<close>: \<open>hashmap.c\<close> on the byte array of tags, keys and values.  \<open>Hashmap_Slots\<close>
    reads the array slot by slot; \<open>Hashmap_Map\<close> shows that it refines a map as long as it does
    not grow, that every operation ends, and that a growth forgets the entries.
  \<^item> \<open>Checksum\<close>, \<open>Outgoing\<close>: \<open>outgoing.c\<close>.  The checksum routine computes the ones'
    complement sum, every packet leaves with valid checksums to the right next hop or joins
    exactly one queue.
  \<^item> \<open>Router_State\<close>: the record of all global variables but those of the DHCP server, and
    the layout of packets and frames.
  \<^item> \<open>Timer\<close>, \<open>Arp\<close>: the delta list of \<open>timer.c\<close>, the timer it programs, and \<open>arp.c\<close>.
    Well-formedness of the list, one retry per next hop, everything pending ends, a reply
    releases exactly its queue.
  \<^item> \<open>Napt\<close>, \<open>Napt_Flows\<close>: \<open>ipv4.c\<close>.  Flows and their replies, the firewall, and the cases
    that go wrong (a second destination, a reused port, exhausted ports, a growing table).
    \<open>Headers\<close>: the header structs with their bit fields and byte layout, and which of their
    fields translation and the checksum code rewrite.
  \<^item> \<open>Ethernet\<close>, \<open>System\<close>, \<open>Clean_Runs\<close>: \<open>ethernet.c\<close> and the receiving loop of \<open>main.c\<close>;
    the router as a system that reacts to frames, expiries and passing time, its firewall
    over whole runs, and the runs that never fault.
  \<^item> \<open>Startup\<close>, \<open>Boot\<close>: \<open>timer_init\<close>, the scan of the addresses, the storing of the
    sockets, and the start of the router down to the state those runs begin in.
    \<open>Sent_Frames\<close>: over those runs, the type of every frame written and the received packet
    it comes from.
  \<^item> \<open>Program\<close>: \<open>main\<close> with its three builds, and the process in which router and DHCP
    server run side by side: their events interleave freely, a fault or an \<open>exit\<close> in one ends
    both.
  \<^item> \<open>Threads\<close>, \<open>Threads_Safety\<close>: sending, ARP and expiry cut at their critical sections
    and interleaved in any order, as a step relation; invariants and conservation of packets
    by rule induction, and the wake-up that an interleaving can lose.
  \<^item> \<open>Napt_Threads\<close>, \<open>Napt_Interleaved\<close>: the two handlers of \<open>ipv4.c\<close> cut at every
    locking and unlocking of the translation tables, the early unlocking of \<open>hashmap_get\<close>
    included, as a step relation of the two receiving threads; the firewall in every
    interleaving, and the mutual exclusion that a reply destroys.
  \<^item> \<open>Dhcp_Options\<close>, \<open>Dhcp_Leases\<close>, \<open>Dhcp\<close>: \<open>dhcp.c\<close>, the scan of options, the lease table
    and the server, with the invariant of the table, the answer to every request, and the
    out-of-bounds reads of malformed messages.
  \<^item> \<open>Capture\<close>, \<open>Driver\<close>, \<open>Testcases\<close>: \<open>stub.c\<close>, \<open>driver.c\<close>, \<open>testcases.c\<close>.
    \<open>Wifi\<close>: the unfinished \<open>wifi.c\<close>.

  \<^bold>\<open>Contracts between components.\<close>
  \<open>Stores\<close> states what the users of the MAC table and of the translation tables rely on
  (\<open>keyed_store\<close>: lookups after updates, within the room the store has; \<open>roomy_store\<close>: no
  limit on the room), interpreted on \<open>devices.c\<close> and on both hash maps.  \<open>Reactive\<close> states
  what makes a program that reacts to events safe (\<open>safe_system\<close>) and free of faults
  (\<open>faultless_system\<close>), interpreted on the router (\<open>firewall\<close>, \<open>clean_run\<close>, \<open>wired_run\<close>) and on
  the DHCP server (\<open>dhcp_server\<close>).

  \<^bold>\<open>Bounds and termination.\<close>
  The probe loops of the hash map get as many rounds as the table has slots and are the fault
  \<open>Diverges\<close> afterwards: the sequence of slots is then back at its start and nothing has
  changed.  Insertion and growth call each other; depth 2 is enough because a growth more than
  doubles the table (\<open>hashmap_insert_total\<close>).  The loop of \<open>timer_handler\<close> ends by the
  retries left, the scan of options by the bytes left of the buffer, the driver by the bytes
  left of its file, folding a checksum by its value, and the interleavings of threads by the
  releases and then the packets left.  No theorem about a result rests on fuel being enough:
  the totality of each operation is part of its statement or of a lemma beside it.

  \<^bold>\<open>Not modelled.\<close>
  Sockets, files and the printing of messages beyond their text; signal masks; failing
  \<open>malloc\<close> and failing writes to a socket (which only print).  A critical section is one
  step: where a lock has been given up too early, the memory accesses that then overlap are
  not cut further.  \<open>rand\<close>, the clock and fresh memory are arbitrary, so
  nothing depends on their quality.  The scripts and the Makefile.
\<close>

section \<open>Whole runs\<close>

text \<open>
  C1: the firewall, over whole runs.  After any sequence of frames on both interfaces, failed
  reads, expiries of the timer and passing time, a TCP or UDP packet from the WAN changes
  nothing and goes nowhere, or an earlier frame on the LAN carried a packet of the same
  protocol to its sender's address and port, and it is handed to the address and port that
  packet came from.
\<close>

theorem firewall_of_runs:
  assumes "run_events react es (start_system rands buf0 buf1) = Inr s" and "translatable pkt"
  shows "ipv4_handle (core s) pkt 1 = Inr (core s, pkt) \<or>
    (\<exists>b. (0, b) \<in> set (handled s) \<and> frame_type b = ETHERTYPE_IPV4 \<and>
      ip_dst (drop 14 b) = ip_src pkt \<and> tpt_dst (drop 14 b) = tpt_src pkt \<and>
      ip_proto (drop 14 b) = ip_proto pkt \<and>
      ipv4_handle (core s) pkt 1 =
        send_ipv4 (after_hit (core s)) (translate_in (ip_src (drop 14 b)) (tpt_src (drop 14 b)) pkt))"
  using start_sound assms by (rule firewall_run)

theorem firewall_of_runs_witness:
  "\<exists>s. run_events react [Frame 0 (Some sample_frame)] (start_system (\<lambda>_. 0) blank blank) = Inr s \<and>
    (let pkt = udp_packet (IpAddr 8 8 8 8) 53 (IpAddr 192 168 0 2) 1024 in
     ipv4_handle (core s) pkt 1 = Inr (core s, pkt) \<or>
     (\<exists>b. (0, b) \<in> set (handled s) \<and> frame_type b = ETHERTYPE_IPV4 \<and>
        ip_dst (drop 14 b) = ip_src pkt \<and> tpt_dst (drop 14 b) = tpt_src pkt \<and>
        ip_proto (drop 14 b) = ip_proto pkt \<and>
        ipv4_handle (core s) pkt 1 =
          send_ipv4 (after_hit (core s)) (translate_in (ip_src (drop 14 b)) (tpt_src (drop 14 b)) pkt)))"
proof -
  obtain s where s: "run_events react [Frame 0 (Some sample_frame)] (start_system (\<lambda>_. 0) blank blank) = Inr s"
    using clean_run.run_good [OF start_good sample_fair] by (auto simp: blank_def)
  have "translatable (udp_packet (IpAddr 8 8 8 8) 53 (IpAddr 192 168 0 2) 1024)"
    by (rule udp_packet_ok)
  from firewall_of_runs [OF s this] s show ?thesis unfolding Let_def by blast
qed

text \<open>
  C2: clean traffic never stops the router.  From the start, with receive buffers of 1518
  bytes, every run completes in which each forwarded packet lies with its checksummed region
  within its total length, each new connection still finds a free port, and an ARP packet
  meets a delta list that is empty or a timer with part of a second left; whatever other
  frames, failed reads, expiries and delays it contains.  No handler faults, blocks on a lock
  or loops, and the invariants of all components hold at the end.
\<close>

theorem fair_runs_complete:
  assumes "length buf0 = ETHER_MTU" and "length buf1 = ETHER_MTU"
    and "fair_run react fair_event es (start_system rands buf0 buf1)"
  shows "\<exists>s. run_events react es (start_system rands buf0 buf1) = Inr s \<and>
    configured (interface_arr (core s)) \<and> devices_inv (macs (core s)) \<and> timer_inv (core s) \<and>
    napt_ok (core s) \<and> queue_ready (core s)"
proof -
  from clean_run.run_good [OF start_good [OF assms(1,2)] assms(3)] obtain s where
    "run_events react es (start_system rands buf0 buf1) = Inr s" "good_system s" by blast
  then show ?thesis by (auto simp: good_system_def clean_def router_ok_def)
qed

theorem fair_runs_complete_witness:
  "fair_run react fair_event [Frame 0 (Some sample_frame)] (start_system (\<lambda>_. 0) blank blank) \<and>
   (\<exists>s. run_events react [Frame 0 (Some sample_frame)] (start_system (\<lambda>_. 0) blank blank) = Inr s \<and>
     configured (interface_arr (core s)) \<and> devices_inv (macs (core s)) \<and> timer_inv (core s) \<and>
     napt_ok (core s) \<and> queue_ready (core s))"
proof -
  have "length blank = ETHER_MTU" by (simp add: blank_def)
  with fair_runs_complete [OF _ _ sample_fair] sample_fair show ?thesis by blast
qed

end
